(* ===== verification/Prelude.thy ===== *)
theory Prelude
  imports Main "HOL-Library.Word" "HOL-Library.AList"
begin

unbundle bit_operations_syntax

text \<open>
  The shared layer of the development.  It fixes how the Rust values are read:
  \<^item> machine integers are words of their width (\<open>u8\<close> to \<open>u128\<close>), with the wrap-around of
    a release build; \<open>usize\<close> values, which are lengths and indices of vectors in memory, are
    \<open>nat\<close>;
  \<^item> a \<open>Vec<u8>\<close> or a byte slice is a list of bytes;
  \<^item> \<open>Result<T, E>\<close> is the datatype \<open>res\<close>, which has a third constructor for a panic
    (an index out of range, an \<open>unwrap\<close> of nothing);
  \<^item> a method that takes \<open>&mut self\<close> and returns a \<open>Result\<close> returns a pair: the
    result and the state as the method leaves it, also where it fails;
  \<^item> \<open>HashMap\<close> is an association list with distinct keys; where the code iterates over one,
    the iteration order is an argument of the model.
  The lemmas are the list and word facts the components share: little-endian encodings, copies
  into buffers at fixed offsets, and slices of a concatenation of chunks.
\<close>

named_theorems codec "lengths and round trips of the fixed-width encodings"

section \<open>Machine integers and results\<close>

type_synonym u8 = "8 word"
type_synonym u16 = "16 word"
type_synonym u32 = "32 word"
type_synonym u64 = "64 word"
type_synonym u128 = "128 word"
type_synonym bytes = "u8 list"

datatype ('e, 'a) res = Ok 'a | Err 'e | Panic

fun res_bind :: "('e, 'a) res \<Rightarrow> ('a \<Rightarrow> ('e, 'b) res) \<Rightarrow> ('e, 'b) res" where
  "res_bind (Ok x) k = k x"
| "res_bind (Err e) k = Err e"
| "res_bind Panic k = Panic"

fun map_err :: "('e \<Rightarrow> 'f) \<Rightarrow> ('e, 'a) res \<Rightarrow> ('f, 'a) res" where
  "map_err f (Ok x) = Ok x"
| "map_err f (Err e) = Err (f e)"
| "map_err f Panic = Panic"

fun is_ok :: "('e, 'a) res \<Rightarrow> bool" where
  "is_ok (Ok x) = True"
| "is_ok (Err e) = False"
| "is_ok Panic = False"

text \<open>Sequencing of methods on a state, Rust's \<open>?\<close>: an error or a panic stops the sequence and
  leaves the state as it is at that point.\<close>

definition st_bind ::
  "('s \<Rightarrow> ('e, 'a) res \<times> 's) \<Rightarrow> ('a \<Rightarrow> 's \<Rightarrow> ('e, 'b) res \<times> 's) \<Rightarrow> 's \<Rightarrow> ('e, 'b) res \<times> 's" where
  "st_bind m k s = (case m s of
      (Ok x, s') \<Rightarrow> k x s'
    | (Err e, s') \<Rightarrow> (Err e, s')
    | (Panic, s') \<Rightarrow> (Panic, s'))"

definition st_return :: "'a \<Rightarrow> 's \<Rightarrow> ('e, 'a) res \<times> 's" where
  "st_return x s = (Ok x, s)"

lemma res_bind_eq_Ok:
  "res_bind m k = Ok y \<longleftrightarrow> (\<exists>x. m = Ok x \<and> k x = Ok y)"
  by (cases m) auto

lemma map_err_eq_Ok [simp]: "map_err f m = Ok y \<longleftrightarrow> m = Ok y"
  by (cases m) auto

lemma st_bind_eq_Ok:
  "st_bind m k s = (Ok y, t) \<longleftrightarrow> (\<exists>x s'. m s = (Ok x, s') \<and> k x s' = (Ok y, t))"
  by (auto simp: st_bind_def split: prod.splits res.splits)

lemma st_bind_Ok [simp]: "m s = (Ok x, s') \<Longrightarrow> st_bind m k s = k x s'"
  by (simp add: st_bind_def)

section \<open>Word facts\<close>

text \<open>\<open>u64::div_ceil\<close>: the quotient, plus one when there is a remainder.\<close>

definition div_ceil :: "'a::len word \<Rightarrow> 'a word \<Rightarrow> 'a word" where
  "div_ceil a b = (if a mod b = 0 then a div b else a div b + 1)"

lemma unat_of_nat_small [simp]:
  "n < 2 ^ LENGTH('a) \<Longrightarrow> unat (of_nat n :: 'a::len word) = n"
  by (simp add: unat_of_nat)

lemma unat_add_small:
  "unat (a :: 'a::len word) + unat b < 2 ^ LENGTH('a) \<Longrightarrow> unat (a + b) = unat a + unat b"
  by (simp add: unat_word_ariths)

lemma unat_sub_small: "unat b \<le> unat a \<Longrightarrow> unat (a - b) = unat a - unat b"
  by (simp add: unat_sub word_le_nat_alt)

lemma unat_div_ceil:
  fixes a b :: "'a::len word"
  assumes "1 < unat b"
  shows "unat (div_ceil a b) = unat a div unat b + (if unat a mod unat b = 0 then 0 else 1)"
proof (cases "unat a mod unat b = 0")
  case True
  then have "a mod b = 0" by (metis unat_mod unat_eq_zero)
  with True show ?thesis by (simp add: div_ceil_def unat_div)
next
  case False
  then have w: "a mod b \<noteq> 0" by (metis unat_mod unat_0)
  have "unat a div unat b < unat a"
    using False assms by (cases "unat a = 0") auto
  then have "unat (a div b) + 1 < 2 ^ LENGTH('a)"
    using unsigned_less [of a, where ?'a = nat] unfolding unat_div by linarith
  then have "unat (a div b + 1) = unat a div unat b + 1"
    by (simp add: unat_add_small unat_div)
  with False w show ?thesis by (simp add: div_ceil_def)
qed

lemma div_ceil_bounds:
  assumes "1 < unat b"
  shows "unat a \<le> unat (div_ceil a b) * unat b"
    and "unat (div_ceil a b) * unat b < unat a + unat b"
proof -
  have eq: "unat a = unat a div unat b * unat b + unat a mod unat b" by simp
  have lt: "unat a mod unat b < unat b" using assms by simp
  show "unat a \<le> unat (div_ceil a b) * unat b"
    using eq lt unfolding unat_div_ceil [OF assms] add_mult_distrib
    by (simp only: split: if_split) linarith
  show "unat (div_ceil a b) * unat b < unat a + unat b"
    using eq lt unfolding unat_div_ceil [OF assms] add_mult_distrib
    by (simp only: split: if_split) linarith
qed

section \<open>Buffers\<close>

text \<open>\<open>b[lo..hi]\<close> and \<open>b[off..off + src.len()].copy_from_slice(src)\<close>, for ranges inside
  the buffer.\<close>

definition slice :: "nat \<Rightarrow> nat \<Rightarrow> 'a list \<Rightarrow> 'a list" where
  "slice lo hi b = take (hi - lo) (drop lo b)"

definition copy_at :: "nat \<Rightarrow> 'a list \<Rightarrow> 'a list \<Rightarrow> 'a list" where
  "copy_at off src d = take off d @ src @ drop (off + length src) d"

text \<open>A sequence of such copies, each an offset and its bytes.\<close>

fun copy_all :: "(nat \<times> 'a list) list \<Rightarrow> 'a list \<Rightarrow> 'a list" where
  "copy_all [] d = d"
| "copy_all ((off, src) # fs) d = copy_all fs (copy_at off src d)"

text \<open>Fields that follow one another without a gap, from offset \<open>off\<close> on.\<close>

fun contig :: "nat \<Rightarrow> (nat \<times> 'a list) list \<Rightarrow> bool" where
  "contig off [] = True"
| "contig off ((o', src) # fs) = (o' = off \<and> contig (off + length src) fs)"

lemma length_copy_at [simp]:
  "off + length src \<le> length d \<Longrightarrow> length (copy_at off src d) = length d"
  by (simp add: copy_at_def)

lemma length_slice [simp]: "hi \<le> length b \<Longrightarrow> length (slice lo hi b) = hi - lo"
  by (simp add: slice_def)

lemma copy_at_Nil [simp]: "copy_at off [] d = d"
  by (simp add: copy_at_def)

lemma copy_at_copy_at:
  assumes "off + length a + length b \<le> length d"
  shows "copy_at (off + length a) b (copy_at off a d) = copy_at off (a @ b) d"
proof -
  have "take (off + length a) (take off d @ a @ drop (off + length a) d) = take off d @ a"
    using assms by simp
  moreover have "drop (off + length a + length b) (take off d @ a @ drop (off + length a) d) =
      drop (off + length (a @ b)) d"
    using assms by (simp add: ac_simps)
  ultimately show ?thesis by (simp add: copy_at_def)
qed

lemma copy_all_contig:
  "contig off fs \<Longrightarrow> off + length (concat (map snd fs)) \<le> length d \<Longrightarrow>
   copy_all fs d = copy_at off (concat (map snd fs)) d"
proof (induction fs arbitrary: off d)
  case Nil
  then show ?case by simp
next
  case (Cons f fs)
  obtain src where f: "f = (off, src)" using Cons.prems(1) by (cases f) auto
  have "copy_all fs (copy_at off src d) =
      copy_at (off + length src) (concat (map snd fs)) (copy_at off src d)"
    using Cons.prems f by (intro Cons.IH) (auto simp: add.assoc)
  also have "\<dots> = copy_at off (src @ concat (map snd fs)) d"
    using Cons.prems f by (intro copy_at_copy_at) simp
  finally show ?case using f by simp
qed

lemma copy_at_full: "length src = length d \<Longrightarrow> copy_at 0 src d = src"
  by (simp add: copy_at_def)

lemma copy_at_prefix: "length src \<le> length d \<Longrightarrow> copy_at 0 src d = src @ drop (length src) d"
  by (simp add: copy_at_def)

lemma slice_append_left [simp]: "hi \<le> length a \<Longrightarrow> slice lo hi (a @ b) = slice lo hi a"
  by (cases "lo \<le> hi") (auto simp: slice_def)

lemma slice_append_right [simp]:
  "length a \<le> lo \<Longrightarrow> slice lo hi (a @ b) = slice (lo - length a) (hi - length a) b"
  by (simp add: slice_def)

lemma slice_Cons [simp]: "0 < lo \<Longrightarrow> slice lo hi (x # xs) = slice (lo - 1) (hi - 1) xs"
  by (cases lo) (auto simp: slice_def)

lemma slice_whole [simp]: "length a = hi \<Longrightarrow> slice 0 hi a = a"
  by (simp add: slice_def)

lemma nth_copy_at:
  "off + length src \<le> length d \<Longrightarrow> i < length d \<Longrightarrow>
   copy_at off src d ! i = (if off \<le> i \<and> i < off + length src then src ! (i - off) else d ! i)"
  by (auto simp: copy_at_def nth_append min_def)

lemma slice_copy_at_same:
  "off + length src \<le> length d \<Longrightarrow> hi = off + length src \<Longrightarrow> slice off hi (copy_at off src d) = src"
  by (simp add: copy_at_def)

lemma slice_copy_at_other:
  assumes "off + length src \<le> length d" "hi \<le> off \<or> off + length src \<le> lo" "hi \<le> length d"
  shows "slice lo hi (copy_at off src d) = slice lo hi d"
  using assms by (intro nth_equalityI) (auto simp: slice_def nth_copy_at)

text \<open>Equal-sized chunks: the \<open>i\<close>-th chunk of a concatenation.\<close>

lemma length_concat_chunks:
  "(\<And>x. x \<in> set xs \<Longrightarrow> length (f x) = k) \<Longrightarrow> length (concat (map f xs)) = length xs * k"
  by (induction xs) auto

lemma drop_concat_chunks:
  "(\<And>x. x \<in> set xs \<Longrightarrow> length (f x) = k) \<Longrightarrow> n \<le> length xs \<Longrightarrow>
   drop (n * k) (concat (map f xs)) = concat (map f (drop n xs))"
proof (induction xs arbitrary: n)
  case Nil
  then show ?case by simp
next
  case (Cons x xs)
  show ?case
  proof (cases n)
    case 0
    then show ?thesis by simp
  next
    case (Suc m)
    have "drop (n * k) (concat (map f (x # xs))) = drop (m * k) (concat (map f xs))"
      using Cons.prems(1) [of x] Suc by simp
    also have "\<dots> = concat (map f (drop m xs))"
      using Cons.prems Suc by (intro Cons.IH) auto
    finally show ?thesis using Suc by simp
  qed
qed

lemma slice_concat_chunk:
  assumes "\<And>x. x \<in> set xs \<Longrightarrow> length (f x) = k" "i < length xs"
  shows "slice (i * k) (i * k + k) (concat (map f xs) @ ys) = f (xs ! i)"
proof -
  have "drop (i * k) (concat (map f xs)) = concat (map f (drop i xs))"
    using assms by (intro drop_concat_chunks) auto
  moreover have "drop i xs = xs ! i # drop (Suc i) xs"
    using assms(2) by (simp add: Cons_nth_drop_Suc)
  moreover have "length (f (xs ! i)) = k" using assms by simp
  moreover have "i * k + k \<le> length (concat (map f xs))"
  proof -
    have "(i + 1) * k \<le> length xs * k" using assms(2) by (intro mult_le_mono1) simp
    then show ?thesis using length_concat_chunks [of xs f k] assms(1) by simp
  qed
  ultimately show ?thesis by (simp add: slice_def)
qed

section \<open>Little-endian encodings\<close>

text \<open>\<open>to_le_bytes\<close> (as many bytes as the integer has) and \<open>from_le_bytes\<close>.\<close>

fun le_bytes :: "nat \<Rightarrow> 'a::len word \<Rightarrow> bytes" where
  "le_bytes 0 w = []"
| "le_bytes (Suc n) w = ucast w # le_bytes n (drop_bit 8 w)"

fun from_le :: "bytes \<Rightarrow> 'a::len word" where
  "from_le [] = 0"
| "from_le (b # bs) = ucast b + 256 * from_le bs"

lemma length_le_bytes [simp, codec]: "length (le_bytes n w) = n"
  by (induction n arbitrary: w) auto

lemma unat_drop_bit: "unat (drop_bit n w) = unat w div 2 ^ n"
  by (simp add: unsigned_drop_bit_eq drop_bit_eq_div [where ?'a = nat] take_bit_nat_eq_self)

lemma unat_drop_bit_8: "unat (drop_bit 8 w) = unat w div 256"
  by (simp add: unat_drop_bit)

lemma unat_from_le_le_bytes:
  "8 * n \<le> LENGTH('a) \<Longrightarrow> unat (from_le (le_bytes n (w::'a::len word)) :: 'a word) = unat w mod 256 ^ n"
proof (induction n arbitrary: w)
  case 0
  then show ?case by simp
next
  case (Suc n)
  let ?r = "from_le (le_bytes n (drop_bit 8 w)) :: 'a word"
  have ih: "unat ?r = (unat w div 256) mod 256 ^ n"
    using Suc.prems Suc.IH [of "drop_bit 8 w"] unat_drop_bit_8 [of w] by simp
  have lw: "8 \<le> LENGTH('a)" using Suc.prems by simp
  have b: "unat (ucast (ucast w :: u8) :: 'a word) = unat w mod 256"
    using lw by (simp add: unsigned_take_bit_eq unsigned_ucast_eq take_bit_eq_mod [where ?'a = nat])
  have p: "(256::nat) ^ Suc n \<le> 2 ^ LENGTH('a)"
  proof -
    have "(256::nat) ^ Suc n = 2 ^ (8 * Suc n)" by (simp only: power_mult) simp
    also have "\<dots> \<le> 2 ^ LENGTH('a)" using Suc.prems by (intro power_increasing) auto
    finally show ?thesis .
  qed
  have s: "unat w mod 256 + 256 * (unat w div 256 mod 256 ^ n) = unat w mod 256 ^ Suc n"
    by (simp add: mod_mult2_eq)
  have lt: "unat w mod 256 ^ Suc n < 2 ^ LENGTH('a)"
    using p by (meson mod_less_divisor order_less_le_trans zero_less_numeral zero_less_power)
  have "unat (ucast (ucast w :: u8) + 256 * ?r) = unat w mod 256 + 256 * (unat w div 256 mod 256 ^ n)"
  proof -
    have c: "(256 :: 'a word) = of_nat 256" by simp
    have "of_nat (unat (ucast (ucast w :: u8) :: 'a word) + 256 * unat ?r) =
        (ucast (ucast w :: u8) + 256 * ?r :: 'a word)"
      by simp
    then have "unat (ucast (ucast w :: u8) + 256 * ?r) =
        unat (of_nat (unat (ucast (ucast w :: u8) :: 'a word) + 256 * unat ?r) :: 'a word)"
      by simp
    also have "\<dots> = unat w mod 256 + 256 * (unat w div 256 mod 256 ^ n)"
      using lt unfolding b ih s by (rule unat_of_nat_small)
    finally show ?thesis .
  qed
  with s show ?case by simp
qed

lemma from_le_le_bytes:
  fixes w :: "'a::len word"
  assumes "LENGTH('a) = 8 * n"
  shows "from_le (le_bytes n w) = w"
proof -
  have "unat (from_le (le_bytes n w) :: 'a word) = unat w mod 2 ^ LENGTH('a)"
    using assms unat_from_le_le_bytes [of n w] by (simp add: power_mult)
  then show ?thesis using unsigned_less [of w, where ?'a = nat] by (simp add: word_unat_eq_iff)
qed

lemma from_le_u64 [simp, codec]: "from_le (le_bytes 8 (w :: u64)) = w"
  by (rule from_le_le_bytes) simp

lemma from_le_u32 [simp, codec]: "from_le (le_bytes 4 (w :: u32)) = w"
  by (rule from_le_le_bytes) simp

lemma from_le_u16 [simp, codec]: "from_le (le_bytes 2 (w :: u16)) = w"
  by (rule from_le_le_bytes) simp

section \<open>Hash maps\<close>

text \<open>Any order a \<open>HashMap\<close> may be iterated in: the same bindings, each once.\<close>

definition is_iter :: "(('k \<times> 'v) list \<Rightarrow> ('k \<times> 'v) list) \<Rightarrow> bool" where
  "is_iter iter \<longleftrightarrow>
     (\<forall>t. distinct (map fst t) \<longrightarrow> distinct (map fst (iter t)) \<and> set (iter t) = set t)"

lemma is_iter_D:
  assumes "is_iter iter" "distinct (map fst t)"
  shows "distinct (map fst (iter t))" "set (iter t) = set t" "length (iter t) = length t"
    "map_of (iter t) = map_of t"
proof -
  show d: "distinct (map fst (iter t))" and st: "set (iter t) = set t"
    using assms by (auto simp: is_iter_def)
  have "distinct (iter t)" "distinct t" using d assms(2) by (auto simp: distinct_map)
  then show "length (iter t) = length t" using st by (metis distinct_card)
  show "map_of (iter t) = map_of t"
    using d assms(2) st by (intro ext) (metis map_of_eq_Some_iff not_None_eq option.exhaust)
qed

lemma update_fresh: "k \<notin> fst ` set t \<Longrightarrow> AList.update k v t = t @ [(k, v)]"
  by (induction t) auto

text \<open>Replacing or removing the binding of a key, with the rest of the list spelled out.\<close>

lemma alist_delete_mid:
  assumes "k \<notin> fst ` set l1" "k \<notin> fst ` set l2"
  shows "AList.delete k (l1 @ (k, v) # l2) = l1 @ l2"
proof -
  have "AList.delete k (l1 @ (k, v) # l2) = AList.delete k l1 @ AList.delete k l2"
    unfolding AList.delete_eq by simp
  then show ?thesis using assms by (simp add: delete_id)
qed

lemma alist_split:
  assumes "map_of t k = Some v" "distinct (map fst t)"
  obtains l1 l2 where "t = l1 @ (k, v) # l2" "k \<notin> fst ` set l1" "k \<notin> fst ` set l2"
    "\<And>v'. AList.update k v' t = l1 @ (k, v') # l2" "AList.delete k t = l1 @ l2"
proof -
  obtain l1 l2 where t: "t = l1 @ (k, v) # l2"
    using map_of_SomeD [OF assms(1)] by (auto simp: in_set_conv_decomp)
  then have f: "k \<notin> fst ` set l1" "k \<notin> fst ` set l2" using assms(2) by auto
  have u: "AList.update k v' (l @ (k, v) # l2) = l @ (k, v') # l2" if "k \<notin> fst ` set l" for l v'
    using that by (induction l) auto
  have "AList.delete k t = l1 @ l2" unfolding t using f by (rule alist_delete_mid)
  then show thesis using that t f u by blast
qed

end
