(* ===== verification/Alloc.thy ===== *)
theory Alloc
  imports Prelude
begin

text \<open>
  The free-space allocator of \<^verbatim>\<open>rust/bloomfs-alloc\<close>: a bitmap with one bit per cluster, first-fit
  allocation of contiguous runs, frees that take effect at once, and deferred frees that keep
  the clusters pinned until the durability layer has committed.  The abstraction is the set
  \<open>used_set\<close> of clusters in use; the lemmas say what every operation does to that set, that
  the cached count \<open>bm_used\<close> is its cardinality, and that the serialised bitmap reads back.
\<close>

section \<open>The model\<close>

datatype alloc_error = AllocNoSpace | ZeroCount | AllocShort

record free_range =
  fr_start :: u64
  fr_count :: u64

record bitmap =
  bm_bits :: "u64 list"
  bm_total :: u64
  bm_used :: u64
  bm_deferred :: "free_range list"

definition bitmap_new :: "u64 \<Rightarrow> bitmap" where
  "bitmap_new tot = \<lparr>bm_bits = replicate (unat (div_ceil tot 64)) 0, bm_total = tot,
     bm_used = 0, bm_deferred = []\<rparr>"

text \<open>The three bit operations.  Every caller has checked \<open>i < bm_total b\<close>, for which the word
  index is inside \<open>bm_bits\<close> (lemma \<open>bm_index_in_range\<close>).\<close>

definition bm_get :: "bitmap \<Rightarrow> u64 \<Rightarrow> bool" where
  "bm_get b i = ((bm_bits b ! unat (drop_bit 6 i)) AND push_bit (unat (i AND 63)) 1 \<noteq> 0)"

definition bm_set :: "bitmap \<Rightarrow> u64 \<Rightarrow> bitmap" where
  "bm_set b i = b\<lparr>bm_bits := (bm_bits b)[unat (drop_bit 6 i) :=
     (bm_bits b ! unat (drop_bit 6 i)) OR push_bit (unat (i AND 63)) 1]\<rparr>"

definition bm_clr :: "bitmap \<Rightarrow> u64 \<Rightarrow> bitmap" where
  "bm_clr b i = b\<lparr>bm_bits := (bm_bits b)[unat (drop_bit 6 i) :=
     (bm_bits b ! unat (drop_bit 6 i)) AND NOT (push_bit (unat (i AND 63)) 1)]\<rparr>"

definition reserve_step :: "nat \<Rightarrow> bitmap \<Rightarrow> bitmap" where
  "reserve_step i b =
     (if \<not> bm_get b (of_nat i) then (bm_set b (of_nat i))\<lparr>bm_used := bm_used b + 1\<rparr> else b)"

definition bitmap_reserve :: "u64 \<Rightarrow> u64 \<Rightarrow> bitmap \<Rightarrow> bitmap" where
  "bitmap_reserve start count b =
     fold reserve_step [unat start ..< min (unat (start + count)) (unat (bm_total b))] b"

text \<open>The scan of \<open>alloc\<close> over the remaining cluster numbers, with its two loop variables.\<close>

fun alloc_scan :: "bitmap \<Rightarrow> u64 \<Rightarrow> nat list \<Rightarrow> u64 \<Rightarrow> u64 \<Rightarrow> u64 option" where
  "alloc_scan b count [] run start = None"
| "alloc_scan b count (i # is) run start =
     (if bm_get b (of_nat i) then alloc_scan b count is 0 start
      else
        let start' = (if run = 0 then of_nat i else start); run' = run + 1
        in if run' = count then Some start' else alloc_scan b count is run' start')"

definition bitmap_alloc :: "u64 \<Rightarrow> bitmap \<Rightarrow> (alloc_error, u64) res \<times> bitmap" where
  "bitmap_alloc count b =
     (if count = 0 then (Err ZeroCount, b)
      else case alloc_scan b count [0 ..< unat (bm_total b)] 0 0 of
        Some start \<Rightarrow>
          (Ok start, (fold (\<lambda>j b. bm_set b (of_nat j)) [unat start ..< unat (start + count)] b)
             \<lparr>bm_used := bm_used b + count\<rparr>)
      | None \<Rightarrow> (Err AllocNoSpace, b))"

definition free_step :: "nat \<Rightarrow> bitmap \<Rightarrow> bitmap" where
  "free_step i b =
     (if bm_get b (of_nat i) then (bm_clr b (of_nat i))\<lparr>bm_used := bm_used b - 1\<rparr> else b)"

definition bitmap_free :: "u64 \<Rightarrow> u64 \<Rightarrow> bitmap \<Rightarrow> bitmap" where
  "bitmap_free start count b =
     fold free_step [unat start ..< min (unat (start + count)) (unat (bm_total b))] b"

definition bitmap_defer :: "u64 \<Rightarrow> u64 \<Rightarrow> bitmap \<Rightarrow> bitmap" where
  "bitmap_defer start count b =
     b\<lparr>bm_deferred := bm_deferred b @ [\<lparr>fr_start = start, fr_count = count\<rparr>]\<rparr>"

definition apply_deferred :: "bitmap \<Rightarrow> bitmap" where
  "apply_deferred b =
     fold (\<lambda>r b. bitmap_free (fr_start r) (fr_count r) b) (bm_deferred b) (b\<lparr>bm_deferred := []\<rparr>)"

definition bitmap_pending :: "bitmap \<Rightarrow> nat" where
  "bitmap_pending b = length (bm_deferred b)"

definition deferred_count :: "bitmap \<Rightarrow> u64" where
  "deferred_count b = sum_list (map fr_count (bm_deferred b))"

definition bitmap_available :: "bitmap \<Rightarrow> u64" where
  "bitmap_available b = bm_total b - bm_used b"

definition bitmap_marshal_len :: "bitmap \<Rightarrow> nat" where
  "bitmap_marshal_len b = 8 + length (bm_bits b) * 8"

definition bitmap_marshal_into :: "bitmap \<Rightarrow> bytes \<Rightarrow> bytes \<times> nat" where
  "bitmap_marshal_into b dst =
     (copy_all ((0, le_bytes 8 (bm_total b)) #
        map (\<lambda>(i, w). (8 + i * 8, le_bytes 8 w)) (List.enumerate 0 (bm_bits b))) dst,
      8 + length (bm_bits b) * 8)"

definition bitmap_marshal :: "bitmap \<Rightarrow> bytes" where
  "bitmap_marshal b = fst (bitmap_marshal_into b (replicate (bitmap_marshal_len b) 0))"

definition count_step :: "nat \<Rightarrow> bitmap \<Rightarrow> bitmap" where
  "count_step i b = (if bm_get b (of_nat i) then b\<lparr>bm_used := bm_used b + 1\<rparr> else b)"

definition bitmap_unmarshal :: "bytes \<Rightarrow> (alloc_error, bitmap) res" where
  "bitmap_unmarshal data =
     (if length data < 8 then Err AllocShort
      else
        let tot = from_le (slice 0 8 data); b = bitmap_new tot; body = drop 8 data
        in if length body < length (bm_bits b) * 8 then Err AllocShort
           else
             let b = b\<lparr>bm_bits := map (\<lambda>i. from_le (slice (i * 8) (i * 8 + 8) body))
                                  [0 ..< length (bm_bits b)]\<rparr>
             in Ok (fold count_step [0 ..< unat tot] b))"

section \<open>The clusters in use\<close>

definition used_set :: "bitmap \<Rightarrow> nat set" where
  "used_set b = {i. i < unat (bm_total b) \<and> bm_get b (of_nat i)}"

definition bitmap_ok :: "bitmap \<Rightarrow> bool" where
  "bitmap_ok b \<longleftrightarrow> length (bm_bits b) = unat (div_ceil (bm_total b) 64) \<and>
     unat (bm_used b) = card (used_set b)"

text \<open>\<open>free_run b c s\<close>: the \<open>c\<close> clusters from \<open>s\<close> on exist and are all free.\<close>

definition free_run :: "bitmap \<Rightarrow> nat \<Rightarrow> nat \<Rightarrow> bool" where
  "free_run b c s \<longleftrightarrow> s + c \<le> unat (bm_total b) \<and> {s ..< s + c} \<inter> used_set b = {}"

section \<open>Bits\<close>

lemma unat_word_index: "i < 2 ^ 64 \<Longrightarrow> unat (drop_bit 6 (of_nat i :: u64)) = i div 64"
  by (simp add: unsigned_drop_bit_eq drop_bit_eq_div [where ?'a = nat] take_bit_nat_eq_self)

lemma unat_bit_index: "i < 2 ^ 64 \<Longrightarrow> unat ((of_nat i :: u64) AND 63) = i mod 64"
proof -
  assume i: "i < 2 ^ 64"
  have "(of_nat i :: u64) AND 63 = take_bit 6 (of_nat i)"
    by (simp add: take_bit_eq_mask mask_eq_exp_minus_1)
  then show ?thesis using i
    by (simp add: unsigned_take_bit_eq take_bit_eq_mod [where ?'a = nat])
qed

lemma and_single_bit: "(x :: u64) AND 2 ^ k \<noteq> 0 \<longleftrightarrow> bit x k"
  by (simp add: bit_iff_and_push_bit_not_eq_0)

lemma bm_get_nat:
  "i < 2 ^ 64 \<Longrightarrow> bm_get b (of_nat i) = bit (bm_bits b ! (i div 64)) (i mod 64)"
  by (simp add: bm_get_def unat_word_index unat_bit_index and_single_bit)

lemma bm_index_in_range:
  assumes "length (bm_bits b) = unat (div_ceil (bm_total b) 64)" "i < unat (bm_total b)"
  shows "i div 64 < length (bm_bits b)"
proof -
  have "unat (bm_total b) \<le> length (bm_bits b) * 64"
    using div_ceil_bounds(1) [of "64 :: u64" "bm_total b"] assms(1) by simp
  with assms(2) have "i < length (bm_bits b) * 64" by linarith
  then show ?thesis by (simp add: less_mult_imp_div_less)
qed

lemma total_lt: "i < unat (bm_total b) \<Longrightarrow> i < 2 ^ 64"
  using unsigned_less [of "bm_total b", where ?'a = nat] by (simp add: less_trans)

lemma div_mod_64_eq: "(i::nat) div 64 = j div 64 \<Longrightarrow> i mod 64 = j mod 64 \<Longrightarrow> i = j"
  by (metis div_mult_mod_eq)

lemma bm_set_fields [simp]:
  "bm_total (bm_set b i) = bm_total b" "bm_used (bm_set b i) = bm_used b"
  "bm_deferred (bm_set b i) = bm_deferred b" "length (bm_bits (bm_set b i)) = length (bm_bits b)"
  by (simp_all add: bm_set_def)

lemma bm_clr_fields [simp]:
  "bm_total (bm_clr b i) = bm_total b" "bm_used (bm_clr b i) = bm_used b"
  "bm_deferred (bm_clr b i) = bm_deferred b" "length (bm_bits (bm_clr b i)) = length (bm_bits b)"
  by (simp_all add: bm_clr_def)

lemma bm_get_used_upd [simp]: "bm_get (b\<lparr>bm_used := u\<rparr>) i = bm_get b i"
  "bm_get (b\<lparr>bm_deferred := d\<rparr>) i = bm_get b i"
  by (simp_all add: bm_get_def)

lemma used_set_upd [simp]: "used_set (b\<lparr>bm_used := u\<rparr>) = used_set b"
  "used_set (b\<lparr>bm_deferred := d\<rparr>) = used_set b"
  by (simp_all add: used_set_def)

lemma bm_get_set:
  assumes "length (bm_bits b) = unat (div_ceil (bm_total b) 64)"
    "i < unat (bm_total b)" "j < unat (bm_total b)"
  shows "bm_get (bm_set b (of_nat i)) (of_nat j) = (j = i \<or> bm_get b (of_nat j))"
proof -
  have "i div 64 < length (bm_bits b)" using assms bm_index_in_range by blast
  then show ?thesis using total_lt [OF assms(2)] total_lt [OF assms(3)]
    by (auto simp: bm_get_nat bm_set_def unat_word_index unat_bit_index bit_or_iff
        bit_exp_iff nth_list_update dest: div_mod_64_eq)
qed

lemma bm_get_clr:
  assumes "length (bm_bits b) = unat (div_ceil (bm_total b) 64)"
    "i < unat (bm_total b)" "j < unat (bm_total b)"
  shows "bm_get (bm_clr b (of_nat i)) (of_nat j) = (j \<noteq> i \<and> bm_get b (of_nat j))"
proof -
  have "i div 64 < length (bm_bits b)" using assms bm_index_in_range by blast
  then show ?thesis using total_lt [OF assms(2)] total_lt [OF assms(3)]
    by (auto simp: bm_get_nat bm_clr_def unat_word_index unat_bit_index bit_and_iff
        bit_not_iff bit_exp_iff nth_list_update dest: div_mod_64_eq)
qed

lemma used_set_set:
  assumes "length (bm_bits b) = unat (div_ceil (bm_total b) 64)" "i < unat (bm_total b)"
  shows "used_set (bm_set b (of_nat i)) = insert i (used_set b)"
  using assms by (auto simp: used_set_def bm_get_set)

lemma used_set_clr:
  assumes "length (bm_bits b) = unat (div_ceil (bm_total b) 64)" "i < unat (bm_total b)"
  shows "used_set (bm_clr b (of_nat i)) = used_set b - {i}"
  using assms by (auto simp: used_set_def bm_get_clr)

lemma used_set_bound: "used_set b \<subseteq> {0 ..< unat (bm_total b)}"
  by (auto simp: used_set_def)

lemma finite_used_set [simp]: "finite (used_set b)"
  using used_set_bound finite_subset by blast

lemma card_used_set_le: "card (used_set b) \<le> unat (bm_total b)"
  using card_mono [OF _ used_set_bound [of b]] by simp

lemma bm_get_used_set: "i < unat (bm_total b) \<Longrightarrow> bm_get b (of_nat i) \<longleftrightarrow> i \<in> used_set b"
  by (simp add: used_set_def)

section \<open>What the operations do to the set\<close>

definition run_set :: "u64 \<Rightarrow> u64 \<Rightarrow> nat set" where
  "run_set start len = {unat start ..< unat (start + len)}"

text \<open>The fields that reserving, allocating and freeing clusters leave alone.\<close>

definition same_frame :: "bitmap \<Rightarrow> bitmap \<Rightarrow> bool" where
  "same_frame b b' \<longleftrightarrow> bm_total b' = bm_total b \<and> bm_deferred b' = bm_deferred b"

lemma same_frame_refl [simp]: "same_frame b b"
  by (simp add: same_frame_def)

lemma same_frame_trans: "same_frame a b \<Longrightarrow> same_frame b c \<Longrightarrow> same_frame a c"
  by (simp add: same_frame_def)

lemma unat_used_lt:
  "bitmap_ok b \<Longrightarrow> i < unat (bm_total b) \<Longrightarrow> i \<notin> used_set b \<Longrightarrow> unat (bm_used b) < unat (bm_total b)"
proof -
  assume ok: "bitmap_ok b" and i: "i < unat (bm_total b)" "i \<notin> used_set b"
  have "insert i (used_set b) \<subseteq> {0 ..< unat (bm_total b)}" using i used_set_bound by auto
  then have "card (insert i (used_set b)) \<le> unat (bm_total b)"
    using card_mono [of "{0 ..< unat (bm_total b)}"] by simp
  with i ok show ?thesis by (simp add: bitmap_ok_def)
qed

lemma unat_Suc_word:
  assumes "unat (u :: u64) < unat (t :: u64)"
  shows "unat (u + 1) = unat u + 1"
proof -
  have "unat u + 1 \<le> unat t" using assms by simp
  also have "unat t < 2 ^ LENGTH(64)" by (rule unsigned_less)
  finally show ?thesis using unat_add_small [of u 1] by simp
qed

lemma reserve_step_spec:
  assumes "bitmap_ok b" "i < unat (bm_total b)"
  shows "bitmap_ok (reserve_step i b)" "used_set (reserve_step i b) = insert i (used_set b)"
    "same_frame b (reserve_step i b)"
proof -
  have len: "length (bm_bits b) = unat (div_ceil (bm_total b) 64)"
    using assms(1) by (simp add: bitmap_ok_def)
  note us = used_set_set [OF len assms(2)]
  have "i \<notin> used_set b \<Longrightarrow> unat (bm_used b + 1) = Suc (card (used_set b))"
    using assms unat_used_lt [OF assms] unat_Suc_word by (metis Suc_eq_plus1 bitmap_ok_def)
  then show "bitmap_ok (reserve_step i b)"
    using assms(1) us by (auto simp: reserve_step_def bitmap_ok_def bm_get_used_set [OF assms(2)])
  show "used_set (reserve_step i b) = insert i (used_set b)"
    using us by (auto simp: reserve_step_def bm_get_used_set [OF assms(2)])
  show "same_frame b (reserve_step i b)"
    by (simp add: reserve_step_def same_frame_def)
qed

lemma free_step_spec:
  assumes "bitmap_ok b" "i < unat (bm_total b)"
  shows "bitmap_ok (free_step i b)" "used_set (free_step i b) = used_set b - {i}"
    "same_frame b (free_step i b)"
proof -
  have len: "length (bm_bits b) = unat (div_ceil (bm_total b) 64)"
    using assms(1) by (simp add: bitmap_ok_def)
  note us = used_set_clr [OF len assms(2)]
  have "i \<in> used_set b \<Longrightarrow> unat (bm_used b - 1) = card (used_set b) - 1"
  proof -
    assume "i \<in> used_set b"
    then have "1 \<le> card (used_set b)" by (metis One_nat_def Suc_leI card_gt_0_iff empty_iff finite_used_set)
    then show ?thesis using assms(1) unat_sub_small [of 1 "bm_used b"] by (simp add: bitmap_ok_def)
  qed
  then show "bitmap_ok (free_step i b)"
    using assms(1) us by (auto simp: free_step_def bitmap_ok_def bm_get_used_set [OF assms(2)])
  show "used_set (free_step i b) = used_set b - {i}"
    using us by (auto simp: free_step_def bm_get_used_set [OF assms(2)])
  show "same_frame b (free_step i b)"
    by (simp add: free_step_def same_frame_def)
qed

lemma fold_reserve_step:
  "bitmap_ok b \<Longrightarrow> set is \<subseteq> {0 ..< unat (bm_total b)} \<Longrightarrow>
   bitmap_ok (fold reserve_step is b) \<and> used_set (fold reserve_step is b) = used_set b \<union> set is \<and>
   same_frame b (fold reserve_step is b)"
proof (induction "is" arbitrary: b)
  case Nil
  then show ?case by simp
next
  case (Cons i "is")
  note st = reserve_step_spec [OF Cons.prems(1), of i]
  have t: "bm_total (reserve_step i b) = bm_total b"
    using st(3) Cons.prems by (simp add: same_frame_def)
  then show ?case using Cons.prems st Cons.IH [of "reserve_step i b"]
    by (auto simp: t intro: same_frame_trans)
qed

lemma fold_free_step:
  "bitmap_ok b \<Longrightarrow> set is \<subseteq> {0 ..< unat (bm_total b)} \<Longrightarrow>
   bitmap_ok (fold free_step is b) \<and> used_set (fold free_step is b) = used_set b - set is \<and>
   same_frame b (fold free_step is b)"
proof (induction "is" arbitrary: b)
  case Nil
  then show ?case by simp
next
  case (Cons i "is")
  note st = free_step_spec [OF Cons.prems(1), of i]
  have t: "bm_total (free_step i b) = bm_total b"
    using st(3) Cons.prems by (simp add: same_frame_def)
  then show ?case using Cons.prems st Cons.IH [of "free_step i b"]
    by (auto simp: t intro: same_frame_trans)
qed

lemma bitmap_reserve_spec:
  assumes "bitmap_ok b"
  shows "bitmap_ok (bitmap_reserve s c b)"
    "used_set (bitmap_reserve s c b) = used_set b \<union> (run_set s c \<inter> {0 ..< unat (bm_total b)})"
    "same_frame b (bitmap_reserve s c b)"
  using fold_reserve_step [OF assms, of "[unat s ..< min (unat (s + c)) (unat (bm_total b))]"]
  by (auto simp: bitmap_reserve_def run_set_def)

lemma bitmap_free_spec:
  assumes "bitmap_ok b"
  shows "bitmap_ok (bitmap_free s c b)" "used_set (bitmap_free s c b) = used_set b - run_set s c"
    "same_frame b (bitmap_free s c b)"
  using fold_free_step [OF assms, of "[unat s ..< min (unat (s + c)) (unat (bm_total b))]"]
    used_set_bound [of b]
  by (auto simp: bitmap_free_def run_set_def)

lemma apply_deferred_fold:
  "bitmap_ok b \<Longrightarrow>
   bitmap_ok (fold (\<lambda>r. bitmap_free (fr_start r) (fr_count r)) rs b) \<and>
   used_set (fold (\<lambda>r. bitmap_free (fr_start r) (fr_count r)) rs b) =
     used_set b - (\<Union>r\<in>set rs. run_set (fr_start r) (fr_count r)) \<and>
   same_frame b (fold (\<lambda>r. bitmap_free (fr_start r) (fr_count r)) rs b)"
proof (induction rs arbitrary: b)
  case Nil
  then show ?case by simp
next
  case (Cons r rs)
  note st = bitmap_free_spec [OF Cons.prems, of "fr_start r" "fr_count r"]
  from Cons.IH [OF st(1)] st show ?case by (auto intro: same_frame_trans)
qed

definition deferred_set :: "bitmap \<Rightarrow> nat set" where
  "deferred_set b = (\<Union>r\<in>set (bm_deferred b). run_set (fr_start r) (fr_count r))"

lemma bitmap_ok_deferred [simp]: "bitmap_ok (b\<lparr>bm_deferred := d\<rparr>) = bitmap_ok b"
  by (simp add: bitmap_ok_def)

lemma apply_deferred_spec:
  assumes "bitmap_ok b"
  shows "bitmap_ok (apply_deferred b)" "used_set (apply_deferred b) = used_set b - deferred_set b"
    "bm_deferred (apply_deferred b) = []" "bm_total (apply_deferred b) = bm_total b"
  using apply_deferred_fold [of "b\<lparr>bm_deferred := []\<rparr>" "bm_deferred b"] assms
  by (auto simp: apply_deferred_def deferred_set_def same_frame_def)

lemma bitmap_new_ok [simp]: "bitmap_ok (bitmap_new t)" "used_set (bitmap_new t) = {}"
    "bm_total (bitmap_new t) = t" "bm_deferred (bitmap_new t) = []" "bm_used (bitmap_new t) = 0"
proof -
  show us: "used_set (bitmap_new t) = {}"
  proof (rule equals0I)
    fix i assume "i \<in> used_set (bitmap_new t)"
    then have i: "i < unat t" and g: "bm_get (bitmap_new t) (of_nat i)"
      by (auto simp: used_set_def bitmap_new_def)
    have "i div 64 < unat (div_ceil t 64)"
      using bm_index_in_range [of "bitmap_new t" i] i by (simp add: bitmap_new_def)
    with g i show False
      using total_lt [of i "bitmap_new t"] by (simp add: bm_get_nat bitmap_new_def)
  qed
  show "bitmap_ok (bitmap_new t)"
    using us by (simp add: bitmap_ok_def bitmap_new_def)
qed (simp_all add: bitmap_new_def)

section \<open>First fit\<close>

text \<open>The loop invariant of \<open>alloc\<close> before cluster \<open>i\<close>: the last \<open>run\<close> clusters are free
  and start at \<open>start\<close>, the run cannot be extended to the left, it is shorter than what is
  asked for, and no free run of the wanted length ends before \<open>i\<close>.\<close>

definition scan_inv :: "nat set \<Rightarrow> nat \<Rightarrow> nat \<Rightarrow> u64 \<Rightarrow> u64 \<Rightarrow> bool" where
  "scan_inv U c i run start \<longleftrightarrow>
     unat run \<le> i \<and> unat run < c \<and> (run \<noteq> 0 \<longrightarrow> start = of_nat (i - unat run)) \<and>
     {i - unat run ..< i} \<inter> U = {} \<and> (i - unat run = 0 \<or> i - unat run - 1 \<in> U) \<and>
     (\<forall>s. s + c \<le> i \<longrightarrow> {s ..< s + c} \<inter> U \<noteq> {})"

lemma scan_inv_used:
  assumes "scan_inv U c i run start" "i \<in> U"
  shows "scan_inv U c (Suc i) 0 start"
proof -
  have "{s ..< s + c} \<inter> U \<noteq> {}" if "s + c \<le> Suc i" for s
  proof (cases "s + c \<le> i")
    case True
    then show ?thesis using assms(1) by (simp add: scan_inv_def)
  next
    case False
    then have "i \<in> {s ..< s + c}" using that assms(1) by (auto simp: scan_inv_def)
    then show ?thesis using assms(2) by blast
  qed
  then show ?thesis using assms by (auto simp: scan_inv_def)
qed

lemma scan_inv_earlier:
  assumes inv: "scan_inv U c i run start" and s: "s < i - unat run" "s + c \<le> Suc i"
  shows "{s ..< s + c} \<inter> U \<noteq> {}"
proof (cases "s + c \<le> i")
  case True
  then show ?thesis using inv by (simp add: scan_inv_def)
next
  case False
  then have "i - unat run - 1 \<in> {s ..< s + c}" using s inv by (auto simp: scan_inv_def)
  then show ?thesis using inv s(1) by (auto simp: scan_inv_def)
qed

lemma scan_inv_free:
  assumes inv: "scan_inv U c i run start" and i: "i \<notin> U" and lt: "unat run + 1 < c"
    and st: "start' = (if run = 0 then of_nat i else start)" and c: "c < 2 ^ 64"
  shows "scan_inv U c (Suc i) (run + 1) start'"
proof -
  have r1: "unat (run + 1) = unat run + 1"
    using lt c unat_add_small [of run 1] by simp
  have "{s ..< s + c} \<inter> U \<noteq> {}" if "s + c \<le> Suc i" for s
  proof (cases "s < i - unat run")
    case True
    then show ?thesis using scan_inv_earlier [OF inv] that by blast
  next
    case False
    then show ?thesis using that lt by linarith
  qed
  moreover have "{i - unat run ..< Suc i} \<inter> U = {}"
    using inv i by (auto simp: scan_inv_def less_Suc_eq)
  ultimately show ?thesis using inv lt st r1 by (auto simp: scan_inv_def unat_0_iff)
qed

lemma alloc_scan_inv:
  assumes "scan_inv (used_set b) (unat len) i run start" "i \<le> unat (bm_total b)"
  shows "case alloc_scan b len [i ..< unat (bm_total b)] run start of
      None \<Rightarrow> \<forall>s. \<not> free_run b (unat len) s
    | Some s \<Rightarrow> free_run b (unat len) (unat s) \<and> (\<forall>s' < unat s. \<not> free_run b (unat len) s')"
  using assms
proof (induction "unat (bm_total b) - i" arbitrary: i run start)
  case 0
  then have "i = unat (bm_total b)" by simp
  with 0 show ?case by (auto simp: free_run_def scan_inv_def)
next
  case (Suc n)
  let ?t = "unat (bm_total b)" and ?U = "used_set b" and ?c = "unat len"
  have i: "i < ?t" using Suc.hyps(2) by simp
  have up: "[i ..< ?t] = i # [Suc i ..< ?t]" using i by (simp add: upt_conv_Cons)
  have n: "n = ?t - Suc i" and le: "Suc i \<le> ?t" using Suc.hyps(2) i by auto
  have c64: "?c < 2 ^ 64" using unsigned_less [of len, where ?'a = nat] by simp
  define start' where "start' = (if run = 0 then of_nat i else start)"
  show ?case
  proof (cases "i \<in> ?U")
    case True
    then show ?thesis
      using Suc.hyps(1) [OF n scan_inv_used [OF Suc.prems(1) True] le] up i
      by (simp add: bm_get_used_set)
  next
    case False
    have r1: "unat (run + 1) = unat run + 1"
      using Suc.prems(1) c64 unat_add_small [of run 1] by (simp add: scan_inv_def)
    show ?thesis
    proof (cases "run + 1 = len")
      case True
      then have c: "?c = unat run + 1" using r1 by simp
      have rt: "i - unat run < 2 ^ 64" using total_lt [OF i] by simp
      have st: "unat start' = i - unat run"
        using Suc.prems(1) rt total_lt [OF i]
        by (auto simp: start'_def scan_inv_def simp del: of_nat_diff)
      have "free_run b ?c (unat start')"
        using Suc.prems(1) False i c by (auto simp: free_run_def st scan_inv_def less_Suc_eq)
      moreover have "\<not> free_run b ?c s'" if "s' < unat start'" for s'
        using that scan_inv_earlier [OF Suc.prems(1), of s'] st c by (auto simp: free_run_def)
      ultimately show ?thesis
        using True False up i by (simp add: bm_get_used_set start'_def [symmetric])
    next
      case ne: False
      then have lt: "unat run + 1 < ?c"
        using Suc.prems(1) r1 by (metis Suc_eq_plus1 Suc_leI le_neq_implies_less scan_inv_def word_unat_eq_iff)
      show ?thesis
        using Suc.hyps(1) [OF n scan_inv_free [OF Suc.prems(1) False lt start'_def c64] le] up i False ne
        by (simp add: bm_get_used_set start'_def [symmetric])
    qed
  qed
qed

lemma fold_bm_set:
  "length (bm_bits b) = unat (div_ceil (bm_total b) 64) \<Longrightarrow> set js \<subseteq> {0 ..< unat (bm_total b)} \<Longrightarrow>
   used_set (fold (\<lambda>j b. bm_set b (of_nat j)) js b) = used_set b \<union> set js \<and>
   same_frame b (fold (\<lambda>j b. bm_set b (of_nat j)) js b) \<and>
   length (bm_bits (fold (\<lambda>j b. bm_set b (of_nat j)) js b)) = length (bm_bits b)"
proof (induction js arbitrary: b)
  case Nil
  then show ?case by simp
next
  case (Cons j js)
  then show ?case
    using Cons.IH [of "bm_set b (of_nat j)"] used_set_set [OF Cons.prems(1), of j]
    by (auto simp: same_frame_def)
qed

lemma free_run_sum:
  assumes "free_run b (unat len) (unat s)"
  shows "unat (s + len) = unat s + unat len" "run_set s len = {unat s ..< unat s + unat len}"
    "run_set s len \<subseteq> {0 ..< unat (bm_total b)}" "card (run_set s len) = unat len"
proof -
  have "unat s + unat len \<le> unat (bm_total b)" using assms by (simp add: free_run_def)
  also have "\<dots> < 2 ^ LENGTH(64)" by (rule unsigned_less)
  finally show eq: "unat (s + len) = unat s + unat len" by (rule unat_add_small)
  show "run_set s len = {unat s ..< unat s + unat len}" by (simp add: run_set_def eq)
  then show "run_set s len \<subseteq> {0 ..< unat (bm_total b)}" "card (run_set s len) = unat len"
    using assms by (auto simp: free_run_def)
qed

lemma bitmap_alloc_Ok:
  assumes ok: "bitmap_ok b" and a: "bitmap_alloc len b = (Ok s, b')"
  shows "free_run b (unat len) (unat s)" "\<forall>s' < unat s. \<not> free_run b (unat len) s'"
    "used_set b' = used_set b \<union> run_set s len" "run_set s len \<inter> used_set b = {}"
    "same_frame b b'" "bitmap_ok b'" "len \<noteq> 0"
proof -
  have ne: "len \<noteq> 0" and sc: "alloc_scan b len [0 ..< unat (bm_total b)] 0 0 = Some s"
    and b': "b' = (fold (\<lambda>j b. bm_set b (of_nat j)) [unat s ..< unat (s + len)] b)\<lparr>bm_used := bm_used b + len\<rparr>"
    using a by (auto simp: bitmap_alloc_def split: if_splits option.splits)
  have "scan_inv (used_set b) (unat len) 0 0 0"
    using ne by (auto simp: scan_inv_def unat_gt_0)
  from alloc_scan_inv [OF this] sc
  show run: "free_run b (unat len) (unat s)" and "\<forall>s' < unat s. \<not> free_run b (unat len) s'" by auto
  note fs = free_run_sum [OF run]
  have len: "length (bm_bits b) = unat (div_ceil (bm_total b) 64)" using ok by (simp add: bitmap_ok_def)
  have fm: "used_set b' = used_set b \<union> run_set s len \<and> same_frame b b' \<and> length (bm_bits b') = length (bm_bits b)"
    using fold_bm_set [OF len, of "[unat s ..< unat (s + len)]"] fs(3)
    by (simp add: b' run_set_def same_frame_def)
  then show us: "used_set b' = used_set b \<union> run_set s len" and fr: "same_frame b b'" by auto
  show dj: "run_set s len \<inter> used_set b = {}" using run fs(2) by (simp add: free_run_def)
  have "card (used_set b') = card (used_set b) + unat len"
    using us dj fs(4) card_Un_disjoint [of "used_set b" "run_set s len"] by (simp add: run_set_def Int_commute)
  moreover have "unat (bm_used b + len) = unat (bm_used b) + unat len"
  proof -
    have "card (used_set b) + unat len \<le> unat (bm_total b')"
      using card_used_set_le [of b'] \<open>card (used_set b') = _\<close> by simp
    then have "unat (bm_used b) + unat len < 2 ^ LENGTH(64)"
      using ok unsigned_less [of "bm_total b'", where ?'a = nat] unfolding bitmap_ok_def by linarith
    then show ?thesis by (rule unat_add_small)
  qed
  ultimately show "bitmap_ok b'"
    using ok fm by (simp add: bitmap_ok_def same_frame_def b')
  show "len \<noteq> 0" by (rule ne)
qed

lemma bitmap_alloc_Err:
  assumes a: "bitmap_alloc len b = (Err e, b')"
  shows "b' = b" "e = ZeroCount \<and> len = 0 \<or> e = AllocNoSpace \<and> len \<noteq> 0 \<and> (\<forall>s. \<not> free_run b (unat len) s)"
proof -
  show "b' = b" using a by (auto simp: bitmap_alloc_def split: if_splits option.splits)
  have "len \<noteq> 0 \<Longrightarrow> scan_inv (used_set b) (unat len) 0 0 0"
    by (auto simp: scan_inv_def unat_gt_0)
  from alloc_scan_inv [OF this] a
  show "e = ZeroCount \<and> len = 0 \<or> e = AllocNoSpace \<and> len \<noteq> 0 \<and> (\<forall>s. \<not> free_run b (unat len) s)"
    by (auto simp: bitmap_alloc_def split: if_splits option.splits)
qed

lemma bitmap_alloc_no_panic: "fst (bitmap_alloc len b) \<noteq> Panic"
  by (auto simp: bitmap_alloc_def split: option.splits)

section \<open>Serialisation\<close>

lemma contig_enumerate:
  "contig (8 + n * 8) (map (\<lambda>(i, w). (8 + i * 8, le_bytes 8 w)) (List.enumerate n ws))"
proof (induction ws arbitrary: n)
  case Nil
  then show ?case by simp
next
  case (Cons w ws)
  have "8 + n * 8 + 8 = 8 + Suc n * 8" by simp
  with Cons.IH [of "Suc n"] show ?case by simp
qed

lemma snd_enumerate_fields:
  "map snd (map (\<lambda>(i, w). (8 + i * 8, le_bytes 8 w)) (List.enumerate n ws)) = map (le_bytes 8) ws"
  by (induction ws arbitrary: n) auto

lemma bitmap_marshal_into_eq:
  assumes "bitmap_marshal_len b \<le> length dst"
  shows "fst (bitmap_marshal_into b dst) =
    (le_bytes 8 (bm_total b) @ concat (map (le_bytes 8) (bm_bits b))) @ drop (bitmap_marshal_len b) dst"
proof -
  let ?ws = "map (\<lambda>(i, w). (8 + i * 8, le_bytes 8 w)) (List.enumerate 0 (bm_bits b))"
  let ?fs = "(0, le_bytes 8 (bm_total b)) # ?ws"
  have c: "contig 0 ?fs" using contig_enumerate [of 0 "bm_bits b"] by simp
  have m: "concat (map snd ?fs) = le_bytes 8 (bm_total b) @ concat (map (le_bytes 8) (bm_bits b))"
    using snd_enumerate_fields [of 0 "bm_bits b"] by (simp del: map_map)
  have l: "length (concat (map (le_bytes 8) (bm_bits b))) = length (bm_bits b) * 8"
    by (rule length_concat_chunks) simp
  have "copy_all ?fs dst = copy_at 0 (concat (map snd ?fs)) dst"
    using assms by (intro copy_all_contig [OF c]) (simp only: m, simp add: l bitmap_marshal_len_def)
  also have "\<dots> = concat (map snd ?fs) @ drop (bitmap_marshal_len b) dst"
    using assms by (subst copy_at_prefix) (simp_all only: m, simp_all add: l bitmap_marshal_len_def)
  finally show ?thesis by (simp only: bitmap_marshal_into_def fst_conv m)
qed

lemma bitmap_marshal_eq:
  "bitmap_marshal b = le_bytes 8 (bm_total b) @ concat (map (le_bytes 8) (bm_bits b))"
  by (simp add: bitmap_marshal_def bitmap_marshal_into_eq)

lemma length_bitmap_marshal [simp]: "length (bitmap_marshal b) = bitmap_marshal_len b"
  using length_concat_chunks [of "bm_bits b" "le_bytes 8" 8]
  by (simp add: bitmap_marshal_eq bitmap_marshal_len_def)

lemma count_step_fields [simp]:
  "bm_bits (fold count_step is b) = bm_bits b" "bm_total (fold count_step is b) = bm_total b"
  "bm_deferred (fold count_step is b) = bm_deferred b" "bm_get (fold count_step is b) = bm_get b"
  by (induction "is" arbitrary: b) (auto simp: count_step_def fun_eq_iff)

lemma fold_count_step:
  "bm_used (fold count_step is b) = bm_used b + of_nat (length (filter (\<lambda>i. bm_get b (of_nat i)) is))"
proof (induction "is" arbitrary: b)
  case Nil
  then show ?case by simp
next
  case (Cons i "is")
  have "bm_get (count_step i b) = bm_get b" by (auto simp: count_step_def)
  then show ?case using Cons.IH [of "count_step i b"] by (simp add: count_step_def)
qed

lemma length_filter_used:
  "length (filter (\<lambda>i. bm_get b (of_nat i)) [0 ..< unat (bm_total b)]) = card (used_set b)"
  by (subst distinct_card [symmetric]) (auto simp: used_set_def intro: arg_cong [of _ _ card])

lemma bitmap_unmarshal_marshal:
  assumes "bitmap_ok b"
  shows "bitmap_unmarshal (bitmap_marshal b @ rest) = Ok (b\<lparr>bm_deferred := []\<rparr>)"
proof -
  let ?d = "bitmap_marshal b @ rest"
  have len: "length (bm_bits b) = unat (div_ceil (bm_total b) 64)"
    using assms by (simp add: bitmap_ok_def)
  have tot: "from_le (slice 0 8 ?d) = bm_total b"
    by (simp add: bitmap_marshal_eq)
  have body: "drop 8 ?d = concat (map (le_bytes 8) (bm_bits b)) @ rest"
    by (simp add: bitmap_marshal_eq)
  have lb: "length (bm_bits (bitmap_new (bm_total b))) = length (bm_bits b)"
    using len by (simp add: bitmap_new_def)
  have ws: "map (\<lambda>i. from_le (slice (i * 8) (i * 8 + 8) (drop 8 ?d))) [0 ..< length (bm_bits b)] = bm_bits b"
    unfolding body by (rule nth_equalityI) (simp_all add: slice_concat_chunk)
  let ?b = "(bitmap_new (bm_total b))\<lparr>bm_bits := bm_bits b\<rparr>"
  have g: "bm_get ?b = bm_get b" by (simp add: bm_get_def fun_eq_iff)
  have "fold count_step [0 ..< unat (bm_total b)] ?b = b\<lparr>bm_deferred := []\<rparr>"
  proof (rule bitmap.equality)
    show "bm_used (fold count_step [0 ..< unat (bm_total b)] ?b) = bm_used (b\<lparr>bm_deferred := []\<rparr>)"
    proof -
      have "of_nat (unat (bm_used b)) = bm_used b" by simp
      then have "bm_used b = of_nat (card (used_set b))"
        using assms by (simp add: bitmap_ok_def del: of_nat_unat)
      then show ?thesis
        using length_filter_used [of b] by (simp add: fold_count_step g)
    qed
  qed (simp_all add: bitmap_new_def)
  moreover have "8 \<le> length ?d" "length (bm_bits b) * 8 \<le> length (drop 8 ?d)"
    by (auto simp: bitmap_marshal_len_def)
  ultimately show ?thesis
    unfolding bitmap_unmarshal_def Let_def tot lb ws by (simp add: linorder_not_less)
qed

lemma bitmap_unmarshal_truncated:
  assumes "length (bm_bits b) = unat (div_ceil (bm_total b) 64)" "n < bitmap_marshal_len b"
  shows "bitmap_unmarshal (take n (bitmap_marshal b)) = Err AllocShort"
proof (cases "n < 8")
  case True
  then show ?thesis by (simp add: bitmap_unmarshal_def min_less_iff_disj)
next
  case False
  then have "slice 0 8 (take n (bitmap_marshal b)) = le_bytes 8 (bm_total b)"
    by (simp add: bitmap_marshal_eq slice_def min_def)
  with False assms show ?thesis
    by (simp add: bitmap_unmarshal_def Let_def bitmap_new_def bitmap_marshal_len_def)
qed

lemma bitmap_unmarshal_ok:
  assumes "bitmap_unmarshal data = Ok b"
  shows "bitmap_ok b" "bm_deferred b = []"
proof -
  define c where "c = (bitmap_new (from_le (slice 0 8 data)))\<lparr>bm_bits :=
      map (\<lambda>i. from_le (slice (i * 8) (i * 8 + 8) (drop 8 data)))
        [0 ..< length (bm_bits (bitmap_new (from_le (slice 0 8 data))))]\<rparr>"
  have b: "b = fold count_step [0 ..< unat (bm_total c)] c"
    using assms by (auto simp: bitmap_unmarshal_def Let_def c_def split: if_splits)
  have us: "used_set b = used_set c" by (simp add: used_set_def b)
  have "bm_used b = of_nat (card (used_set c))"
    by (simp add: b fold_count_step length_filter_used) (simp add: c_def)
  moreover have "card (used_set c) < 2 ^ LENGTH(64)"
    using card_used_set_le [of c] unsigned_less [of "bm_total c", where ?'a = nat] by linarith
  ultimately have "unat (bm_used b) = card (used_set b)"
    using us by simp
  then show "bitmap_ok b" by (simp add: bitmap_ok_def) (simp add: b c_def bitmap_new_def)
  show "bm_deferred b = []" by (simp add: b c_def)
qed

section \<open>The allocator as a state machine\<close>

inductive bitmap_step :: "bitmap \<Rightarrow> bitmap \<Rightarrow> bool" where
  step_reserve: "bitmap_step b (bitmap_reserve s c b)"
| step_alloc: "bitmap_step b (snd (bitmap_alloc c b))"
| step_free: "bitmap_step b (bitmap_free s c b)"
| step_defer: "bitmap_step b (bitmap_defer s c b)"
| step_apply: "bitmap_step b (apply_deferred b)"

inductive bitmap_reach :: "bitmap \<Rightarrow> bool" where
  reach_new: "bitmap_reach (bitmap_new t)"
| reach_load: "bitmap_unmarshal data = Ok b \<Longrightarrow> bitmap_reach b"
| reach_step: "bitmap_reach b \<Longrightarrow> bitmap_step b b' \<Longrightarrow> bitmap_reach b'"

lemma bitmap_defer_spec [simp]:
  "bitmap_ok (bitmap_defer s c b) = bitmap_ok b" "used_set (bitmap_defer s c b) = used_set b"
  "bm_total (bitmap_defer s c b) = bm_total b"
  "deferred_set (bitmap_defer s c b) = deferred_set b \<union> run_set s c"
  by (auto simp: bitmap_defer_def deferred_set_def)

lemma bitmap_step_ok: "bitmap_step b b' \<Longrightarrow> bitmap_ok b \<Longrightarrow> bitmap_ok b'"
proof (induction rule: bitmap_step.induct)
  case (step_alloc b c)
  obtain r b' where a: "bitmap_alloc c b = (r, b')" by (cases "bitmap_alloc c b")
  then show ?case
    using bitmap_alloc_Ok(6) [OF step_alloc] bitmap_alloc_Err(1) [of c b] step_alloc
      bitmap_alloc_no_panic [of c b]
    by (cases r) auto
qed (auto simp: bitmap_reserve_spec bitmap_free_spec apply_deferred_spec)

lemma bitmap_reach_ok: "bitmap_reach b \<Longrightarrow> bitmap_ok b"
  by (induction rule: bitmap_reach.induct) (auto intro: bitmap_step_ok bitmap_unmarshal_ok)

text \<open>A transaction between two commits: clusters are handed out and releases are deferred.
  \<open>txn b H b'\<close> records in \<open>H\<close> every cluster handed out on the way from \<open>b\<close> to \<open>b'\<close>.\<close>

inductive txn :: "bitmap \<Rightarrow> nat set \<Rightarrow> bitmap \<Rightarrow> bool" where
  txn_start: "txn b {} b"
| txn_alloc: "txn b H b' \<Longrightarrow> bitmap_alloc c b' = (Ok s, b'') \<Longrightarrow> txn b (H \<union> run_set s c) b''"
| txn_full: "txn b H b' \<Longrightarrow> bitmap_alloc c b' = (Err e, b'') \<Longrightarrow> txn b H b''"
| txn_defer: "txn b H b' \<Longrightarrow> txn b H (bitmap_defer s c b')"

lemma txn_spec:
  "txn b H b' \<Longrightarrow> bitmap_ok b \<Longrightarrow>
   bitmap_ok b' \<and> used_set b' = used_set b \<union> H \<and> H \<inter> used_set b = {} \<and> bm_total b' = bm_total b"
proof (induction rule: txn.induct)
  case (txn_alloc b H b' c s b'')
  then have "bitmap_ok b'" by simp
  from bitmap_alloc_Ok [OF this txn_alloc.hyps(2)] txn_alloc show ?case
    by (auto simp: same_frame_def)
next
  case (txn_full b H b' c e b'')
  then show ?case using bitmap_alloc_Err(1) [OF txn_full.hyps(2)] by simp
qed auto

section \<open>Properties\<close>

text \<open>C20.  \<open>Bitmap::alloc\<close> is first fit: on a consistent bitmap and a positive count it returns the
  lowest start of a free run of that length, marks exactly that run used and keeps the bitmap
  consistent; it fails with \<open>NoSpace\<close>, changing nothing, exactly when no such run exists.\<close>

theorem alloc_first_fit:
  assumes "bitmap_ok b" "len \<noteq> 0"
  shows "case bitmap_alloc len b of
      (Ok s, b') \<Rightarrow> free_run b (unat len) (unat s) \<and> (\<forall>s' < unat s. \<not> free_run b (unat len) s') \<and>
        used_set b' = used_set b \<union> run_set s len \<and> bitmap_ok b' \<and> same_frame b b'
    | (Err e, b') \<Rightarrow> e = AllocNoSpace \<and> b' = b \<and> (\<forall>s. \<not> free_run b (unat len) s)
    | (Panic, b') \<Rightarrow> False"
proof -
  obtain r b' where a: "bitmap_alloc len b = (r, b')" by (cases "bitmap_alloc len b")
  show ?thesis
    using a bitmap_alloc_Ok [OF assms(1)] bitmap_alloc_Err [of len b] bitmap_alloc_no_panic [of len b]
      assms(2)
    by (cases r) auto
qed

theorem alloc_first_fit_witness:
  "bitmap_ok (bitmap_reserve 1 2 (bitmap_new 8)) \<and>
   fst (bitmap_alloc 3 (bitmap_reserve 1 2 (bitmap_new 8))) = Ok 3 \<and>
   free_run (bitmap_reserve 1 2 (bitmap_new 8)) 3 3 \<and>
   \<not> free_run (bitmap_reserve 1 2 (bitmap_new 8)) 3 0"
proof -
  let ?b = "bitmap_reserve 1 2 (bitmap_new 8)"
  have ok: "bitmap_ok ?b" by (simp add: bitmap_reserve_spec)
  have r: "fst (bitmap_alloc 3 ?b) = Ok 3" by code_simp
  then obtain b' where "bitmap_alloc 3 ?b = (Ok 3, b')" by (cases "bitmap_alloc 3 ?b") auto
  with alloc_first_fit [OF ok, of 3] ok r show ?thesis by simp
qed

text \<open>C21.  The cached counter of the allocator is exact in every reachable state: however a bitmap was
  created or loaded and whatever sequence of operations followed, \<open>used\<close> is the number of used
  clusters and \<open>available\<close> the number of free ones.\<close>

theorem used_count_exact:
  "bitmap_reach b \<Longrightarrow>
   unat (bm_used b) = card (used_set b) \<and>
   unat (bitmap_available b) = card ({0 ..< unat (bm_total b)} - used_set b)"
proof -
  assume "bitmap_reach b"
  then have u: "unat (bm_used b) = card (used_set b)"
    using bitmap_reach_ok by (simp add: bitmap_ok_def)
  then have "unat (bitmap_available b) = unat (bm_total b) - card (used_set b)"
    using card_used_set_le [of b] by (simp add: bitmap_available_def unat_sub_small)
  with u used_set_bound [of b] show ?thesis by (simp add: card_Diff_subset)
qed

theorem used_count_exact_witness:
  "bitmap_reach (bitmap_reserve 0 5 (bitmap_new 200)) \<and>
   unat (bm_used (bitmap_reserve 0 5 (bitmap_new 200))) = card (used_set (bitmap_reserve 0 5 (bitmap_new 200)))"
proof -
  have "bitmap_reach (bitmap_reserve 0 5 (bitmap_new 200))"
    by (rule reach_step [OF reach_new step_reserve])
  with used_count_exact show ?thesis by blast
qed

text \<open>C22.  Deferred frees stay pinned: in the course of a transaction, that is of any sequence of
  allocations and deferred releases, no cluster that was in use when the transaction started is
  handed out and none becomes free; the release after the commit frees exactly the deferred
  clusters.\<close>

theorem deferred_free_pinned:
  assumes "bitmap_ok b" "txn b H b'"
  shows "H \<inter> used_set b = {} \<and> used_set b' = used_set b \<union> H \<and>
    used_set (apply_deferred b') = used_set b' - deferred_set b' \<and> bitmap_pending (apply_deferred b') = 0"
  using txn_spec [OF assms(2,1)] apply_deferred_spec [of b'] by (simp add: bitmap_pending_def)

theorem deferred_free_pinned_witness:
  "\<exists>H b'. txn (bitmap_reserve 0 4 (bitmap_new 8)) H b' \<and> deferred_set b' = {2, 3} \<and> H = {4, 5} \<and>
     2 \<in> used_set b' \<and> 2 \<notin> used_set (apply_deferred b')"
proof -
  let ?b = "bitmap_reserve 0 4 (bitmap_new 8)"
  let ?d = "bitmap_defer 2 2 ?b"
  have ok: "bitmap_ok ?b" by (simp add: bitmap_reserve_spec)
  have "fst (bitmap_alloc 2 ?d) = Ok 4" by code_simp
  then obtain b' where a: "bitmap_alloc 2 ?d = (Ok 4, b')" by (cases "bitmap_alloc 2 ?d") auto
  have t: "txn ?b ({} \<union> run_set 4 2) b'"
    by (rule txn_alloc [OF txn_defer [OF txn_start] a])
  have h: "{} \<union> run_set 4 2 = {4, 5}" by (auto simp: run_set_def)
  have df: "bm_deferred b' = bm_deferred ?d"
    using bitmap_alloc_Ok(5) [OF _ a] ok by (simp add: same_frame_def)
  have d: "deferred_set b' = {2, 3}"
    using bitmap_reserve_spec(3) [of "bitmap_new 8" 0 4]
    by (auto simp: deferred_set_def df bitmap_defer_def run_set_def same_frame_def)
  have "2 \<in> used_set ?b" by (auto simp: bitmap_reserve_spec run_set_def)
  with deferred_free_pinned [OF ok t] t h d show ?thesis by auto
qed

text \<open>C23.  The serialised bitmap reads back: \<open>unmarshal (marshal b)\<close> is the bitmap itself without its
  pending deferred frees, and every truncation of the encoding is rejected.\<close>

theorem bitmap_round_trip:
  assumes "bitmap_ok b"
  shows "bitmap_unmarshal (bitmap_marshal b) = Ok (b\<lparr>bm_deferred := []\<rparr>) \<and>
    (\<forall>n < length (bitmap_marshal b). bitmap_unmarshal (take n (bitmap_marshal b)) = Err AllocShort)"
  using bitmap_unmarshal_marshal [OF assms, of "[]"] bitmap_unmarshal_truncated [of b] assms
  by (simp add: bitmap_ok_def)

theorem bitmap_round_trip_witness:
  "bitmap_unmarshal (bitmap_marshal (bitmap_defer 1 1 (bitmap_reserve 0 5 (bitmap_new 200)))) =
   Ok (bitmap_reserve 0 5 (bitmap_new 200))"
proof -
  let ?b = "bitmap_reserve 0 5 (bitmap_new 200)"
  have "bitmap_ok (bitmap_defer 1 1 ?b)" by (simp add: bitmap_reserve_spec)
  moreover have "bm_deferred ?b = []"
    using bitmap_reserve_spec(3) [of "bitmap_new 200" 0 5] by (simp add: same_frame_def)
  ultimately show ?thesis
    using bitmap_round_trip [of "bitmap_defer 1 1 ?b"] by (simp add: bitmap_defer_def)
qed

end
