(* ===== verification/Dedup.thy ===== *)
theory Dedup
  imports Prelude
begin

text \<open>
  The deduplication table of \<^verbatim>\<open>rust/bloomfs-dedup\<close>: content hash to stored copy and reference
  count.  The \<open>HashMap\<close> is an association list with distinct keys; \<open>marshal\<close> takes the
  iteration order as an argument.  The locale \<open>ref_table\<close> is what the data path relies on (how
  each operation changes the reference counts); it is interpreted on the table's operations.
\<close>

section \<open>The model\<close>

type_synonym key = bytes

record dedup_entry =
  de_start :: u64
  de_count :: u32
  de_payload :: u32
  de_logical :: u32
  de_raw :: bool
  de_refs :: u32

type_synonym dedup_table = "(key \<times> dedup_entry) list"

datatype dedup_error = DedupShort

definition REC_SIZE :: nat where
  "REC_SIZE = 32 + 8 + 4 + 4 + 4 + 1 + 4"

definition dedup_new :: dedup_table where
  "dedup_new = []"

definition dedup_lookup :: "dedup_table \<Rightarrow> key \<Rightarrow> dedup_entry option" where
  "dedup_lookup t k = map_of t k"

definition dedup_add :: "key \<Rightarrow> dedup_entry \<Rightarrow> dedup_table \<Rightarrow> dedup_table" where
  "dedup_add k e t = AList.update k (e\<lparr>de_refs := 1\<rparr>) t"

definition dedup_incr :: "key \<Rightarrow> dedup_table \<Rightarrow> bool \<times> dedup_table" where
  "dedup_incr k t = (case map_of t k of
      Some e \<Rightarrow> (True, AList.update k (e\<lparr>de_refs := de_refs e + 1\<rparr>) t)
    | None \<Rightarrow> (False, t))"

definition dedup_decr :: "key \<Rightarrow> dedup_table \<Rightarrow> dedup_entry option \<times> dedup_table" where
  "dedup_decr k t = (case map_of t k of
      None \<Rightarrow> (None, t)
    | Some e \<Rightarrow>
        let e' = e\<lparr>de_refs := de_refs e - 1\<rparr>
        in if de_refs e' = 0 then (Some e', AList.delete k t) else (None, AList.update k e' t))"

definition dedup_len :: "dedup_table \<Rightarrow> nat" where
  "dedup_len t = length t"

definition dedup_marshal_len :: "dedup_table \<Rightarrow> nat" where
  "dedup_marshal_len t = 8 + length t * REC_SIZE"

text \<open>One record of the serialised table: the writes into the buffer at offset \<open>off\<close>.\<close>

definition dedup_rec_fields :: "nat \<Rightarrow> key \<times> dedup_entry \<Rightarrow> (nat \<times> bytes) list" where
  "dedup_rec_fields off ke = (case ke of (k, e) \<Rightarrow>
     [(off, k), (off + 32, le_bytes 8 (de_start e)), (off + 40, le_bytes 4 (de_count e)),
      (off + 44, le_bytes 4 (de_payload e)), (off + 48, le_bytes 4 (de_logical e)),
      (off + 52, [if de_raw e then 1 else 0]), (off + 53, le_bytes 4 (de_refs e))])"

fun dedup_marshal_loop :: "(key \<times> dedup_entry) list \<Rightarrow> nat \<Rightarrow> bytes \<Rightarrow> bytes \<times> nat" where
  "dedup_marshal_loop [] off dst = (dst, off)"
| "dedup_marshal_loop (ke # kes) off dst =
     dedup_marshal_loop kes (off + 57) (copy_all (dedup_rec_fields off ke) dst)"

definition dedup_marshal_into ::
  "(dedup_table \<Rightarrow> dedup_table) \<Rightarrow> dedup_table \<Rightarrow> bytes \<Rightarrow> bytes \<times> nat" where
  "dedup_marshal_into iter t dst =
     dedup_marshal_loop (iter t) 8 (copy_at 0 (le_bytes 8 (of_nat (length t) :: u64)) dst)"

definition dedup_marshal :: "(dedup_table \<Rightarrow> dedup_table) \<Rightarrow> dedup_table \<Rightarrow> bytes" where
  "dedup_marshal iter t = fst (dedup_marshal_into iter t (replicate (dedup_marshal_len t) 0))"

definition dedup_read_rec :: "bytes \<Rightarrow> nat \<Rightarrow> key \<times> dedup_entry" where
  "dedup_read_rec data off =
     (slice off (off + 32) data,
      \<lparr>de_start = from_le (slice (off + 32) (off + 40) data),
       de_count = from_le (slice (off + 40) (off + 44) data),
       de_payload = from_le (slice (off + 44) (off + 48) data),
       de_logical = from_le (slice (off + 48) (off + 52) data),
       de_raw = (data ! (off + 52) = 1),
       de_refs = from_le (slice (off + 53) (off + 57) data)\<rparr>)"

fun dedup_unmarshal_loop ::
  "nat \<Rightarrow> nat \<Rightarrow> bytes \<Rightarrow> dedup_table \<Rightarrow> (dedup_error, dedup_table) res" where
  "dedup_unmarshal_loop 0 off data t = Ok t"
| "dedup_unmarshal_loop (Suc n) off data t =
     (if off + REC_SIZE > length data then Err DedupShort
      else case dedup_read_rec data off of
        (k, e) \<Rightarrow> dedup_unmarshal_loop n (off + 57) data (AList.update k e t))"

definition dedup_unmarshal :: "bytes \<Rightarrow> (dedup_error, dedup_table) res" where
  "dedup_unmarshal data =
     (if length data < 8 then Err DedupShort
      else dedup_unmarshal_loop (unat (from_le (slice 0 8 data) :: u64)) 8 data dedup_new)"

section \<open>Invariant\<close>

definition dedup_ok :: "dedup_table \<Rightarrow> bool" where
  "dedup_ok t \<longleftrightarrow> distinct (map fst t) \<and> (\<forall>(k, e) \<in> set t. length k = 32 \<and> de_refs e \<noteq> 0)"

lemma dedup_lookup_eq: "dedup_lookup t = map_of t"
  by (simp add: dedup_lookup_def fun_eq_iff)

lemma dedup_ok_new [simp]: "dedup_ok dedup_new"
  by (simp add: dedup_ok_def dedup_new_def)

lemma set_update_subset: "set (AList.update k v t) \<subseteq> insert (k, v) (set t)"
  by (induction t) (auto split: if_splits)

lemma set_delete_subset: "set (AList.delete k t) \<subseteq> set t"
  by (auto simp: AList.delete_eq)

lemma dedup_ok_update:
  assumes "dedup_ok t" "length k = 32" "de_refs e \<noteq> 0"
  shows "dedup_ok (AList.update k e t)"
  using assms set_update_subset [of k e t] by (auto simp: dedup_ok_def distinct_update)

lemma dedup_ok_delete: "dedup_ok t \<Longrightarrow> dedup_ok (AList.delete k t)"
  using set_delete_subset [of k t] by (auto simp: dedup_ok_def distinct_delete)

lemma dedup_ok_lookup: "dedup_ok t \<Longrightarrow> map_of t k = Some e \<Longrightarrow> length k = 32 \<and> de_refs e \<noteq> 0"
  by (auto simp: dedup_ok_def dest: map_of_SomeD)

section \<open>Reference counts\<close>

text \<open>The results of \<open>n\<close> releases of one key.\<close>

fun release_n :: "('k \<Rightarrow> 't \<Rightarrow> 'v option \<times> 't) \<Rightarrow> nat \<Rightarrow> 'k \<Rightarrow> 't \<Rightarrow> 'v option list \<times> 't" where
  "release_n decr 0 k t = ([], t)"
| "release_n decr (Suc n) k t =
     (case decr k t of (r, t') \<Rightarrow> case release_n decr n k t' of (rs, t'') \<Rightarrow> (r # rs, t''))"

text \<open>The contract of a reference-counted table: a lookup function, and how adding, sharing and
  releasing change it.  \<open>rc\<close> reads the count of an entry and \<open>set_rc\<close> stores one.\<close>

locale ref_table =
  fixes lookup :: "'t \<Rightarrow> 'k \<Rightarrow> 'v option"
    and add :: "'k \<Rightarrow> 'v \<Rightarrow> 't \<Rightarrow> 't"
    and incr :: "'k \<Rightarrow> 't \<Rightarrow> bool \<times> 't"
    and decr :: "'k \<Rightarrow> 't \<Rightarrow> 'v option \<times> 't"
    and rc :: "'v \<Rightarrow> nat"
    and set_rc :: "nat \<Rightarrow> 'v \<Rightarrow> 'v"
    and limit :: nat
    and key_ok :: "'k \<Rightarrow> bool"
    and ok :: "'t \<Rightarrow> bool"
  assumes rc_set_rc: "n < limit \<Longrightarrow> rc (set_rc n v) = n"
    and set_rc_set_rc: "set_rc n (set_rc m v) = set_rc n v"
    and set_rc_rc: "set_rc (rc v) v = v"
    and rc_limit: "rc v < limit"
    and rc_pos: "ok t \<Longrightarrow> lookup t k = Some v \<Longrightarrow> 0 < rc v"
    and add_ok: "ok t \<Longrightarrow> key_ok k \<Longrightarrow> ok (add k v t)"
    and add_lookup: "lookup (add k v t) = (lookup t)(k \<mapsto> set_rc 1 v)"
    and incr_ok: "ok t \<Longrightarrow> lookup t k = Some v \<Longrightarrow> rc v + 1 < limit \<Longrightarrow> ok (snd (incr k t))"
    and incr_hit: "lookup t k = Some v \<Longrightarrow> rc v + 1 < limit \<Longrightarrow>
      fst (incr k t) \<and> lookup (snd (incr k t)) = (lookup t)(k \<mapsto> set_rc (rc v + 1) v)"
    and incr_miss: "lookup t k = None \<Longrightarrow> incr k t = (False, t)"
    and decr_ok: "ok t \<Longrightarrow> ok (snd (decr k t))"
    and decr_last: "ok t \<Longrightarrow> lookup t k = Some v \<Longrightarrow> rc v = 1 \<Longrightarrow>
      fst (decr k t) = Some (set_rc 0 v) \<and> lookup (snd (decr k t)) = (lookup t)(k := None)"
    and decr_shared: "ok t \<Longrightarrow> lookup t k = Some v \<Longrightarrow> 1 < rc v \<Longrightarrow>
      fst (decr k t) = None \<and> lookup (snd (decr k t)) = (lookup t)(k \<mapsto> set_rc (rc v - 1) v)"
    and decr_miss: "lookup t k = None \<Longrightarrow> decr k t = (None, t)"
begin

text \<open>Only the last of as many releases as there are references gives the entry back.\<close>

lemma release_all:
  "ok t \<Longrightarrow> lookup t k = Some v \<Longrightarrow> rc v = Suc n \<Longrightarrow>
   fst (release_n decr (Suc n) k t) = replicate n None @ [Some (set_rc 0 v)] \<and>
   lookup (snd (release_n decr (Suc n) k t)) = (lookup t)(k := None) \<and> ok (snd (release_n decr (Suc n) k t))"
proof (induction n arbitrary: t v)
  case 0
  then show ?case
    using decr_last [of t k v] decr_ok [of t k] by (cases "decr k t") auto
next
  case (Suc n)
  obtain r t' where d: "decr k t = (r, t')" by (cases "decr k t")
  have sh: "r = None" "lookup t' = (lookup t)(k \<mapsto> set_rc (Suc n) v)"
    using decr_shared [of t k v] Suc.prems d by auto
  have ok': "ok t'" using decr_ok [of t k] Suc.prems d by simp
  have "Suc n < limit" using rc_limit [of v] Suc.prems by simp
  then have "rc (set_rc (Suc n) v) = Suc n" by (rule rc_set_rc)
  then have ih: "fst (release_n decr (Suc n) k t') = replicate n None @ [Some (set_rc 0 (set_rc (Suc n) v))] \<and>
      lookup (snd (release_n decr (Suc n) k t')) = (lookup t')(k := None) \<and> ok (snd (release_n decr (Suc n) k t'))"
    using ok' sh by (intro Suc.IH) auto
  have eq: "release_n decr (Suc (Suc n)) k t =
      (r # fst (release_n decr (Suc n) k t'), snd (release_n decr (Suc n) k t'))"
    unfolding release_n.simps(2) [of decr "Suc n"] d by (simp add: case_prod_beta del: release_n.simps)
  have "(lookup t')(k := None) = (lookup t)(k := None)" using sh(2) by auto
  with ih sh(1) show ?case unfolding eq by (simp add: set_rc_set_rc del: release_n.simps)
qed

end

lemma unat_u32_pred: "(r :: u32) \<noteq> 0 \<Longrightarrow> unat (r - 1) = unat r - 1"
  using unat_sub_small [of 1 r] by (simp add: Suc_leI unat_gt_0)

interpretation ddt: ref_table dedup_lookup dedup_add dedup_incr dedup_decr
  "\<lambda>e. unat (de_refs e)" "\<lambda>n e. e\<lparr>de_refs := of_nat n\<rparr>" "2 ^ 32" "\<lambda>k. length k = 32" dedup_ok
proof (unfold_locales, goal_cases)
  case (1 n v)
  then show ?case by simp
next
  case (4 v)
  show ?case using unsigned_less [of "de_refs v", where ?'a = nat] by simp
next
  case (5 t k v)
  then show ?case by (auto simp: dedup_lookup_def unat_gt_0 dest: dedup_ok_lookup)
next
  case (6 t k v)
  then show ?case by (simp add: dedup_add_def dedup_ok_update)
next
  case (8 t k v)
  then have "de_refs v + 1 \<noteq> 0"
    using unat_add_small [of "de_refs v" 1] by (auto simp flip: unat_eq_zero)
  with 8 show ?case
    by (auto simp: dedup_incr_def dedup_lookup_def intro!: dedup_ok_update dest: dedup_ok_lookup)
next
  case (11 t k)
  then show ?case
    by (auto simp: dedup_decr_def Let_def split: option.splits
        intro!: dedup_ok_delete dedup_ok_update dest: dedup_ok_lookup)
next
  case (12 t k v)
  then have "de_refs v = 1" by (simp add: word_unat_eq_iff)
  with 12 show ?case by (simp add: dedup_decr_def dedup_lookup_eq Let_def delete_conv')
next
  case (13 t k v)
  then have "de_refs v \<noteq> 1" by auto
  then have "de_refs v - 1 \<noteq> 0" by simp
  with 13 show ?case by (simp add: dedup_decr_def dedup_lookup_eq Let_def update_conv')
qed (auto simp: dedup_add_def dedup_incr_def dedup_decr_def dedup_lookup_eq update_conv' add.commute)

section \<open>Serialisation\<close>

definition rec_bytes :: "key \<times> dedup_entry \<Rightarrow> bytes" where
  "rec_bytes ke = concat (map snd (dedup_rec_fields 0 ke))"

lemma length_rec_bytes [simp]: "length (fst ke) = 32 \<Longrightarrow> length (rec_bytes ke) = 57"
  by (cases ke) (simp add: rec_bytes_def dedup_rec_fields_def)

lemma dedup_rec_fields_copy:
  assumes "length (fst ke) = 32" "off + 57 \<le> length dst"
  shows "copy_all (dedup_rec_fields off ke) dst = copy_at off (rec_bytes ke) dst"
proof -
  have c: "contig off (dedup_rec_fields off ke)"
    using assms(1) by (cases ke) (simp add: dedup_rec_fields_def)
  have "concat (map snd (dedup_rec_fields off ke)) = rec_bytes ke"
    by (cases ke) (simp add: rec_bytes_def dedup_rec_fields_def)
  then show ?thesis using copy_all_contig [OF c, of dst] assms by simp
qed

lemma dedup_marshal_loop_eq:
  "(\<And>ke. ke \<in> set kes \<Longrightarrow> length (fst ke) = 32) \<Longrightarrow> off + length kes * 57 \<le> length dst \<Longrightarrow>
   dedup_marshal_loop kes off dst = (copy_at off (concat (map rec_bytes kes)) dst, off + length kes * 57)"
proof (induction kes arbitrary: off dst)
  case Nil
  then show ?case by simp
next
  case (Cons ke kes)
  have l: "length (rec_bytes ke) = 57" using Cons.prems(1) by simp
  have lc: "length (concat (map rec_bytes kes)) = length kes * 57"
    by (rule length_concat_chunks) (simp add: Cons.prems(1))
  have "copy_all (dedup_rec_fields off ke) dst = copy_at off (rec_bytes ke) dst"
    using Cons.prems by (intro dedup_rec_fields_copy) auto
  moreover have "copy_at (off + length (rec_bytes ke)) (concat (map rec_bytes kes)) (copy_at off (rec_bytes ke) dst) =
      copy_at off (rec_bytes ke @ concat (map rec_bytes kes)) dst"
    using Cons.prems(2) l lc by (intro copy_at_copy_at) simp
  ultimately show ?case
    using Cons.IH [of "off + 57" "copy_at off (rec_bytes ke) dst"] Cons.prems l by simp
qed

lemma dedup_read_rec_bytes:
  assumes "length (fst ke) = 32" "length pre = off"
  shows "dedup_read_rec (pre @ rec_bytes ke @ post) off = ke"
proof -
  obtain k e where ke: "ke = (k, e)" by (cases ke)
  show ?thesis using assms unfolding ke
    by (cases e) (simp add: dedup_read_rec_def rec_bytes_def dedup_rec_fields_def nth_append)
qed

lemma dedup_unmarshal_loop_eq:
  "(\<And>ke. ke \<in> set kes \<Longrightarrow> length (fst ke) = 32) \<Longrightarrow> distinct (map fst (t @ kes)) \<Longrightarrow>
   dedup_unmarshal_loop (length kes) (length pre) (pre @ concat (map rec_bytes kes) @ post) t = Ok (t @ kes)"
proof (induction kes arbitrary: pre t)
  case Nil
  then show ?case by simp
next
  case (Cons ke kes)
  obtain k e where ke: "ke = (k, e)" by (cases ke)
  have l: "length (rec_bytes ke) = 57" using Cons.prems(1) by simp
  have "dedup_read_rec (pre @ rec_bytes ke @ (concat (map rec_bytes kes) @ post)) (length pre) = ke"
    using Cons.prems(1) by (intro dedup_read_rec_bytes) auto
  moreover have "AList.update k e t = t @ [ke]"
    using Cons.prems(2) ke by (auto intro!: update_fresh)
  moreover have "dedup_unmarshal_loop (length kes) (length (pre @ rec_bytes ke))
      ((pre @ rec_bytes ke) @ concat (map rec_bytes kes) @ post) (t @ [ke]) = Ok ((t @ [ke]) @ kes)"
    using Cons.prems by (intro Cons.IH) auto
  ultimately show ?case using l ke by (simp add: REC_SIZE_def)
qed

lemma dedup_unmarshal_loop_short:
  "(\<And>ke. ke \<in> set kes \<Longrightarrow> length (fst ke) = 32) \<Longrightarrow> n < length kes * 57 \<Longrightarrow>
   dedup_unmarshal_loop (length kes) (length pre) (pre @ take n (concat (map rec_bytes kes))) t = Err DedupShort"
proof (induction kes arbitrary: pre t n)
  case Nil
  then show ?case by simp
next
  case (Cons ke kes)
  have l: "length (rec_bytes ke) = 57" using Cons.prems(1) by simp
  have lc: "length (concat (map rec_bytes kes)) = length kes * 57"
    by (rule length_concat_chunks) (simp add: Cons.prems(1))
  show ?case
  proof (cases "n < 57")
    case True
    then show ?thesis using l lc by (simp add: REC_SIZE_def min_def)
  next
    case False
    define rest where "rest = take (n - 57) (concat (map rec_bytes kes))"
    have tk: "take n (concat (map rec_bytes (ke # kes))) = rec_bytes ke @ rest"
      using False l by (simp add: rest_def)
    obtain k e where rr: "dedup_read_rec (pre @ rec_bytes ke @ rest) (length pre) = (k, e)"
      by (cases "dedup_read_rec (pre @ rec_bytes ke @ rest) (length pre)")
    have "dedup_unmarshal_loop (length kes) (length (pre @ rec_bytes ke))
        ((pre @ rec_bytes ke) @ rest) (AList.update k e t) = Err DedupShort"
      unfolding rest_def using Cons.prems False by (intro Cons.IH) auto
    then show ?thesis unfolding tk using rr l by (simp add: REC_SIZE_def)
  qed
qed

lemma dedup_marshal_into_eq:
  assumes "dedup_ok t" "is_iter iter" "dedup_marshal_len t \<le> length dst"
  shows "fst (dedup_marshal_into iter t dst) =
    (le_bytes 8 (of_nat (length t) :: u64) @ concat (map rec_bytes (iter t))) @ drop (dedup_marshal_len t) dst"
proof -
  let ?h = "le_bytes 8 (of_nat (length t) :: u64)" and ?r = "concat (map rec_bytes (iter t))"
  have i: "distinct (map fst t)" "\<And>ke. ke \<in> set (iter t) \<Longrightarrow> length (fst ke) = 32"
    using assms(1) is_iter_D(2) [OF assms(2)] by (auto simp: dedup_ok_def)
  have lr: "length ?r = length t * 57"
    using length_concat_chunks [of "iter t" rec_bytes 57] i is_iter_D(3) [OF assms(2) i(1)] by simp
  have "dedup_marshal_into iter t dst =
      (copy_at 8 ?r (copy_at 0 ?h dst), 8 + length (iter t) * 57)"
    unfolding dedup_marshal_into_def
    using i(2) assms(3) is_iter_D(3) [OF assms(2) i(1)]
    by (intro dedup_marshal_loop_eq) (auto simp: dedup_marshal_len_def REC_SIZE_def)
  moreover have "copy_at (0 + length ?h) ?r (copy_at 0 ?h dst) = copy_at 0 (?h @ ?r) dst"
    using assms(3) lr by (intro copy_at_copy_at) (simp add: dedup_marshal_len_def REC_SIZE_def)
  ultimately show ?thesis
    using assms(3) lr by (simp add: copy_at_prefix dedup_marshal_len_def REC_SIZE_def)
qed

lemma dedup_marshal_eq:
  assumes "dedup_ok t" "is_iter iter"
  shows "dedup_marshal iter t = le_bytes 8 (of_nat (length t) :: u64) @ concat (map rec_bytes (iter t))"
  using dedup_marshal_into_eq [OF assms, of "replicate (dedup_marshal_len t) 0"]
  by (simp add: dedup_marshal_def)

lemma length_dedup_marshal:
  assumes "dedup_ok t" "is_iter iter"
  shows "length (dedup_marshal iter t) = dedup_marshal_len t"
proof -
  have i: "distinct (map fst t)" "\<And>ke. ke \<in> set (iter t) \<Longrightarrow> length (fst ke) = 32"
    using assms(1) is_iter_D(2) [OF assms(2)] by (auto simp: dedup_ok_def)
  then show ?thesis
    using length_concat_chunks [of "iter t" rec_bytes 57] is_iter_D(3) [OF assms(2) i(1)]
    by (simp add: dedup_marshal_eq [OF assms] dedup_marshal_len_def REC_SIZE_def)
qed

lemma dedup_unmarshal_marshal:
  assumes "dedup_ok t" "is_iter iter" "length t < 2 ^ 64"
  shows "dedup_unmarshal (dedup_marshal iter t @ rest) = Ok (iter t)"
proof -
  let ?h = "le_bytes 8 (of_nat (length t) :: u64)"
  have d: "distinct (map fst t)" "\<And>ke. ke \<in> set (iter t) \<Longrightarrow> length (fst ke) = 32"
    using assms(1) is_iter_D(2) [OF assms(2)] by (auto simp: dedup_ok_def)
  note il = is_iter_D [OF assms(2) d(1)]
  have "dedup_unmarshal_loop (length (iter t)) (length ?h) (?h @ concat (map rec_bytes (iter t)) @ rest) [] = Ok ([] @ iter t)"
    using d(2) il(1) by (intro dedup_unmarshal_loop_eq) auto
  then show ?thesis
    using assms(3) il(3) by (simp add: dedup_unmarshal_def dedup_marshal_eq [OF assms(1,2)] dedup_new_def)
qed

lemma dedup_unmarshal_truncated:
  assumes "dedup_ok t" "is_iter iter" "length t < 2 ^ 64" "n < dedup_marshal_len t"
  shows "dedup_unmarshal (take n (dedup_marshal iter t)) = Err DedupShort"
proof (cases "n < 8")
  case True
  then show ?thesis by (simp add: dedup_unmarshal_def min_less_iff_disj)
next
  case False
  let ?h = "le_bytes 8 (of_nat (length t) :: u64)"
  have d: "distinct (map fst t)" "\<And>ke. ke \<in> set (iter t) \<Longrightarrow> length (fst ke) = 32"
    using assms(1) is_iter_D(2) [OF assms(2)] by (auto simp: dedup_ok_def)
  note il = is_iter_D [OF assms(2) d(1)]
  have tk: "take n (dedup_marshal iter t) = ?h @ take (n - 8) (concat (map rec_bytes (iter t)))"
    using False by (simp add: dedup_marshal_eq [OF assms(1,2)])
  have "dedup_unmarshal_loop (length (iter t)) (length ?h) (?h @ take (n - 8) (concat (map rec_bytes (iter t)))) [] =
      Err DedupShort"
    using d(2) assms(4) il(3) False
    by (intro dedup_unmarshal_loop_short) (auto simp: dedup_marshal_len_def REC_SIZE_def)
  then show ?thesis unfolding tk
    using assms(3) il(3) by (simp add: dedup_unmarshal_def dedup_new_def)
qed

lemma dedup_unmarshal_distinct_loop:
  "dedup_unmarshal_loop n off data t = Ok t' \<Longrightarrow> distinct (map fst t) \<Longrightarrow> distinct (map fst t')"
  by (induction n off data t rule: dedup_unmarshal_loop.induct)
     (auto simp: distinct_update split: if_splits prod.splits)

section \<open>Properties\<close>

text \<open>C30.  The last release frees: a block with \<open>n\<close> references survives the first \<open>n - 1\<close> calls of
  \<open>Table::decr\<close>, which return nothing; the \<open>n\<close>-th removes the entry and returns it with the
  location to free.  No other key is affected.\<close>

theorem last_release_frees:
  assumes "dedup_ok t" "dedup_lookup t k = Some e" "unat (de_refs e) = Suc n"
  shows "fst (release_n dedup_decr (Suc n) k t) = replicate n None @ [Some (e\<lparr>de_refs := 0\<rparr>)] \<and>
    dedup_lookup (snd (release_n dedup_decr (Suc n) k t)) = (dedup_lookup t)(k := None)"
  using ddt.release_all [OF assms] by simp

theorem last_release_frees_witness:
  "let k = replicate 32 7; e = \<lparr>de_start = 100, de_count = 2, de_payload = 5, de_logical = 6, de_raw = False, de_refs = 0\<rparr>;
       t = snd (dedup_incr k (dedup_add k e dedup_new))
   in fst (release_n dedup_decr 2 k t) = [None, Some e] \<and> dedup_lookup (snd (release_n dedup_decr 2 k t)) k = None"
proof -
  let ?k = "replicate 32 7 :: key"
  let ?e = "\<lparr>de_start = 100, de_count = 2, de_payload = 5, de_logical = 6, de_raw = False, de_refs = 0\<rparr>"
  let ?t = "snd (dedup_incr ?k (dedup_add ?k ?e dedup_new))"
  have t: "?t = [(?k, ?e\<lparr>de_refs := 2\<rparr>)]"
    by (simp add: dedup_incr_def dedup_add_def dedup_new_def)
  then have "dedup_ok ?t" "dedup_lookup ?t ?k = Some (?e\<lparr>de_refs := 2\<rparr>)"
    by (simp_all add: dedup_ok_def dedup_lookup_def)
  moreover have "unat (de_refs (?e\<lparr>de_refs := 2\<rparr>)) = Suc 1" by simp
  ultimately have "fst (release_n dedup_decr (Suc 1) ?k ?t) = replicate 1 None @ [Some ?e] \<and>
      dedup_lookup (snd (release_n dedup_decr (Suc 1) ?k ?t)) = (dedup_lookup ?t)(?k := None)"
    using last_release_frees [of ?t ?k "?e\<lparr>de_refs := 2\<rparr>" 1] by simp
  moreover have "Suc 1 = 2" by simp
  ultimately show ?thesis by (simp only: Let_def) simp
qed

text \<open>C31.  The serialised table reads back: whatever order the hash map is iterated in, \<open>unmarshal\<close> of
  \<open>marshal\<close> has exactly the bindings of the table, and every truncation is rejected.\<close>

theorem dedup_round_trip:
  assumes "dedup_ok t" "is_iter iter" "length t < 2 ^ 64"
  shows "(\<exists>t'. dedup_unmarshal (dedup_marshal iter t) = Ok t' \<and> dedup_lookup t' = dedup_lookup t \<and>
      dedup_len t' = dedup_len t) \<and>
    (\<forall>n < dedup_marshal_len t. dedup_unmarshal (take n (dedup_marshal iter t)) = Err DedupShort)"
proof -
  have "distinct (map fst t)" using assms(1) by (simp add: dedup_ok_def)
  note il = is_iter_D [OF assms(2) this]
  show ?thesis
    using dedup_unmarshal_marshal [OF assms, of "[]"] dedup_unmarshal_truncated [OF assms] il
    by (simp add: dedup_lookup_eq dedup_len_def)
qed

theorem dedup_round_trip_witness:
  "let t = dedup_add (replicate 32 2) \<lparr>de_start = 200, de_count = 1, de_payload = 500, de_logical = 4096, de_raw = True, de_refs = 0\<rparr>
       (dedup_add (replicate 32 1) \<lparr>de_start = 100, de_count = 2, de_payload = 4096, de_logical = 8192, de_raw = False, de_refs = 0\<rparr> dedup_new)
   in \<exists>t'. dedup_unmarshal (dedup_marshal rev t) = Ok t' \<and> dedup_lookup t' = dedup_lookup t"
proof -
  let ?t = "dedup_add (replicate 32 2) \<lparr>de_start = 200, de_count = 1, de_payload = 500, de_logical = 4096, de_raw = True, de_refs = 0\<rparr>
       (dedup_add (replicate 32 1) \<lparr>de_start = 100, de_count = 2, de_payload = 4096, de_logical = 8192, de_raw = False, de_refs = 0\<rparr> dedup_new)"
  have ok: "dedup_ok ?t" by (simp add: ddt.add_ok)
  have it: "is_iter (rev :: dedup_table \<Rightarrow> dedup_table)" by (simp add: is_iter_def flip: rev_map)
  have "length ?t < 2 ^ 64" by (simp add: dedup_add_def dedup_new_def)
  from dedup_round_trip [OF ok it this] show ?thesis by (auto simp: Let_def)
qed

end
