(* ===== verification/Block.thy ===== *)
theory Block
  imports Prelude
begin

text \<open>
  The block device of \<^verbatim>\<open>rust/bloomfs-block\<close>.  The trait \<open>Device\<close> is a record of
  operations over a device state, and the code that is generic over the trait takes that record as
  an argument.  The locale \<open>block_device\<close> is the contract of a device that does not fail: what a
  read returns after a write, and that writes outside the device or of the wrong length are
  refused.  It is interpreted on the in-memory device and on the file and raw devices.  The file
  devices run over a file of the operating system whose positional writes and syncs may fail.
\<close>

section \<open>The trait\<close>

definition SIZE :: nat where
  "SIZE = 4096"

datatype block_error = OutOfRange | ShortData | Io string

record 'd device =
  read_block :: "'d \<Rightarrow> u64 \<Rightarrow> (block_error, bytes) res"
  write_block :: "'d \<Rightarrow> u64 \<Rightarrow> bytes \<Rightarrow> (block_error, unit) res \<times> 'd"
  blocks :: "'d \<Rightarrow> u64"
  sync :: "'d \<Rightarrow> (block_error, unit) res \<times> 'd"

section \<open>The in-memory device\<close>

record mem_device =
  md_data :: bytes
  md_blocks :: u64

text \<open>The length of the buffer and the offsets are products of \<open>usize\<close> and wrap around.  A vector of
  \<open>2 ^ 63\<close> bytes or more is the panic ``capacity overflow'', a range outside the buffer a slice panic.\<close>

definition mem_new :: "u64 \<Rightarrow> (unit, mem_device) res" where
  "mem_new n =
     (let len = unat (n * of_nat SIZE)
      in if len \<ge> 2 ^ 63 then Panic else Ok \<lparr>md_data = replicate len 0, md_blocks = n\<rparr>)"

definition mem_read_block :: "mem_device \<Rightarrow> u64 \<Rightarrow> (block_error, bytes) res" where
  "mem_read_block d num =
     (if num \<ge> md_blocks d then Err OutOfRange
      else let off = unat (num * of_nat SIZE)
           in if off + SIZE > length (md_data d) then Panic else Ok (slice off (off + SIZE) (md_data d)))"

definition mem_write_block ::
  "mem_device \<Rightarrow> u64 \<Rightarrow> bytes \<Rightarrow> (block_error, unit) res \<times> mem_device" where
  "mem_write_block d num data =
     (if num \<ge> md_blocks d then (Err OutOfRange, d)
      else if length data \<noteq> SIZE then (Err ShortData, d)
      else let off = unat (num * of_nat SIZE)
           in if off + SIZE > length (md_data d) then (Panic, d)
              else (Ok (), d\<lparr>md_data := copy_at off data (md_data d)\<rparr>))"

definition mem_sync :: "mem_device \<Rightarrow> (block_error, unit) res \<times> mem_device" where
  "mem_sync d = (Ok (), d)"

definition mem_dev :: "mem_device device" where
  "mem_dev = \<lparr>read_block = mem_read_block, write_block = mem_write_block, blocks = md_blocks, sync = mem_sync\<rparr>"

section \<open>Files\<close>

text \<open>A file as the positional calls of \<open>std::fs::File\<close> see it: its bytes, and for each
  coming write or sync whether it succeeds (an exhausted list means success).  A failing
  \<open>write_all_at\<close> may have written any prefix of its data.\<close>

record os_file =
  fl_bytes :: bytes
  fl_faults :: "nat option list"

definition read_exact_at :: "os_file \<Rightarrow> nat \<Rightarrow> nat \<Rightarrow> (block_error, bytes) res" where
  "read_exact_at f off len =
     (if off + len \<le> length (fl_bytes f) then Ok (slice off (off + len) (fl_bytes f))
      else Err (Io ''failed to fill whole buffer''))"

definition pwrite_bytes :: "nat \<Rightarrow> bytes \<Rightarrow> bytes \<Rightarrow> bytes" where
  "pwrite_bytes off data b = copy_at off data (b @ replicate (off + length data - length b) 0)"

definition write_all_at :: "os_file \<Rightarrow> bytes \<Rightarrow> nat \<Rightarrow> (block_error, unit) res \<times> os_file" where
  "write_all_at f data off =
     (case fl_faults f of
        Some p # fs \<Rightarrow>
          (Err (Io ''write failed''),
           f\<lparr>fl_bytes := pwrite_bytes off (take p data) (fl_bytes f), fl_faults := fs\<rparr>)
      | _ \<Rightarrow> (Ok (), f\<lparr>fl_bytes := pwrite_bytes off data (fl_bytes f), fl_faults := tl (fl_faults f)\<rparr>))"

definition sync_all :: "os_file \<Rightarrow> (block_error, unit) res \<times> os_file" where
  "sync_all f =
     (case fl_faults f of
        Some p # fs \<Rightarrow> (Err (Io ''sync failed''), f\<lparr>fl_faults := fs\<rparr>)
      | _ \<Rightarrow> (Ok (), f\<lparr>fl_faults := tl (fl_faults f)\<rparr>))"

section \<open>The file-image and raw devices\<close>

record file_device =
  fd_f :: os_file
  fd_blocks :: u64

text \<open>\<open>create\<close> truncates the opened file and sets its length; \<open>open\<close> infers the block
  count.  What the operating system answers is an argument: \<open>opened\<close> for opening the path, \<open>len_set\<close>
  for \<open>set_len\<close> and \<open>stat\<close> for \<open>metadata\<close>.\<close>

definition file_create ::
  "(string, os_file) res \<Rightarrow> (string, unit) res \<Rightarrow> u64 \<Rightarrow> (block_error, file_device) res" where
  "file_create opened len_set n =
     res_bind (map_err Io opened) (\<lambda>f.
       res_bind (map_err Io len_set) (\<lambda>_.
         Ok \<lparr>fd_f = f\<lparr>fl_bytes := replicate (unat (n * of_nat SIZE)) 0\<rparr>, fd_blocks = n\<rparr>))"

definition file_open :: "(string, os_file) res \<Rightarrow> (string, unit) res \<Rightarrow> (block_error, file_device) res" where
  "file_open opened stat =
     res_bind (map_err Io opened) (\<lambda>f.
       res_bind (map_err Io stat) (\<lambda>_.
         Ok \<lparr>fd_f = f, fd_blocks = of_nat (length (fl_bytes f)) div of_nat SIZE\<rparr>))"

definition file_read_block :: "file_device \<Rightarrow> u64 \<Rightarrow> (block_error, bytes) res" where
  "file_read_block d num =
     (if num \<ge> fd_blocks d then Err OutOfRange
      else read_exact_at (fd_f d) (unat (num * of_nat SIZE)) SIZE)"

definition file_write_block ::
  "file_device \<Rightarrow> u64 \<Rightarrow> bytes \<Rightarrow> (block_error, unit) res \<times> file_device" where
  "file_write_block d num data =
     (if num \<ge> fd_blocks d then (Err OutOfRange, d)
      else if length data \<noteq> SIZE then (Err ShortData, d)
      else case write_all_at (fd_f d) data (unat (num * of_nat SIZE)) of
        (r, f) \<Rightarrow> (r, d\<lparr>fd_f := f\<rparr>))"

definition file_sync :: "file_device \<Rightarrow> (block_error, unit) res \<times> file_device" where
  "file_sync d = (case sync_all (fd_f d) of (r, f) \<Rightarrow> (r, d\<lparr>fd_f := f\<rparr>))"

definition file_dev :: "file_device device" where
  "file_dev = \<lparr>read_block = file_read_block, write_block = file_write_block, blocks = fd_blocks, sync = file_sync\<rparr>"

record raw_device =
  rd_f :: os_file
  rd_blocks :: u64

text \<open>A raw device node: the size comes from the \<open>BLKGETSIZE64\<close> ioctl, here the argument
  \<open>blk_size_bytes\<close>.\<close>

definition raw_open ::
  "(string, os_file) res \<Rightarrow> (os_file \<Rightarrow> (string, u64) res) \<Rightarrow> (block_error, raw_device) res" where
  "raw_open opened blk_size_bytes =
     res_bind (map_err Io opened) (\<lambda>f.
       res_bind (map_err Io (blk_size_bytes f)) (\<lambda>size.
         Ok \<lparr>rd_f = f, rd_blocks = size div of_nat SIZE\<rparr>))"

definition raw_read_block :: "raw_device \<Rightarrow> u64 \<Rightarrow> (block_error, bytes) res" where
  "raw_read_block d num =
     (if num \<ge> rd_blocks d then Err OutOfRange
      else read_exact_at (rd_f d) (unat (num * of_nat SIZE)) SIZE)"

definition raw_write_block ::
  "raw_device \<Rightarrow> u64 \<Rightarrow> bytes \<Rightarrow> (block_error, unit) res \<times> raw_device" where
  "raw_write_block d num data =
     (if num \<ge> rd_blocks d then (Err OutOfRange, d)
      else if length data \<noteq> SIZE then (Err ShortData, d)
      else case write_all_at (rd_f d) data (unat (num * of_nat SIZE)) of
        (r, f) \<Rightarrow> (r, d\<lparr>rd_f := f\<rparr>))"

definition raw_sync :: "raw_device \<Rightarrow> (block_error, unit) res \<times> raw_device" where
  "raw_sync d = (case sync_all (rd_f d) of (r, f) \<Rightarrow> (r, d\<lparr>rd_f := f\<rparr>))"

definition raw_dev :: "raw_device device" where
  "raw_dev = \<lparr>read_block = raw_read_block, write_block = raw_write_block, blocks = rd_blocks, sync = raw_sync\<rparr>"

section \<open>The contract of a device that does not fail\<close>

text \<open>\<open>view d n\<close> is the content of block \<open>n\<close>; \<open>dev_ok\<close> says that the device is in a state
  where every access inside it succeeds.\<close>

locale block_device =
  fixes dv :: "'d device"
    and dev_ok :: "'d \<Rightarrow> bool"
    and view :: "'d \<Rightarrow> nat \<Rightarrow> bytes"
  assumes view_length: "dev_ok d \<Longrightarrow> n < unat (blocks dv d) \<Longrightarrow> length (view d n) = SIZE"
    and read_in: "dev_ok d \<Longrightarrow> num < blocks dv d \<Longrightarrow> read_block dv d num = Ok (view d (unat num))"
    and read_out: "blocks dv d \<le> num \<Longrightarrow> read_block dv d num = Err OutOfRange"
    and write_in: "dev_ok d \<Longrightarrow> num < blocks dv d \<Longrightarrow> length data = SIZE \<Longrightarrow>
      \<exists>d'. write_block dv d num data = (Ok (), d') \<and> dev_ok d' \<and> blocks dv d' = blocks dv d \<and>
           view d' = (view d)(unat num := data)"
    and write_out: "blocks dv d \<le> num \<Longrightarrow> write_block dv d num data = (Err OutOfRange, d)"
    and write_short: "num < blocks dv d \<Longrightarrow> length data \<noteq> SIZE \<Longrightarrow>
      write_block dv d num data = (Err ShortData, d)"
    and sync_in: "dev_ok d \<Longrightarrow>
      \<exists>d'. sync dv d = (Ok (), d') \<and> dev_ok d' \<and> blocks dv d' = blocks dv d \<and> view d' = view d"
begin

lemma write_blocks [simp]: "dev_ok d \<Longrightarrow> blocks dv (snd (write_block dv d num data)) = blocks dv d"
  by (cases "num < blocks dv d"; cases "length data = SIZE")
     (auto simp: write_out write_short dest!: write_in [of d num data] simp: not_less)

text \<open>Block-wise reads and writes: a write is seen by the next read of its block and by no other.\<close>

lemma read_after_write:
  assumes "dev_ok d" "num < blocks dv d" "length data = SIZE" "write_block dv d num data = (r, d')"
  shows "r = Ok ()" "dev_ok d'" "read_block dv d' num = Ok data"
    "num' \<noteq> num \<Longrightarrow> read_block dv d' num' = read_block dv d num'"
proof -
  obtain d'' where w: "write_block dv d num data = (Ok (), d'')" "dev_ok d''"
      "blocks dv d'' = blocks dv d" "view d'' = (view d)(unat num := data)"
    using write_in [OF assms(1-3)] by blast
  with assms(4) have d': "d' = d''" "r = Ok ()" by auto
  show "r = Ok ()" "dev_ok d'" using w d' by auto
  show "read_block dv d' num = Ok data" using w d' assms(2) read_in [of d' num] by simp
  show "read_block dv d' num' = read_block dv d num'" if "num' \<noteq> num"
  proof (cases "num' < blocks dv d")
    case True
    have "unat num' \<noteq> unat num" using that by (simp add: word_unat_eq_iff)
    with True show ?thesis
      using w d' assms(1) read_in [of d' num'] read_in [of d num'] by simp
  next
    case False
    then show ?thesis using w d' read_out [of d' num'] read_out [of d num'] by (simp add: not_less)
  qed
qed

end

text \<open>The weaker contract that a device keeps also while it fails: whatever a write returns, it
  changes no block but its own.\<close>

locale isolated_writes =
  fixes dv :: "'d device"
    and fits :: "'d \<Rightarrow> bool"
    and content :: "'d \<Rightarrow> nat \<Rightarrow> bytes"
  assumes write_isolated: "fits d \<Longrightarrow> write_block dv d num data = (r, d') \<Longrightarrow>
    fits d' \<and> blocks dv d' = blocks dv d \<and> (\<forall>n. n \<noteq> unat num \<longrightarrow> content d' n = content d n)"

sublocale block_device \<subseteq> iso: isolated_writes dv dev_ok view
proof
  fix d num data r d'
  assume ok: "dev_ok d" and w: "write_block dv d num data = (r, d')"
  show "dev_ok d' \<and> blocks dv d' = blocks dv d \<and> (\<forall>n. n \<noteq> unat num \<longrightarrow> view d' n = view d n)"
  proof (cases "num < blocks dv d \<and> length data = SIZE")
    case True
    then show ?thesis using write_in [OF ok, of num data] w by auto
  next
    case False
    then have "d' = d" using write_out [of d num data] write_short [of num d data] w
      by (cases "num < blocks dv d") (auto simp: not_less)
    then show ?thesis using ok by simp
  qed
qed

section \<open>The in-memory device meets the contract\<close>

definition mem_ok :: "mem_device \<Rightarrow> bool" where
  "mem_ok d = (length (md_data d) = unat (md_blocks d) * SIZE \<and> length (md_data d) < 2 ^ 63)"

definition block_view :: "bytes \<Rightarrow> u64 \<Rightarrow> nat \<Rightarrow> bytes" where
  "block_view b blks n = (if n < unat blks then slice (n * SIZE) (n * SIZE + SIZE) b else [])"

lemma SIZE_pos [simp]: "0 < SIZE"
  by (simp add: SIZE_def)

lemma block_end: "n < m \<Longrightarrow> n * SIZE + SIZE \<le> m * SIZE"
  by (metis Suc_leI add.commute mult_Suc mult_le_mono1)

lemma block_view_length:
  "unat blks * SIZE \<le> length b \<Longrightarrow> n < unat blks \<Longrightarrow> length (block_view b blks n) = SIZE"
  using block_end [of n "unat blks"] by (simp add: block_view_def)

lemma block_view_write:
  assumes "unat blks * SIZE \<le> length b" "k < unat blks" "length data = SIZE"
  shows "block_view (copy_at (k * SIZE) data b) blks = (block_view b blks)(k := data)"
proof
  fix n
  have k: "k * SIZE + SIZE \<le> length b" using block_end [OF assms(2)] assms(1) by simp
  show "block_view (copy_at (k * SIZE) data b) blks n = ((block_view b blks)(k := data)) n"
  proof (cases "n = k \<or> \<not> n < unat blks")
    case True
    then show ?thesis using assms k by (auto simp: block_view_def slice_copy_at_same)
  next
    case False
    then have "n * SIZE + SIZE \<le> k * SIZE \<or> k * SIZE + SIZE \<le> n * SIZE"
      using block_end [of n k] block_end [of k n] by linarith
    moreover have "n * SIZE + SIZE \<le> length b"
      using False block_end [of n "unat blks"] assms(1) by simp
    ultimately show ?thesis
      using False assms k by (auto simp: block_view_def slice_copy_at_other)
  qed
qed

lemma mem_new_ok: "unat n * SIZE < 2 ^ 63 \<Longrightarrow> \<exists>d. mem_new n = Ok d \<and> mem_ok d \<and> md_blocks d = n"
  by (simp add: mem_new_def mem_ok_def Let_def unat_word_ariths SIZE_def)

lemma mem_off:
  assumes "mem_ok d" "num < md_blocks d"
  shows "unat (num * of_nat SIZE) = unat num * SIZE" "unat num * SIZE + SIZE \<le> length (md_data d)"
proof -
  show e: "unat num * SIZE + SIZE \<le> length (md_data d)"
    using assms block_end [of "unat num" "unat (md_blocks d)"] by (simp add: mem_ok_def word_less_nat_alt)
  then have "unat num * SIZE < 2 ^ 64" using assms(1) SIZE_pos by (simp add: mem_ok_def)
  then show "unat (num * of_nat SIZE) = unat num * SIZE" by (simp add: unat_word_ariths SIZE_def)
qed

interpretation mem: block_device mem_dev mem_ok "\<lambda>d. block_view (md_data d) (md_blocks d)"
proof (unfold_locales, goal_cases)
  case (1 d n)
  then show ?case by (auto simp: mem_dev_def mem_ok_def block_view_length)
next
  case (2 d num)
  then show ?case using mem_off [of d num]
    by (simp add: mem_dev_def mem_read_block_def Let_def block_view_def word_less_nat_alt not_le)
next
  case (4 d num data)
  then have n: "num < md_blocks d" by (simp add: mem_dev_def)
  with 4 have "block_view (copy_at (unat num * SIZE) data (md_data d)) (md_blocks d) = (block_view (md_data d) (md_blocks d))(unat num := data)"
    by (intro block_view_write) (simp_all add: mem_ok_def word_less_nat_alt)
  with 4 n mem_off [of d num] show ?case
    by (simp add: mem_dev_def mem_write_block_def mem_ok_def Let_def not_le)
qed (auto simp: mem_dev_def mem_read_block_def mem_write_block_def mem_sync_def)

section \<open>The file devices meet the contract while the file does not fail\<close>

text \<open>No fault is pending, the file holds all blocks of the device and its length fits a \<open>u64\<close>.\<close>

definition file_fits :: "os_file \<Rightarrow> u64 \<Rightarrow> bool" where
  "file_fits f blks = (unat blks * SIZE \<le> length (fl_bytes f) \<and> length (fl_bytes f) < 2 ^ 64)"

definition file_healthy :: "os_file \<Rightarrow> u64 \<Rightarrow> bool" where
  "file_healthy f blks = (file_fits f blks \<and> (\<forall>x \<in> set (fl_faults f). x = None))"

lemma unat_block_off:
  assumes "file_fits f blks" "num < blks"
  shows "unat (num * of_nat SIZE) = unat num * SIZE"
proof -
  have "unat num * SIZE < 2 ^ 64"
    using assms block_end [of "unat num" "unat blks"]
    by (simp add: file_fits_def word_less_nat_alt)
  then show ?thesis
    by (simp add: unat_word_ariths SIZE_def)
qed

lemma pwrite_inside:
  "off + length data \<le> length b \<Longrightarrow> pwrite_bytes off data b = copy_at off data b"
  by (simp add: pwrite_bytes_def)

lemma healthy_write_all_at:
  assumes "file_healthy f blks" "num < blks" "length data = SIZE"
  shows "\<exists>f'. write_all_at f data (unat (num * of_nat SIZE)) = (Ok (), f') \<and> file_healthy f' blks \<and>
    block_view (fl_bytes f') blks = (block_view (fl_bytes f) blks)(unat num := data)"
proof -
  have n: "unat num < unat blks" using assms(2) by (simp add: word_less_nat_alt)
  then have "unat num * SIZE + SIZE \<le> length (fl_bytes f)"
    using assms(1) block_end [OF n] by (simp add: file_healthy_def file_fits_def)
  moreover have "unat (num * of_nat SIZE) = unat num * SIZE"
    using assms unat_block_off [of f blks num] by (simp add: file_healthy_def)
  ultimately show ?thesis
    using assms n by (cases "fl_faults f")
      (auto simp: write_all_at_def file_healthy_def file_fits_def pwrite_inside block_view_write)
qed

lemma healthy_sync_all:
  assumes "file_healthy f blks"
  shows "\<exists>f'. sync_all f = (Ok (), f') \<and> file_healthy f' blks \<and> fl_bytes f' = fl_bytes f"
  using assms by (cases "fl_faults f") (auto simp: sync_all_def file_healthy_def file_fits_def)

lemma fits_read_exact_at:
  assumes "file_fits f blks" "num < blks"
  shows "read_exact_at f (unat (num * of_nat SIZE)) SIZE = Ok (block_view (fl_bytes f) blks (unat num))"
  using assms unat_block_off [OF assms] block_end [of "unat num" "unat blks"]
  by (simp add: read_exact_at_def block_view_def file_fits_def word_less_nat_alt)

lemmas healthy_fits = file_healthy_def [THEN iffD1, THEN conjunct1]

interpretation fil: block_device file_dev "\<lambda>d. file_healthy (fd_f d) (fd_blocks d)"
  "\<lambda>d. block_view (fl_bytes (fd_f d)) (fd_blocks d)"
proof (unfold_locales, goal_cases)
  case (1 d n)
  then show ?case by (auto simp: file_dev_def file_healthy_def file_fits_def block_view_length)
next
  case (2 d num)
  then show ?case
    by (auto simp: file_dev_def file_read_block_def fits_read_exact_at dest: healthy_fits)
next
  case (4 d num data)
  then show ?case
    using healthy_write_all_at [of "fd_f d" "fd_blocks d" num data]
    by (auto simp: file_dev_def file_write_block_def)
next
  case (7 d)
  then show ?case
    using healthy_sync_all [of "fd_f d" "fd_blocks d"] by (auto simp: file_dev_def file_sync_def)
qed (auto simp: file_dev_def file_read_block_def file_write_block_def)

interpretation raw: block_device raw_dev "\<lambda>d. file_healthy (rd_f d) (rd_blocks d)"
  "\<lambda>d. block_view (fl_bytes (rd_f d)) (rd_blocks d)"
proof (unfold_locales, goal_cases)
  case (1 d n)
  then show ?case by (auto simp: raw_dev_def file_healthy_def file_fits_def block_view_length)
next
  case (2 d num)
  then show ?case
    by (auto simp: raw_dev_def raw_read_block_def fits_read_exact_at dest: healthy_fits)
next
  case (4 d num data)
  then show ?case
    using healthy_write_all_at [of "rd_f d" "rd_blocks d" num data]
    by (auto simp: raw_dev_def raw_write_block_def)
next
  case (7 d)
  then show ?case
    using healthy_sync_all [of "rd_f d" "rd_blocks d"] by (auto simp: raw_dev_def raw_sync_def)
qed (auto simp: raw_dev_def raw_read_block_def raw_write_block_def)

section \<open>Failing writes and reopened images\<close>

text \<open>A write that the operating system cuts short damages the block it was aimed at and
  nothing else.\<close>

lemma write_all_at_local:
  assumes "file_fits f blks" "num < blks" "length data = SIZE"
    and "write_all_at f data (unat (num * of_nat SIZE)) = (r, f')"
  shows "file_fits f' blks" "length (fl_bytes f') = length (fl_bytes f)"
    "\<And>n. n \<noteq> unat num \<Longrightarrow> block_view (fl_bytes f') blks n = block_view (fl_bytes f) blks n"
    "r = Ok () \<Longrightarrow> block_view (fl_bytes f') blks (unat num) = data"
    "r = Ok () \<or> (\<exists>e. r = Err e)"
proof -
  have n: "unat num < unat blks" using assms(2) by (simp add: word_less_nat_alt)
  let ?b = "fl_bytes f" and ?o = "unat num * SIZE"
  have fit: "?o + SIZE \<le> length ?b"
    using assms(1) block_end [OF n] by (simp add: file_fits_def)
  obtain p where p: "fl_bytes f' = copy_at ?o (take p data) ?b" "r = Ok () \<Longrightarrow> take p data = data"
    and r: "r = Ok () \<or> (\<exists>e. r = Err e)"
  proof (cases "\<exists>q fs. fl_faults f = Some q # fs")
    case True
    then show ?thesis
      using that assms(3,4) fit unat_block_off [OF assms(1,2)]
      by (fastforce simp: write_all_at_def pwrite_inside)
  next
    case False
    then show ?thesis
      using that [of SIZE] assms(3,4) fit unat_block_off [OF assms(1,2)]
      by (auto simp: write_all_at_def pwrite_inside split: list.splits option.splits)
  qed
  have whole: "copy_at ?o (take p data) ?b = copy_at ?o (take p data @ drop (length (take p data)) (slice ?o (?o + SIZE) ?b)) ?b"
    using fit assms(3) by (intro nth_equalityI) (auto simp: nth_copy_at slice_def nth_append min_def)
  have "block_view (fl_bytes f') blks = (block_view ?b blks)
      (unat num := take p data @ drop (length (take p data)) (slice ?o (?o + SIZE) ?b))"
    unfolding p(1) whole
    using assms fit n by (intro block_view_write) (auto simp: file_fits_def)
  then show "\<And>n. n \<noteq> unat num \<Longrightarrow> block_view (fl_bytes f') blks n = block_view ?b blks n"
    and "r = Ok () \<Longrightarrow> block_view (fl_bytes f') blks (unat num) = data"
    using p(2) assms(3) fit by auto
  show "length (fl_bytes f') = length ?b" using p fit assms(3) by simp
  then show "file_fits f' blks" using assms(1) by (simp add: file_fits_def)
  show "r = Ok () \<or> (\<exists>e. r = Err e)" by (fact r)
qed

interpretation ffil: isolated_writes file_dev "\<lambda>d. file_fits (fd_f d) (fd_blocks d)"
  "\<lambda>d. block_view (fl_bytes (fd_f d)) (fd_blocks d)"
proof
  fix d num data r d'
  assume fits: "file_fits (fd_f d) (fd_blocks d)" and w: "write_block file_dev d num data = (r, d')"
  show "file_fits (fd_f d') (fd_blocks d') \<and> blocks file_dev d' = blocks file_dev d \<and>
    (\<forall>n. n \<noteq> unat num \<longrightarrow> block_view (fl_bytes (fd_f d')) (fd_blocks d') n = block_view (fl_bytes (fd_f d)) (fd_blocks d) n)"
  proof (cases "num < fd_blocks d \<and> length data = SIZE")
    case True
    then obtain f' where f': "write_all_at (fd_f d) data (unat (num * of_nat SIZE)) = (r, f')" "d' = d\<lparr>fd_f := f'\<rparr>"
      using w by (auto simp: file_dev_def file_write_block_def split: prod.splits if_splits)
    show ?thesis
      using write_all_at_local(1,3) [OF fits _ _ f'(1)] True f'(2) by (simp add: file_dev_def)
  next
    case False
    then have "d' = d" using w by (auto simp: file_dev_def file_write_block_def split: if_splits)
    then show ?thesis using fits by simp
  qed
qed

text \<open>C32. A write of a block of a file image, also one that the operating system cuts short,
  never panics, changes no other block of the image, and when it reports success a read of the
  block returns the written data.\<close>

theorem file_write_isolated:
  assumes "file_fits (fd_f d) (fd_blocks d)" "length data = SIZE" "num < fd_blocks d"
    and "file_write_block d num data = (r, d')"
  shows "r \<noteq> Panic \<and> fd_blocks d' = fd_blocks d \<and> file_fits (fd_f d') (fd_blocks d') \<and>
    (r = Ok () \<longrightarrow> file_read_block d' num = Ok data) \<and>
    (\<forall>k. k \<noteq> num \<longrightarrow> file_read_block d' k = file_read_block d k)"
proof -
  obtain f' where w: "write_all_at (fd_f d) data (unat (num * of_nat SIZE)) = (r, f')"
      "d' = d\<lparr>fd_f := f'\<rparr>"
    using assms by (auto simp: file_write_block_def split: prod.splits if_splits)
  note loc = write_all_at_local [OF assms(1,3,2) w(1)]
  have "file_read_block d' k = file_read_block d k" if "k \<noteq> num" for k
  proof (cases "k < fd_blocks d")
    case True
    then show ?thesis
      using loc(1) loc(3) [of "unat k"] that assms(1) w(2)
      by (simp add: file_read_block_def fits_read_exact_at word_unat_eq_iff)
  qed (use w in \<open>simp add: file_read_block_def not_less\<close>)
  moreover have "r = Ok () \<Longrightarrow> file_read_block d' num = Ok data"
    using loc(1,4) assms(3) w(2) by (simp add: file_read_block_def fits_read_exact_at not_le)
  ultimately show ?thesis using loc(1,5) w(2) by auto
qed

theorem file_write_isolated_witness:
  "\<exists>d'. file_write_block \<lparr>fd_f = \<lparr>fl_bytes = replicate (2 * SIZE) 0, fl_faults = [Some 1]\<rparr>, fd_blocks = 2\<rparr>
      1 (replicate SIZE 5) = (Err (Io ''write failed''), d') \<and>
    file_read_block d' 0 = Ok (replicate SIZE 0)"
proof -
  let ?d = "\<lparr>fd_f = \<lparr>fl_bytes = replicate (2 * SIZE) 0, fl_faults = [Some 1]\<rparr>, fd_blocks = 2\<rparr> :: file_device"
  obtain r d' where w: "file_write_block ?d 1 (replicate SIZE 5) = (r, d')" by fastforce
  have one: "(1 :: u64) < 2" "\<not> (2 :: u64) \<le> 1" "\<not> (2 :: u64) \<le> 0" by (simp_all add: word_less_nat_alt word_le_nat_alt)
  have "2 * SIZE < 2 ^ 64" by (simp add: SIZE_def)
  then have "file_read_block d' 0 = file_read_block ?d 0"
    using file_write_isolated [OF _ _ _ w] one by (simp add: file_fits_def)
  moreover have "r = Err (Io ''write failed'')"
    using w one by (simp add: file_write_block_def write_all_at_def)
  moreover have "file_read_block ?d 0 = Ok (replicate SIZE 0)"
    using one by (simp add: file_read_block_def read_exact_at_def slice_def)
  ultimately show ?thesis using w by auto
qed

text \<open>A sequence of writes, each of which may fail.\<close>

definition file_writes :: "(u64 \<times> bytes) list \<Rightarrow> file_device \<Rightarrow> file_device" where
  "file_writes ws d = fold (\<lambda>(num, data) d. snd (file_write_block d num data)) ws d"

lemma file_write_block_frame:
  assumes "file_fits (fd_f d) (fd_blocks d)"
  shows "fd_blocks (snd (file_write_block d num data)) = fd_blocks d"
    "length (fl_bytes (fd_f (snd (file_write_block d num data)))) = length (fl_bytes (fd_f d))"
    "file_fits (fd_f (snd (file_write_block d num data))) (fd_blocks d)"
proof -
  obtain r f' where w: "write_all_at (fd_f d) data (unat (num * of_nat SIZE)) = (r, f')" by fastforce
  show "fd_blocks (snd (file_write_block d num data)) = fd_blocks d"
    "length (fl_bytes (fd_f (snd (file_write_block d num data)))) = length (fl_bytes (fd_f d))"
    "file_fits (fd_f (snd (file_write_block d num data))) (fd_blocks d)"
    using write_all_at_local(1,2) [OF assms _ _ w] assms w
    by (auto simp: file_write_block_def not_le)
qed

lemma file_writes_frame:
  "file_fits (fd_f d) (fd_blocks d) \<Longrightarrow>
   fd_blocks (file_writes ws d) = fd_blocks d \<and>
   length (fl_bytes (fd_f (file_writes ws d))) = length (fl_bytes (fd_f d))"
proof (induction ws arbitrary: d)
  case (Cons w ws)
  obtain num data where w: "w = (num, data)" by (cases w)
  show ?case
    using Cons.IH [of "snd (file_write_block d num data)"]
      file_write_block_frame [OF Cons.prems, of num data]
    by (simp add: file_writes_def w)
qed (simp add: file_writes_def)

text \<open>C33. An image created with \<open>n\<close> blocks, written any number of times and reopened, is the
  same device: the block count inferred from the file length is \<open>n\<close> and every block reads as it
  was left.\<close>

theorem image_reopen:
  assumes "unat n * SIZE < 2 ^ 64" "file_create (Ok f) len_set n = Ok d"
  shows "fd_blocks (file_writes ws d) = n \<and> file_open (Ok (fd_f (file_writes ws d))) (Ok ()) = Ok (file_writes ws d)"
proof -
  have off: "unat (n * of_nat SIZE) = unat n * SIZE"
    using assms(1) by (simp add: unat_word_ariths SIZE_def)
  have d: "fd_blocks d = n" "length (fl_bytes (fd_f d)) = unat n * SIZE"
    using assms(2) off by (cases len_set; auto simp: file_create_def)+
  have "file_fits (fd_f d) (fd_blocks d)" using d assms(1) by (simp add: file_fits_def)
  note fr = file_writes_frame [OF this, of ws]
  have "of_nat (unat n * SIZE) div of_nat SIZE = n"
    using assms(1) by (simp add: word_unat_eq_iff unat_div SIZE_def unat_word_ariths)
  then show ?thesis using fr d by (simp add: file_open_def)
qed

theorem image_reopen_witness:
  "\<exists>d. file_create (Ok \<lparr>fl_bytes = [], fl_faults = []\<rparr>) (Ok ()) 2 = Ok d \<and>
    file_open (Ok (fd_f (file_writes [(1, replicate SIZE 7)] d))) (Ok ()) = Ok (file_writes [(1, replicate SIZE 7)] d)"
proof -
  obtain d where d: "file_create (Ok \<lparr>fl_bytes = [], fl_faults = []\<rparr>) (Ok ()) 2 = Ok d"
    by (simp add: file_create_def)
  show ?thesis
    using image_reopen [OF _ d, of "[(1, replicate SIZE 7)]"] d by (simp add: SIZE_def)
qed

end
