(* ===== verification/Inode.thy ===== *)
theory Inode
  imports Block
begin

text \<open>
  The 128-byte inode of \<^verbatim>\<open>rust/bloomfs-inode\<close>: the record, its fixed little-endian
  encoding, the inline extents, and the in-memory inode table with its snapshot encoding.  The
  lemmas are the round trips of the three encodings, what \<open>put\<close> and \<open>get\<close> do to the table,
  and the invariant that slots past the high-water mark are default inodes, which is what makes the
  snapshot of the leading slots lossless.
\<close>

section \<open>Inodes\<close>

definition INODE_SIZE :: nat where
  "INODE_SIZE = 128"

definition BLOCK_MAP_BYTES :: nat where
  "BLOCK_MAP_BYTES = 64"

definition EXTENT_SIZE :: nat where
  "EXTENT_SIZE = 16"

definition INLINE_CAP :: nat where
  "INLINE_CAP = BLOCK_MAP_BYTES div EXTENT_SIZE"

definition TYPE_REGULAR :: u8 where
  "TYPE_REGULAR = 0"

definition TYPE_DIR :: u8 where
  "TYPE_DIR = 1"

definition TYPE_LINK :: u8 where
  "TYPE_LINK = 2"

definition FLAG_INLINE_EXTENTS :: u8 where
  "FLAG_INLINE_EXTENTS = push_bit 0 1"

definition FLAG_COMPRESSED :: u8 where
  "FLAG_COMPRESSED = push_bit 1 1"

definition FLAG_ENCRYPTED :: u8 where
  "FLAG_ENCRYPTED = push_bit 2 1"

datatype inode_error = BadInodeSize | TooManyExtents | InodeOutOfRange

record extent =
  ex_start :: u64
  ex_blocks :: u32
  ex_logical :: u32

record inode =
  in_size :: u64
  nlink :: u32
  generation :: u32
  uid :: u32
  gid :: u32
  atime :: u64
  mtime :: u64
  ctime :: u64
  mode :: u16
  kind :: u8
  record_size_log2 :: u8
  flags :: u8
  checksum :: bytes
  block_map :: bytes

definition inode_default :: inode where
  "inode_default = \<lparr>in_size = 0, nlink = 0, generation = 0, uid = 0, gid = 0, atime = 0, mtime = 0,
     ctime = 0, mode = 0, kind = 0, record_size_log2 = 0, flags = 0, checksum = replicate 8 0,
     block_map = replicate BLOCK_MAP_BYTES 0\<rparr>"

text \<open>The array types \<open>[u8; 8]\<close> and \<open>[u8; 64]\<close> of the fields.\<close>

definition inode_typed :: "inode \<Rightarrow> bool" where
  "inode_typed i = (length (checksum i) = 8 \<and> length (block_map i) = BLOCK_MAP_BYTES)"

definition inode_marshal_into :: "inode \<Rightarrow> bytes \<Rightarrow> bytes" where
  "inode_marshal_into i dst = copy_all
     [(0, le_bytes 8 (in_size i)),
      (8, le_bytes 4 (nlink i)),
      (12, le_bytes 4 (generation i)),
      (16, le_bytes 4 (uid i)),
      (20, le_bytes 4 (gid i)),
      (24, le_bytes 8 (atime i)),
      (32, le_bytes 8 (mtime i)),
      (40, le_bytes 8 (ctime i)),
      (48, le_bytes 2 (mode i)),
      (50, [kind i]),
      (51, [record_size_log2 i]),
      (52, [flags i]),
      (53, [0]),
      (54, [0]),
      (55, [0]),
      (56, checksum i),
      (64, block_map i)] dst"

definition inode_marshal_binary :: "inode \<Rightarrow> bytes" where
  "inode_marshal_binary i = inode_marshal_into i (replicate INODE_SIZE 0)"

definition inode_unmarshal_binary :: "inode \<Rightarrow> bytes \<Rightarrow> (inode_error, inode) res" where
  "inode_unmarshal_binary i b =
     (if length b \<noteq> INODE_SIZE then Err BadInodeSize
      else Ok (i\<lparr>
        in_size := from_le (slice 0 8 b),
        nlink := from_le (slice 8 12 b),
        generation := from_le (slice 12 16 b),
        uid := from_le (slice 16 20 b),
        gid := from_le (slice 20 24 b),
        atime := from_le (slice 24 32 b),
        mtime := from_le (slice 32 40 b),
        ctime := from_le (slice 40 48 b),
        mode := from_le (slice 48 50 b),
        kind := b ! 50,
        record_size_log2 := b ! 51,
        flags := b ! 52,
        checksum := copy_at 0 (slice 56 64 b) (checksum i),
        block_map := copy_at 0 (slice 64 128 b) (block_map i)\<rparr>))"

definition inode_from_bytes :: "bytes \<Rightarrow> (inode_error, inode) res" where
  "inode_from_bytes b = inode_unmarshal_binary inode_default b"

section \<open>Inline extents\<close>

fun put_extents :: "nat \<Rightarrow> extent list \<Rightarrow> bytes \<Rightarrow> bytes" where
  "put_extents i [] bm = bm"
| "put_extents i (e # es) bm =
     (let off = i * EXTENT_SIZE in
      put_extents (i + 1) es (copy_all
        [(off, le_bytes 8 (ex_start e)),
         (off + 8, le_bytes 4 (ex_blocks e)),
         (off + 12, le_bytes 4 (ex_logical e))] bm))"

definition set_extents :: "inode \<Rightarrow> extent list \<Rightarrow> (inode_error, unit) res \<times> inode" where
  "set_extents i exts =
     (if length exts > INLINE_CAP then (Err TooManyExtents, i)
      else let bm = put_extents 0 exts (replicate BLOCK_MAP_BYTES 0) in
        (Ok (), i\<lparr>block_map := bm, flags := flags i OR FLAG_INLINE_EXTENTS\<rparr>))"

fun get_extents :: "nat list \<Rightarrow> bytes \<Rightarrow> extent list" where
  "get_extents [] bm = []"
| "get_extents (i # is) bm =
     (let off = i * EXTENT_SIZE;
          blks = from_le (slice (off + 8) (off + 12) bm)
      in if blks = 0 then []
         else \<lparr>ex_start = from_le (slice off (off + 8) bm),
               ex_blocks = blks,
               ex_logical = from_le (slice (off + 12) (off + 16) bm)\<rparr> # get_extents is bm)"

definition extents :: "inode \<Rightarrow> extent list" where
  "extents i = get_extents [0..<INLINE_CAP] (block_map i)"

section \<open>The inode table\<close>

record itable =
  it_inodes :: "inode list"
  it_count :: u64

definition itable_new :: "u64 \<Rightarrow> itable" where
  "itable_new capacity = \<lparr>it_inodes = replicate (unat capacity) inode_default, it_count = 0\<rparr>"

definition itable_cap :: "itable \<Rightarrow> u64" where
  "itable_cap t = of_nat (length (it_inodes t))"

definition itable_get :: "itable \<Rightarrow> u64 \<Rightarrow> (inode_error, inode) res" where
  "itable_get t ino =
     (if ino \<ge> of_nat (length (it_inodes t)) then Err InodeOutOfRange
      else Ok (it_inodes t ! unat ino))"

definition itable_put :: "itable \<Rightarrow> u64 \<Rightarrow> inode \<Rightarrow> (inode_error, unit) res \<times> itable" where
  "itable_put t ino i =
     (if ino \<ge> of_nat (length (it_inodes t)) then (Err InodeOutOfRange, t)
      else (Ok (), t\<lparr>it_inodes := (it_inodes t)[unat ino := i],
                    it_count := (if ino \<ge> it_count t then ino + 1 else it_count t)\<rparr>))"

definition itable_marshal_len :: "itable \<Rightarrow> nat" where
  "itable_marshal_len t = unat (it_count t) * INODE_SIZE"

fun marshal_slots :: "nat \<Rightarrow> inode list \<Rightarrow> bytes \<Rightarrow> bytes" where
  "marshal_slots i [] dst = dst"
| "marshal_slots i (x # xs) dst =
     marshal_slots (i + 1) xs
       (copy_at (i * INODE_SIZE)
          (inode_marshal_into x (slice (i * INODE_SIZE) ((i + 1) * INODE_SIZE) dst)) dst)"

definition itable_marshal_into :: "itable \<Rightarrow> bytes \<Rightarrow> nat \<times> bytes" where
  "itable_marshal_into t dst =
     (unat (it_count t) * INODE_SIZE, marshal_slots 0 (take (unat (it_count t)) (it_inodes t)) dst)"

definition itable_marshal :: "itable \<Rightarrow> bytes" where
  "itable_marshal t = snd (itable_marshal_into t (replicate (itable_marshal_len t) 0))"

fun unmarshal_slots :: "nat \<Rightarrow> inode list \<Rightarrow> bytes \<Rightarrow> (inode_error, inode list) res" where
  "unmarshal_slots i [] b = Ok []"
| "unmarshal_slots i (x # xs) b =
     res_bind (inode_unmarshal_binary x (slice (i * INODE_SIZE) ((i + 1) * INODE_SIZE) b)) (\<lambda>y.
       res_bind (unmarshal_slots (i + 1) xs b) (\<lambda>ys. Ok (y # ys)))"

definition unmarshal_table :: "bytes \<Rightarrow> u64 \<Rightarrow> (inode_error, itable) res" where
  "unmarshal_table b capacity =
     (if length b mod INODE_SIZE \<noteq> 0 then Err BadInodeSize
      else let n = length b div INODE_SIZE in
        if of_nat n > capacity then Err InodeOutOfRange
        else let t = itable_new capacity in
          res_bind (unmarshal_slots 0 (take n (it_inodes t)) b) (\<lambda>xs.
            Ok (t\<lparr>it_inodes := xs @ drop n (it_inodes t), it_count := of_nat n\<rparr>)))"

section \<open>The inode encoding\<close>

definition inode_enc :: "inode \<Rightarrow> bytes" where
  "inode_enc i = le_bytes 8 (in_size i) @ le_bytes 4 (nlink i) @ le_bytes 4 (generation i) @
     le_bytes 4 (uid i) @ le_bytes 4 (gid i) @ le_bytes 8 (atime i) @ le_bytes 8 (mtime i) @
     le_bytes 8 (ctime i) @ le_bytes 2 (mode i) @
     [kind i, record_size_log2 i, flags i, 0, 0, 0] @ checksum i @ block_map i"

lemma length_inode_enc [simp]: "inode_typed i \<Longrightarrow> length (inode_enc i) = INODE_SIZE"
  by (simp add: inode_enc_def inode_typed_def INODE_SIZE_def BLOCK_MAP_BYTES_def)

lemma inode_default_typed [simp]: "inode_typed inode_default"
  by (simp add: inode_typed_def inode_default_def)

lemma inode_marshal_into_eq:
  assumes "inode_typed i" "INODE_SIZE \<le> length dst"
  shows "inode_marshal_into i dst = inode_enc i @ drop INODE_SIZE dst"
proof -
  have "inode_marshal_into i dst = copy_at 0 (inode_enc i) dst"
    unfolding inode_marshal_into_def
    using assms by (subst copy_all_contig [where off = 0])
      (simp_all add: inode_typed_def inode_enc_def INODE_SIZE_def BLOCK_MAP_BYTES_def)
  then show ?thesis using assms by (simp add: copy_at_prefix)
qed

lemma inode_marshal_binary_eq: "inode_typed i \<Longrightarrow> inode_marshal_binary i = inode_enc i"
  by (simp add: inode_marshal_binary_def inode_marshal_into_eq)

lemma inode_unmarshal_enc:
  assumes "inode_typed i" "inode_typed j"
  shows "inode_unmarshal_binary j (inode_enc i) = Ok i"
proof -
  have "length (inode_enc i) = INODE_SIZE" using assms by simp
  then show ?thesis
    using assms
    by (cases i) (simp add: inode_unmarshal_binary_def inode_enc_def inode_typed_def nth_append
      BLOCK_MAP_BYTES_def copy_at_full)
qed

lemma inode_unmarshal_typed:
  "inode_typed j \<Longrightarrow> inode_unmarshal_binary j b = Ok i \<Longrightarrow> inode_typed i"
  by (auto simp: inode_unmarshal_binary_def inode_typed_def INODE_SIZE_def BLOCK_MAP_BYTES_def
    split: if_splits)

section \<open>The extent encoding\<close>

definition extent_enc :: "extent \<Rightarrow> bytes" where
  "extent_enc e = le_bytes 8 (ex_start e) @ le_bytes 4 (ex_blocks e) @ le_bytes 4 (ex_logical e)"

lemma length_extent_enc [simp]: "length (extent_enc e) = EXTENT_SIZE"
  by (simp add: extent_enc_def EXTENT_SIZE_def)

lemma put_extents_eq:
  "(i + length es) * EXTENT_SIZE \<le> length bm \<Longrightarrow>
   put_extents i es bm = copy_at (i * EXTENT_SIZE) (concat (map extent_enc es)) bm"
proof (induction es arbitrary: i bm)
  case Nil
  then show ?case by simp
next
  case (Cons e es)
  let ?o = "i * EXTENT_SIZE"
  have fit: "?o + EXTENT_SIZE + length es * EXTENT_SIZE \<le> length bm"
    using Cons.prems by (simp add: algebra_simps)
  have "copy_all [(?o, le_bytes 8 (ex_start e)), (?o + 8, le_bytes 4 (ex_blocks e)),
      (?o + 12, le_bytes 4 (ex_logical e))] bm = copy_at ?o (extent_enc e) bm"
    using fit by (subst copy_all_contig [where off = ?o]) (simp_all add: extent_enc_def EXTENT_SIZE_def)
  then have "put_extents i (e # es) bm = put_extents (i + 1) es (copy_at ?o (extent_enc e) bm)"
    by (simp add: Let_def)
  also have "\<dots> = copy_at ((i + 1) * EXTENT_SIZE) (concat (map extent_enc es)) (copy_at ?o (extent_enc e) bm)"
    using fit by (intro Cons.IH) (simp add: algebra_simps)
  also have "\<dots> = copy_at ?o (concat (map extent_enc (e # es))) bm"
    using fit copy_at_copy_at [of ?o "extent_enc e" "concat (map extent_enc es)" bm]
      length_concat_chunks [of es extent_enc EXTENT_SIZE]
    by (simp add: add.commute)
  finally show ?case .
qed

lemma from_le_zeros [simp]: "from_le (replicate n 0) = 0"
  by (induction n) auto

lemma slice_replicate [simp]: "hi \<le> n \<Longrightarrow> slice lo hi (replicate n x) = replicate (hi - lo) x"
  by (simp add: slice_def)

text \<open>Reading entry by entry from a concatenation of encodings followed by zeros.\<close>

lemma get_extents_enc:
  assumes "\<forall>e \<in> set es. ex_blocks e \<noteq> 0" "i \<le> length es" "length es \<le> n"
    and "bm = concat (map extent_enc es) @ replicate ((n - length es) * EXTENT_SIZE) 0"
  shows "get_extents [i..<n] bm = drop i es"
  using assms(2)
proof (induction "length es - i" arbitrary: i)
  case 0
  then have i: "i = length es" by simp
  show ?case
  proof (cases "i < n")
    case True
    have "EXTENT_SIZE \<le> (n - length es) * EXTENT_SIZE"
      using True i by (cases "n - length es") auto
    then have "slice (i * EXTENT_SIZE + 8) (i * EXTENT_SIZE + 12) bm = replicate 4 0"
      using i length_concat_chunks [of es extent_enc EXTENT_SIZE]
      by (simp add: assms(4) EXTENT_SIZE_def)
    then show ?thesis using True i by (simp add: upt_conv_Cons Let_def)
  qed (use i in simp)
next
  case (Suc k)
  then have i: "i < length es" by simp
  define o' where "o' = i * EXTENT_SIZE"
  have ch: "slice o' (o' + EXTENT_SIZE) bm = extent_enc (es ! i)"
    using i slice_concat_chunk [of es extent_enc EXTENT_SIZE i] by (simp add: assms(4) o'_def)
  have sub: "slice (o' + a) (o' + b) bm = slice a b (extent_enc (es ! i))" if "b \<le> EXTENT_SIZE" for a b
    using that unfolding ch [symmetric] by (cases "a \<le> b") (auto simp: slice_def min_def drop_take add.commute)
  have "slice o' (o' + 8) bm = le_bytes 8 (ex_start (es ! i))"
    "slice (o' + 8) (o' + 12) bm = le_bytes 4 (ex_blocks (es ! i))"
    "slice (o' + 12) (o' + 16) bm = le_bytes 4 (ex_logical (es ! i))"
    using sub [of 8 0] sub [of 12 8] sub [of 16 12] by (simp_all add: extent_enc_def EXTENT_SIZE_def)
  moreover have "ex_blocks (es ! i) \<noteq> 0" using assms(1) i by simp
  moreover have "get_extents [Suc i..<n] bm = drop (Suc i) es" using Suc i by (intro Suc.hyps) auto
  ultimately show ?case
    using i assms(3) by (simp add: upt_conv_Cons Let_def o'_def [symmetric] Cons_nth_drop_Suc [symmetric])
qed

section \<open>The table invariant\<close>

definition itable_ok :: "itable \<Rightarrow> bool" where
  "itable_ok t = (length (it_inodes t) < 2 ^ 64 \<and> unat (it_count t) \<le> length (it_inodes t) \<and>
     list_all inode_typed (it_inodes t) \<and>
     drop (unat (it_count t)) (it_inodes t) =
       replicate (length (it_inodes t) - unat (it_count t)) inode_default)"

lemma itable_new_ok: "itable_ok (itable_new capacity)"
  using unsigned_less [of capacity, where ?'a = nat]
  by (simp add: itable_ok_def itable_new_def list_all_length)

lemma ino_in_range:
  assumes "itable_ok t"
  shows "(ino :: u64) < of_nat (length (it_inodes t)) \<longleftrightarrow> unat ino < length (it_inodes t)"
proof -
  have "length (it_inodes t) < 2 ^ 64" using assms by (simp add: itable_ok_def)
  then show ?thesis by (simp add: word_less_nat_alt)
qed

lemma itable_put_Ok:
  assumes "itable_ok t" "unat ino < length (it_inodes t)"
  shows "itable_put t ino i = (Ok (), t\<lparr>it_inodes := (it_inodes t)[unat ino := i],
    it_count := (if ino \<ge> it_count t then ino + 1 else it_count t)\<rparr>)"
  using assms ino_in_range [OF assms(1), of ino] by (simp add: itable_put_def not_le [symmetric])

lemma drop_update_replicate:
  assumes "drop n xs = replicate (length xs - n) x" "n \<le> k" "k < length xs"
  shows "drop (Suc k) (xs[k := y]) = replicate (length xs - Suc k) x"
proof -
  have "drop (Suc k) xs = drop (Suc k - n) (drop n xs)" using assms(2) by simp
  also have "\<dots> = replicate (length xs - Suc k) x" unfolding assms(1) using assms(2) by simp
  finally show ?thesis by simp
qed

lemma itable_put_ok:
  assumes "itable_ok t" "inode_typed i" "itable_put t ino i = (r, t')"
  shows "itable_ok t'" "length (it_inodes t') = length (it_inodes t)"
proof -
  have "itable_ok t' \<and> length (it_inodes t') = length (it_inodes t)"
  proof (cases "unat ino < length (it_inodes t)")
    case True
    note t' = itable_put_Ok [OF assms(1) True, of i]
    have typed: "list_all inode_typed ((it_inodes t)[unat ino := i])"
      using assms(1,2) by (auto simp: itable_ok_def list_all_iff dest: set_update_subset_insert [THEN subsetD])
    show ?thesis
    proof (cases "it_count t \<le> ino")
      case grow: True
      have "unat (ino + 1) = Suc (unat ino)"
        using True assms(1) unat_add_small [of ino 1] by (simp add: itable_ok_def)
      then show ?thesis
        using grow t' assms True typed drop_update_replicate [of "unat (it_count t)" "it_inodes t" inode_default "unat ino" i]
        by (simp add: itable_ok_def word_le_nat_alt)
    next
      case False
      then show ?thesis
        using t' assms True typed by (auto simp: itable_ok_def word_le_nat_alt)
    qed
  next
    case False
    then show ?thesis
      using assms ino_in_range [OF assms(1), of ino] by (simp add: itable_put_def not_less)
  qed
  then show "itable_ok t'" "length (it_inodes t') = length (it_inodes t)" by auto
qed

section \<open>The table snapshot\<close>

lemma marshal_slots_eq:
  "list_all inode_typed xs \<Longrightarrow> (i + length xs) * INODE_SIZE \<le> length dst \<Longrightarrow>
   marshal_slots i xs dst = copy_at (i * INODE_SIZE) (concat (map inode_enc xs)) dst"
proof (induction xs arbitrary: i dst)
  case Nil
  then show ?case by simp
next
  case (Cons x xs)
  let ?o = "i * INODE_SIZE"
  have fit: "?o + INODE_SIZE + length xs * INODE_SIZE \<le> length dst"
    using Cons.prems by (simp add: algebra_simps)
  have len: "length (concat (map inode_enc xs)) = length xs * INODE_SIZE"
    using Cons.prems by (intro length_concat_chunks) (simp add: list_all_iff)
  have "inode_marshal_into x (slice ?o ((i + 1) * INODE_SIZE) dst) = inode_enc x"
    using Cons.prems fit by (simp add: inode_marshal_into_eq)
  then have "marshal_slots i (x # xs) dst = marshal_slots (i + 1) xs (copy_at ?o (inode_enc x) dst)"
    by simp
  also have "\<dots> = copy_at ((i + 1) * INODE_SIZE) (concat (map inode_enc xs)) (copy_at ?o (inode_enc x) dst)"
    using fit Cons.prems by (intro Cons.IH) (auto simp: algebra_simps)
  also have "\<dots> = copy_at ?o (concat (map inode_enc (x # xs))) dst"
    using fit len Cons.prems copy_at_copy_at [of ?o "inode_enc x" "concat (map inode_enc xs)" dst]
    by (simp add: add.commute)
  finally show ?case .
qed

definition itable_enc :: "itable \<Rightarrow> bytes" where
  "itable_enc t = concat (map inode_enc (take (unat (it_count t)) (it_inodes t)))"

lemma itable_live_typed:
  "itable_ok t \<Longrightarrow> list_all inode_typed (take (unat (it_count t)) (it_inodes t))"
  by (auto simp: itable_ok_def list_all_iff dest: in_set_takeD)

lemma length_itable_enc [simp]: "itable_ok t \<Longrightarrow> length (itable_enc t) = itable_marshal_len t"
  using itable_live_typed [of t] length_concat_chunks [of "take (unat (it_count t)) (it_inodes t)" inode_enc INODE_SIZE]
  by (auto simp: itable_enc_def itable_marshal_len_def itable_ok_def list_all_iff)

lemma itable_marshal_into_eq:
  assumes "itable_ok t" "itable_marshal_len t \<le> length dst"
  shows "itable_marshal_into t dst = (itable_marshal_len t, itable_enc t @ drop (itable_marshal_len t) dst)"
proof -
  have "marshal_slots 0 (take (unat (it_count t)) (it_inodes t)) dst = copy_at 0 (itable_enc t) dst"
    using assms itable_live_typed [OF assms(1)]
    by (subst marshal_slots_eq) (auto simp: itable_enc_def itable_marshal_len_def itable_ok_def)
  then show ?thesis
    using assms by (simp add: itable_marshal_into_def itable_marshal_len_def copy_at_prefix)
qed

lemma itable_marshal_eq: "itable_ok t \<Longrightarrow> itable_marshal t = itable_enc t"
  by (simp add: itable_marshal_def itable_marshal_into_eq)

lemma unmarshal_slots_enc:
  assumes "list_all inode_typed xs" "i \<le> length xs" "list_all inode_typed ys" "length ys = length xs - i"
  shows "unmarshal_slots i ys (concat (map inode_enc xs)) = Ok (drop i xs)"
  using assms(2-)
proof (induction ys arbitrary: i)
  case Nil
  then show ?case by simp
next
  case (Cons y ys)
  then have i: "i < length xs" by simp
  have "slice (i * INODE_SIZE) ((i + 1) * INODE_SIZE) (concat (map inode_enc xs)) = inode_enc (xs ! i)"
    using assms(1) i slice_concat_chunk [of xs inode_enc INODE_SIZE i "[]"]
    by (simp add: list_all_iff add.commute)
  moreover have "inode_typed (xs ! i)" using assms(1) i by (simp add: list_all_length)
  moreover have "unmarshal_slots (i + 1) ys (concat (map inode_enc xs)) = Ok (drop (i + 1) xs)"
    using Cons.prems i by (intro Cons.IH) auto
  ultimately show ?case
    using Cons.prems i by (simp add: inode_unmarshal_enc Cons_nth_drop_Suc)
qed

lemma unmarshal_table_enc:
  assumes "itable_ok t"
  shows "unmarshal_table (itable_enc t) (itable_cap t) = Ok t"
proof -
  let ?n = "unat (it_count t)" and ?cap = "length (it_inodes t)"
  have ok: "?n \<le> ?cap" "?cap < 2 ^ 64" using assms by (auto simp: itable_ok_def)
  have cap: "unat (itable_cap t) = ?cap" using ok by (simp add: itable_cap_def)
  have len: "length (itable_enc t) = ?n * INODE_SIZE"
    using assms by (simp add: itable_marshal_len_def)
  have n: "length (itable_enc t) div INODE_SIZE = ?n" "length (itable_enc t) mod INODE_SIZE = 0"
    unfolding len by (simp_all add: INODE_SIZE_def)
  have "unmarshal_slots 0 (replicate ?n inode_default) (itable_enc t) = Ok (drop 0 (take ?n (it_inodes t)))"
    unfolding itable_enc_def
    using ok itable_live_typed [OF assms] by (intro unmarshal_slots_enc) (auto simp: list_all_length)
  moreover have "\<not> itable_cap t < it_count t"
    using ok cap by (simp add: word_less_nat_alt not_less)
  moreover have "take ?n (it_inodes t) @ replicate (?cap - ?n) inode_default = it_inodes t"
    using assms append_take_drop_id [of ?n "it_inodes t"] by (simp add: itable_ok_def)
  ultimately show ?thesis
    using n ok cap by (simp add: unmarshal_table_def Let_def itable_new_def min_def)
qed

lemma unmarshal_slots_typed:
  "unmarshal_slots i ys b = Ok xs \<Longrightarrow> list_all inode_typed ys \<Longrightarrow>
   list_all inode_typed xs \<and> length xs = length ys"
  by (induction ys arbitrary: i xs) (auto simp: res_bind_eq_Ok dest: inode_unmarshal_typed)

lemma unmarshal_table_ok:
  assumes "unmarshal_table b capacity = Ok t" "length b < 2 ^ 64"
  shows "itable_ok t" "length (it_inodes t) = unat capacity"
proof -
  let ?n = "length b div INODE_SIZE"
  obtain xs where xs: "unmarshal_slots 0 (take ?n (it_inodes (itable_new capacity))) b = Ok xs"
    and t: "t = itable_new capacity\<lparr>it_inodes := xs @ drop ?n (it_inodes (itable_new capacity)),
      it_count := of_nat ?n\<rparr>"
    and le: "\<not> of_nat ?n > capacity"
    using assms by (auto simp: unmarshal_table_def Let_def res_bind_eq_Ok split: if_splits)
  have n: "unat (of_nat ?n :: u64) = ?n"
    using assms(2) le_less_trans [OF div_le_dividend] by (intro unat_of_nat_small) simp
  then have le': "?n \<le> unat capacity" using le by (simp add: word_le_nat_alt not_less)
  have len: "length xs = ?n" "list_all inode_typed xs"
    using unmarshal_slots_typed [OF xs] le' by (auto simp: itable_new_def list_all_length)
  show l: "length (it_inodes t) = unat capacity" using t len le' by (simp add: itable_new_def)
  have "list_all inode_typed (it_inodes t)"
    using len t by (auto simp: itable_new_def list_all_iff dest: in_set_dropD)
  then show "itable_ok t"
    using unsigned_less [of capacity, where ?'a = nat] l t len le' n
    by (simp add: itable_ok_def itable_new_def)
qed

section \<open>Properties\<close>

text \<open>C34. Storing extents and reading them back through the on-disk inode: at most \<open>INLINE_CAP\<close>
  extents (none of them empty) survive \<open>set_extents\<close>, \<open>marshal_binary\<close>, \<open>from_bytes\<close>
  and \<open>extents\<close> unchanged, every other field included; more extents are refused and the inode is
  left alone.\<close>

theorem inode_disk_round_trip:
  assumes "inode_typed i" "\<forall>e \<in> set es. ex_blocks e \<noteq> 0" "set_extents i es = (r, i')"
  shows "if INLINE_CAP < length es then r = Err TooManyExtents \<and> i' = i
    else r = Ok () \<and> inode_from_bytes (inode_marshal_binary i') = Ok i' \<and> extents i' = es \<and>
      i'\<lparr>block_map := block_map i, flags := flags i\<rparr> = i"
proof (cases "INLINE_CAP < length es")
  case True
  then show ?thesis using assms by (simp add: set_extents_def)
next
  case False
  have len: "length (concat (map extent_enc es)) = length es * EXTENT_SIZE"
    by (intro length_concat_chunks) simp
  have small: "length es \<le> 4" using False by (simp add: INLINE_CAP_def BLOCK_MAP_BYTES_def EXTENT_SIZE_def)
  have "put_extents 0 es (replicate BLOCK_MAP_BYTES 0) =
      copy_at (0 * EXTENT_SIZE) (concat (map extent_enc es)) (replicate BLOCK_MAP_BYTES 0)"
    using small by (intro put_extents_eq) (simp add: BLOCK_MAP_BYTES_def EXTENT_SIZE_def)
  also have "\<dots> = concat (map extent_enc es) @ replicate ((INLINE_CAP - length es) * EXTENT_SIZE) 0"
    using len small
    by (simp add: copy_at_prefix BLOCK_MAP_BYTES_def EXTENT_SIZE_def INLINE_CAP_def diff_mult_distrib)
  finally have bm: "block_map i' = concat (map extent_enc es) @ replicate ((INLINE_CAP - length es) * EXTENT_SIZE) 0"
    using assms(3) False by (auto simp: set_extents_def Let_def)
  then have "extents i' = es"
    using get_extents_enc [OF assms(2) _ _ bm, of 0] False by (simp add: extents_def)
  moreover have "length (block_map i') = BLOCK_MAP_BYTES"
    using bm len small by (simp add: BLOCK_MAP_BYTES_def EXTENT_SIZE_def INLINE_CAP_def diff_mult_distrib)
  then have typed: "inode_typed i'"
    using assms(1,3) False by (auto simp: inode_typed_def set_extents_def Let_def)
  then have "inode_from_bytes (inode_marshal_binary i') = Ok i'"
    by (simp add: inode_from_bytes_def inode_marshal_binary_eq inode_unmarshal_enc)
  moreover have "r = Ok ()" "i'\<lparr>block_map := block_map i, flags := flags i\<rparr> = i"
    using assms(3) False by (auto simp: set_extents_def Let_def)
  ultimately show ?thesis using False by simp
qed

theorem inode_disk_round_trip_witness:
  "\<exists>i'. set_extents (inode_default\<lparr>uid := 1000, flags := 2\<rparr>)
      [\<lparr>ex_start = 100, ex_blocks = 8, ex_logical = 32768\<rparr>] = (Ok (), i') \<and>
    inode_from_bytes (inode_marshal_binary i') = Ok i' \<and>
    extents i' = [\<lparr>ex_start = 100, ex_blocks = 8, ex_logical = 32768\<rparr>] \<and> uid i' = 1000"
proof -
  let ?i = "inode_default\<lparr>uid := 1000, flags := 2\<rparr>"
  let ?es = "[\<lparr>ex_start = 100, ex_blocks = 8, ex_logical = 32768\<rparr>] :: extent list"
  obtain r i' where s: "set_extents ?i ?es = (r, i')" by fastforce
  have "inode_typed ?i" by (simp add: inode_typed_def inode_default_def)
  then have "r = Ok () \<and> inode_from_bytes (inode_marshal_binary i') = Ok i' \<and> extents i' = ?es"
    using inode_disk_round_trip [OF _ _ s]
    by (simp add: INLINE_CAP_def BLOCK_MAP_BYTES_def EXTENT_SIZE_def)
  moreover have "uid i' = 1000"
    using s by (auto simp: set_extents_def Let_def split: if_splits)
  ultimately show ?thesis using s by auto
qed

text \<open>A table filled by \<open>put\<close> from an empty one.\<close>

definition itable_puts :: "(u64 \<times> inode) list \<Rightarrow> itable \<Rightarrow> itable" where
  "itable_puts ps t = fold (\<lambda>(ino, i) t. snd (itable_put t ino i)) ps t"

lemma itable_puts_ok:
  "itable_ok t \<Longrightarrow> \<forall>(ino, i) \<in> set ps. inode_typed i \<Longrightarrow>
   itable_ok (itable_puts ps t) \<and> length (it_inodes (itable_puts ps t)) = length (it_inodes t)"
proof (induction ps arbitrary: t)
  case Nil
  then show ?case by (simp add: itable_puts_def)
next
  case (Cons p ps)
  obtain ino i where p: "p = (ino, i)" by (cases p)
  obtain r t' where put: "itable_put t ino i = (r, t')" by fastforce
  have "itable_ok t'" "length (it_inodes t') = length (it_inodes t)"
    using itable_put_ok [OF _ _ put] Cons.prems p by auto
  then show ?case using Cons.IH [of t'] Cons.prems put p by (simp add: itable_puts_def)
qed

text \<open>C35. A table filled by any sequence of \<open>put\<close>s: the snapshot of its touched slots decodes
  to the same table, and at a capacity below its high-water mark the snapshot is refused.\<close>

theorem itable_round_trip:
  assumes "\<forall>(ino, i) \<in> set ps. inode_typed i" "t = itable_puts ps (itable_new capacity)"
  shows "length (itable_marshal t) = itable_marshal_len t \<and>
    unmarshal_table (itable_marshal t) capacity = Ok t \<and>
    (\<forall>c < it_count t. unmarshal_table (itable_marshal t) c = Err InodeOutOfRange)"
proof -
  have ok: "itable_ok t" "length (it_inodes t) = unat capacity"
    using itable_puts_ok [OF itable_new_ok assms(1), of capacity] assms(2)
    by (auto simp: itable_new_def)
  have "unmarshal_table (itable_enc t) c = Err InodeOutOfRange" if "c < it_count t" for c
    using that ok(1) by (simp add: unmarshal_table_def itable_marshal_len_def INODE_SIZE_def Let_def)
  moreover have "itable_cap t = capacity" using ok by (simp add: itable_cap_def)
  ultimately show ?thesis
    using ok(1) unmarshal_table_enc [OF ok(1)] by (simp add: itable_marshal_eq)
qed

theorem itable_round_trip_witness:
  "unmarshal_table (itable_marshal (itable_puts [(1, inode_default\<lparr>nlink := 3\<rparr>)] (itable_new 4))) 4 =
    Ok (itable_puts [(1, inode_default\<lparr>nlink := 3\<rparr>)] (itable_new 4))"
  using itable_round_trip [of "[(1, inode_default\<lparr>nlink := 3\<rparr>)]" _ 4, OF _ refl]
  by (simp add: inode_typed_def inode_default_def)

end
