(* ===== verification/Bloom.thy ===== *)
theory Bloom
  imports Prelude Complex_Main "HOL-Library.While_Combinator"
begin

text \<open>
  The blocked Bloom filter of \<^verbatim>\<open>rust/bloomfs-bloom\<close>.  The 128-bit XXH3 hash is an argument
  of the model and nothing is assumed of it.  The floating-point arithmetic is an argument too, so that
  what is proved of the tuning holds for the rounded arithmetic of the machine.

  The lemmas show that every probe stays inside the filter's array, that a filter has no false
  negatives (the contract \<open>approx_set\<close> the directory relies on), and what the tuning loops guarantee
  of the number of blocks.
\<close>

section \<open>The filter\<close>

definition BLOCK_BITS :: u32 where
  "BLOCK_BITS = 512"

definition BLOCK_WORDS :: u64 where
  "BLOCK_WORDS = ucast (BLOCK_BITS div 64)"

definition BLOCK_MASK :: u32 where
  "BLOCK_MASK = BLOCK_BITS - 1"

type_synonym hash128 = "bytes \<Rightarrow> u64 \<Rightarrow> u128"

record blocked_filter =
  bf_blocks :: "u64 list"
  bf_num_blocks :: u64
  bf_k :: u32
  bf_seed :: u64

definition bf_alloc :: "u64 \<Rightarrow> u32 \<Rightarrow> u64 \<Rightarrow> blocked_filter" where
  "bf_alloc nb k seed =
     (let nb = max nb 1;
          words = unat (nb * BLOCK_WORDS)
      in \<lparr>bf_blocks = replicate words 0, bf_num_blocks = nb, bf_k = max k 1, bf_seed = seed\<rparr>)"

definition block_offset :: "hash128 \<Rightarrow> blocked_filter \<Rightarrow> bytes \<Rightarrow> u64 \<times> u32 \<times> u32" where
  "block_offset xxh3 f data =
     (let h = xxh3 data (bf_seed f);
          hi = ucast (drop_bit 64 h) :: u64;
          lo = ucast h :: u64;
          block_idx = ucast (drop_bit 64 (ucast hi * ucast (bf_num_blocks f) :: u128)) :: u64;
          off = block_idx * BLOCK_WORDS;
          h1 = ucast lo;
          h2 = ucast (drop_bit 32 lo) OR 1
      in (off, h1, h2))"

text \<open>The loops of \<open>add\<close> and \<open>test\<close>; an index outside the array panics.\<close>

fun add_probes :: "u32 list \<Rightarrow> u64 \<Rightarrow> u32 \<Rightarrow> u32 \<Rightarrow> u64 list \<Rightarrow> (unit, u64 list) res" where
  "add_probes [] off a b bl = Ok bl"
| "add_probes (i # is) off a b bl =
     (let bit = a AND BLOCK_MASK;
          w = unat (off + ucast (drop_bit 6 bit))
      in if w \<ge> length bl then Panic
         else add_probes is off (a + b) (b + i) (bl[w := bl ! w OR push_bit (unat (bit AND 63)) 1]))"

fun test_probes :: "u32 list \<Rightarrow> u64 \<Rightarrow> u32 \<Rightarrow> u32 \<Rightarrow> u64 list \<Rightarrow> (unit, bool) res" where
  "test_probes [] off a b bl = Ok True"
| "test_probes (i # is) off a b bl =
     (let bit = a AND BLOCK_MASK;
          w = unat (off + ucast (drop_bit 6 bit))
      in if w \<ge> length bl then Panic
         else if bl ! w AND push_bit (unat (bit AND 63)) 1 = 0 then Ok False
         else test_probes is off (a + b) (b + i) bl)"

definition probe_range :: "blocked_filter \<Rightarrow> u32 list" where
  "probe_range f = map of_nat [0..<unat (bf_k f)]"

definition bf_add_checked :: "hash128 \<Rightarrow> bytes \<Rightarrow> blocked_filter \<Rightarrow> (unit, blocked_filter) res" where
  "bf_add_checked xxh3 data f =
     (case block_offset xxh3 f data of (off, a, b) \<Rightarrow>
        res_bind (add_probes (probe_range f) off a b (bf_blocks f)) (\<lambda>bl. Ok (f\<lparr>bf_blocks := bl\<rparr>)))"

definition bf_test_checked :: "hash128 \<Rightarrow> blocked_filter \<Rightarrow> bytes \<Rightarrow> (unit, bool) res" where
  "bf_test_checked xxh3 f data =
     (case block_offset xxh3 f data of (off, a, b) \<Rightarrow>
        test_probes (probe_range f) off a b (bf_blocks f))"

text \<open>Their values.  No operation panics on a filter that was built by \<open>new_blocked_tuned\<close>
  (\<open>filter_one_cache_line\<close> below), so the code above the filter is modelled with the values.\<close>

definition bf_add :: "hash128 \<Rightarrow> bytes \<Rightarrow> blocked_filter \<Rightarrow> blocked_filter" where
  "bf_add xxh3 data f = (case bf_add_checked xxh3 data f of Ok g \<Rightarrow> g | _ \<Rightarrow> f)"

definition bf_test :: "hash128 \<Rightarrow> blocked_filter \<Rightarrow> bytes \<Rightarrow> bool" where
  "bf_test xxh3 f data = (case bf_test_checked xxh3 f data of Ok r \<Rightarrow> r | _ \<Rightarrow> False)"

definition bf_cap :: "blocked_filter \<Rightarrow> u64" where
  "bf_cap f = bf_num_blocks f * ucast BLOCK_BITS"

section \<open>Floating-point numbers\<close>

text \<open>An \<open>f64\<close> is its bit pattern.  The arithmetic of the machine is the record \<open>f64_ops\<close>: its literals,
  the conversions from an integer and to an \<open>i64\<close>, the operations, and the functions \<open>ln\<close>, \<open>exp\<close> and
  \<open>powf\<close>, whose precision Rust leaves to the platform.  Nothing is assumed of any of them, so rounding,
  overflow and NaN are whatever they are there.  Comparisons go through \<open>partial_cmp\<close>, which is \<open>None\<close>
  when an operand is a NaN; then neither \<open>>\<close> nor \<open>\<le>\<close> holds.\<close>

type_synonym f64 = u64

datatype ordering = Less | Equal | Greater

record f64_ops =
  f_lit :: "rat \<Rightarrow> f64"
  f_of_int :: "int \<Rightarrow> f64"
  f_to_i64 :: "f64 \<Rightarrow> int"
  f_cmp :: "f64 \<Rightarrow> f64 \<Rightarrow> ordering option"
  f_add :: "f64 \<Rightarrow> f64 \<Rightarrow> f64"
  f_sub :: "f64 \<Rightarrow> f64 \<Rightarrow> f64"
  f_mul :: "f64 \<Rightarrow> f64 \<Rightarrow> f64"
  f_div :: "f64 \<Rightarrow> f64 \<Rightarrow> f64"
  f_neg :: "f64 \<Rightarrow> f64"
  f_sqrt :: "f64 \<Rightarrow> f64"
  f_ln :: "f64 \<Rightarrow> f64"
  f_exp :: "f64 \<Rightarrow> f64"
  f_powf :: "f64 \<Rightarrow> f64 \<Rightarrow> f64"

definition f_gt :: "f64_ops \<Rightarrow> f64 \<Rightarrow> f64 \<Rightarrow> bool" where
  "f_gt F x y = (f_cmp F x y = Some Greater)"

definition f_le :: "f64_ops \<Rightarrow> f64 \<Rightarrow> f64 \<Rightarrow> bool" where
  "f_le F x y = (f_cmp F x y = Some Less \<or> f_cmp F x y = Some Equal)"

lemma f_le_not_gt: "f_le F x y \<Longrightarrow> \<not> f_gt F x y"
  by (auto simp: f_le_def f_gt_def)

section \<open>Tuning\<close>

text \<open>The estimate, the average of a block's rate over a Poisson load, in the order of evaluation of
  the code.\<close>

fun estimate_loop :: "f64_ops \<Rightarrow> int list \<Rightarrow> f64 \<Rightarrow> f64 \<Rightarrow> f64 \<Rightarrow> f64 \<Rightarrow> f64" where
  "estimate_loop F [] kf log_lambda log_pmf acc = acc"
| "estimate_loop F (j # js) kf log_lambda log_pmf acc =
     (let log_pmf = (if j > 0 then f_add F log_pmf (f_sub F log_lambda (f_ln F (f_of_int F j))) else log_pmf);
          pmf = f_exp F log_pmf;
          B = f_of_int F (uint BLOCK_BITS);
          inner = f_powf F (f_sub F (f_lit F 1) (f_exp F (f_div F (f_mul F (f_neg F kf) (f_of_int F j)) B))) kf
      in estimate_loop F js kf log_lambda log_pmf (f_add F acc (f_mul F pmf inner)))"

definition estimate_blocked_fp :: "f64_ops \<Rightarrow> u64 \<Rightarrow> u64 \<Rightarrow> u32 \<Rightarrow> f64" where
  "estimate_blocked_fp F n nb k =
     (let nb = max nb 1;
          lambda = f_div F (f_of_int F (uint n)) (f_of_int F (uint nb))
      in if f_gt F lambda (f_lit F 1000) then f_lit F 1
         else let kf = f_of_int F (uint k);
                  hi = f_to_i64 F (f_add F (f_add F lambda (f_mul F (f_lit F 10) (f_sqrt F lambda))) (f_lit F 10))
              in estimate_loop F [0..hi] kf (f_ln F lambda) (f_neg F lambda) (f_lit F 0))"

text \<open>The doubling loop and the binary search of \<open>min_blocks_for_k\<close>; the flag is the \<open>break\<close>.\<close>

definition double_hi :: "f64_ops \<Rightarrow> (u64 \<Rightarrow> f64) \<Rightarrow> f64 \<Rightarrow> u64" where
  "double_hi F fp_at fp = fst (while
     (\<lambda>(hi, brk). \<not> brk \<and> f_gt F (fp_at hi) fp)
     (\<lambda>(hi, brk). let hi = hi * 2 in (hi, hi > push_bit 42 1))
     (1, False))"

definition search_blocks :: "f64_ops \<Rightarrow> (u64 \<Rightarrow> f64) \<Rightarrow> f64 \<Rightarrow> u64 \<Rightarrow> u64 \<Rightarrow> u64" where
  "search_blocks F fp_at fp lo hi = fst (while
     (\<lambda>(lo, hi). lo < hi)
     (\<lambda>(lo, hi). let mid = lo + (hi - lo) div 2 in if f_le F (fp_at mid) fp then (lo, mid) else (mid + 1, hi))
     (lo, hi))"

definition min_blocks_for_k :: "f64_ops \<Rightarrow> u64 \<Rightarrow> f64 \<Rightarrow> u32 \<Rightarrow> u64" where
  "min_blocks_for_k F n fp k =
     (let fp_at = (\<lambda>nb. estimate_blocked_fp F n nb k);
          hi = double_hi F fp_at fp;
          lo = max (hi div 2) 1
      in search_blocks F fp_at fp lo hi)"

definition tune_step :: "f64_ops \<Rightarrow> u64 \<Rightarrow> f64 \<Rightarrow> u32 \<Rightarrow> u64 \<times> u64 \<times> u32 \<Rightarrow> u64 \<times> u64 \<times> u32" where
  "tune_step F n internal k best =
     (case best of (best_bits, best_blocks, best_k) \<Rightarrow>
        let nb = min_blocks_for_k F n internal k;
            bits = nb * ucast BLOCK_BITS
        in if bits < best_bits then (bits, nb, k) else (best_bits, best_blocks, best_k))"

definition new_blocked_tuned :: "f64_ops \<Rightarrow> u64 \<Rightarrow> f64 \<Rightarrow> blocked_filter" where
  "new_blocked_tuned F n fp =
     (let n = (if n = 0 then 1 else n);
          internal = f_mul F fp (f_lit F (3 / 4));
          (best_bits, best_blocks, best_k) =
            fold (tune_step F n internal) (map of_nat [1..<21]) (- 1, 0, 1)
      in bf_alloc best_blocks best_k 0)"

section \<open>Probes\<close>

text \<open>The positions the two loops visit: a word of the array and a bit of it.\<close>

fun probe_seq :: "u32 list \<Rightarrow> u64 \<Rightarrow> u32 \<Rightarrow> u32 \<Rightarrow> (nat \<times> nat) list" where
  "probe_seq [] off a b = []"
| "probe_seq (i # is) off a b =
     (let bit = a AND BLOCK_MASK
      in (unat (off + ucast (drop_bit 6 bit)), unat (bit AND 63)) # probe_seq is off (a + b) (b + i))"

definition has_bit :: "u64 list \<Rightarrow> nat \<times> nat \<Rightarrow> bool" where
  "has_bit bl p = bit (bl ! fst p) (snd p)"

definition put_bit :: "nat \<times> nat \<Rightarrow> u64 list \<Rightarrow> u64 list" where
  "put_bit p bl = bl[fst p := bl ! fst p OR push_bit (snd p) 1]"

lemma and_push_bit_zero:
  "j < 64 \<Longrightarrow> (w :: u64) AND push_bit j 1 = 0 \<longleftrightarrow> \<not> bit w j"
  by (auto simp: bit_eq_iff [where ?'a = u64] bit_simps)

lemma and_63_less: "unat ((x :: u32) AND 63) < 64"
proof -
  have "x AND 63 = take_bit 6 x" by (simp add: take_bit_eq_mask mask_eq_exp_minus_1)
  then show ?thesis by (simp add: take_bit_eq_mod unat_mod)
qed

lemma add_probes_eq:
  "\<forall>(w, j) \<in> set (probe_seq is off a b). w < length bl \<Longrightarrow> add_probes is off a b bl = Ok (fold put_bit (probe_seq is off a b) bl)"
  by (induction "is" off a b bl rule: add_probes.induct) (simp_all add: Let_def put_bit_def not_le)

lemma test_probes_eq:
  "\<forall>(w, j) \<in> set (probe_seq is off a b). w < length bl \<Longrightarrow> test_probes is off a b bl = Ok (list_all (has_bit bl) (probe_seq is off a b))"
  by (induction "is" off a b bl rule: test_probes.induct)
    (simp_all add: Let_def not_le has_bit_def and_push_bit_zero [OF and_63_less, simplified] and_63_less)

text \<open>The shape of a filter: a whole number of cache lines, at least one, at least one probe.\<close>

definition bf_ok :: "blocked_filter \<Rightarrow> bool" where
  "bf_ok f = (length (bf_blocks f) = unat (bf_num_blocks f) * 8 \<and> 0 < unat (bf_num_blocks f) \<and>
     unat (bf_num_blocks f) * 8 < 2 ^ 64 \<and> 0 < unat (bf_k f))"

lemma BLOCK_WORDS_eq: "BLOCK_WORDS = 8"
  by (simp add: BLOCK_WORDS_def BLOCK_BITS_def)

lemma line_word_less: "unat (ucast (drop_bit 6 ((a :: u32) AND BLOCK_MASK)) :: u64) < 8"
proof -
  have "a AND BLOCK_MASK = take_bit 9 a"
    by (simp add: take_bit_eq_mask mask_eq_exp_minus_1 BLOCK_MASK_def BLOCK_BITS_def)
  then have "unat (a AND BLOCK_MASK) < 512" by (simp add: take_bit_eq_mod unat_mod)
  then have "unat (drop_bit 6 (a AND BLOCK_MASK)) < 8"
    unfolding unat_drop_bit by (simp add: less_mult_imp_div_less)
  then show ?thesis
    unfolding unsigned_ucast_eq by (rule le_less_trans [OF take_bit_nat_less_eq_self])
qed

text \<open>The fastrange reduction: the widening product is below \<open>2 ^ 64\<close> times the block count.\<close>

lemma fastrange_less:
  fixes hi nb :: u64
  assumes "0 < unat nb"
  shows "unat (ucast (drop_bit 64 (ucast hi * ucast nb :: u128)) :: u64) < unat nb"
proof -
  let ?p = "unat hi * unat nb"
  have hi: "unat hi < 2 ^ 64" and nb: "unat nb < 2 ^ 64"
    using unsigned_less [of hi, where ?'a = nat] unsigned_less [of nb, where ?'a = nat] by simp_all
  have lt: "?p < 2 ^ 64 * unat nb" using hi assms by (intro mult_strict_right_mono) auto
  also have "\<dots> \<le> 2 ^ 64 * 2 ^ 64" using nb by (intro mult_left_mono) auto
  finally have "?p < 2 ^ 128" by simp
  then have "unat (ucast hi * ucast nb :: u128) = ?p"
    by (simp add: unat_word_ariths unsigned_ucast_eq take_bit_nat_eq_self
      order_less_trans [OF hi] order_less_trans [OF nb])
  then have "unat (drop_bit 64 (ucast hi * ucast nb :: u128)) = ?p div 2 ^ 64"
    by (simp add: unat_drop_bit)
  moreover have "?p div 2 ^ 64 < unat nb" using lt by (simp add: less_mult_imp_div_less mult.commute)
  ultimately show ?thesis
    using nb by (simp add: unsigned_ucast_eq take_bit_nat_eq_self)
qed

lemma block_offset_line:
  assumes "bf_ok f" "block_offset xxh3 f data = (off, a, b)"
  shows "\<exists>line < unat (bf_num_blocks f). unat off = line * 8"
proof -
  define h where "h = xxh3 data (bf_seed f)"
  define idx where "idx = (ucast (drop_bit 64 (ucast (ucast (drop_bit 64 h) :: u64) *
    ucast (bf_num_blocks f) :: u128)) :: u64)"
  have lt: "unat idx < unat (bf_num_blocks f)"
    using assms(1) fastrange_less [of "bf_num_blocks f"] by (simp add: idx_def bf_ok_def)
  have "off = idx * 8"
    using assms(2) by (simp add: block_offset_def Let_def idx_def h_def BLOCK_WORDS_eq)
  moreover have "unat idx * 8 < 2 ^ 64" using lt assms(1) by (simp add: bf_ok_def)
  ultimately show ?thesis using lt by (auto simp: unat_word_ariths)
qed

text \<open>Every position is inside the array, in the cache line the hash selects.\<close>

lemma probe_seq_bounds:
  assumes "line < nb" "nb * 8 < 2 ^ 64"
  shows "unat off = line * 8 \<Longrightarrow> (w, j) \<in> set (probe_seq is off a b) \<Longrightarrow> w div 8 = line \<and> w < nb * 8 \<and> j < 64"
proof (induction "is" off a b rule: probe_seq.induct)
  case (1 off a b)
  then show ?case by simp
next
  case (2 i "is" off a b)
  let ?q = "ucast (drop_bit 6 (a AND BLOCK_MASK)) :: u64"
  have q: "unat ?q < 8" by (rule line_word_less)
  have fit: "line * 8 + 8 \<le> nb * 8" using assms(1) by linarith
  then have "unat off + unat ?q < 2 ^ LENGTH(64)" using q assms(2) 2(2) by simp
  then have "unat (off + ?q) = line * 8 + unat ?q" using 2 by (simp add: unat_add_small)
  then show ?case using 2 q fit and_63_less [of "a AND BLOCK_MASK"] by (auto simp: Let_def)
qed

lemma bf_probe_bounds:
  assumes "bf_ok f" "block_offset xxh3 f data = (off, a, b)"
    and "(w, j) \<in> set (probe_seq (probe_range f) off a b)"
  shows "w < length (bf_blocks f)" "j < 64"
  using block_offset_line [OF assms(1,2)] assms(1,3) probe_seq_bounds [of _ "unat (bf_num_blocks f)"]
  by (auto simp: bf_ok_def)

lemma length_put_bit [simp]: "length (put_bit p bl) = length bl"
  by (simp add: put_bit_def)

lemma has_bit_put_bit:
  "fst p < length bl \<Longrightarrow> snd p < 64 \<Longrightarrow> has_bit (put_bit p bl) q \<longleftrightarrow> q = p \<or> has_bit bl q"
  by (cases p; cases q) (auto simp: has_bit_def put_bit_def bit_simps nth_list_update)

lemma has_bit_fold:
  "(\<And>w j. (w, j) \<in> set ps \<Longrightarrow> w < length bl \<and> j < 64) \<Longrightarrow>
   has_bit (fold put_bit ps bl) q \<longleftrightarrow> q \<in> set ps \<or> has_bit bl q"
proof (induction ps arbitrary: bl)
  case Nil
  then show ?case by simp
next
  case (Cons p ps)
  have "has_bit (fold put_bit ps (put_bit p bl)) q \<longleftrightarrow> q \<in> set ps \<or> has_bit (put_bit p bl) q"
    using Cons.prems by (intro Cons.IH) auto
  then show ?case using Cons.prems [of "fst p" "snd p"] by (simp add: has_bit_put_bit) blast
qed

lemma block_offset_blocks [simp]: "block_offset xxh3 (f\<lparr>bf_blocks := bl\<rparr>) = block_offset xxh3 f"
  by (rule ext) (simp add: block_offset_def)

lemma probe_range_blocks [simp]: "probe_range (f\<lparr>bf_blocks := bl\<rparr>) = probe_range f"
  by (simp add: probe_range_def)

lemma length_fold_put_bit [simp]: "length (fold put_bit ps bl) = length bl"
  by (induction ps arbitrary: bl) auto

lemma bf_add_eq:
  assumes "bf_ok f" "block_offset xxh3 f data = (off, a, b)"
  shows "bf_add_checked xxh3 data f = Ok (f\<lparr>bf_blocks := fold put_bit (probe_seq (probe_range f) off a b) (bf_blocks f)\<rparr>)"
    "bf_add xxh3 data f = f\<lparr>bf_blocks := fold put_bit (probe_seq (probe_range f) off a b) (bf_blocks f)\<rparr>"
proof -
  have "\<forall>(w, j) \<in> set (probe_seq (probe_range f) off a b). w < length (bf_blocks f)" using bf_probe_bounds [OF assms] by auto
  then show "bf_add_checked xxh3 data f = Ok (f\<lparr>bf_blocks := fold put_bit (probe_seq (probe_range f) off a b) (bf_blocks f)\<rparr>)"
    using assms(2) by (simp add: bf_add_checked_def add_probes_eq)
  then show "bf_add xxh3 data f = f\<lparr>bf_blocks := fold put_bit (probe_seq (probe_range f) off a b) (bf_blocks f)\<rparr>"
    by (simp add: bf_add_def)
qed

lemma bf_test_eq:
  assumes "bf_ok f" "block_offset xxh3 f data = (off, a, b)"
  shows "bf_test_checked xxh3 f data = Ok (list_all (has_bit (bf_blocks f)) (probe_seq (probe_range f) off a b))"
    "bf_test xxh3 f data \<longleftrightarrow> list_all (has_bit (bf_blocks f)) (probe_seq (probe_range f) off a b)"
proof -
  have "\<forall>(w, j) \<in> set (probe_seq (probe_range f) off a b). w < length (bf_blocks f)" using bf_probe_bounds [OF assms] by auto
  then show "bf_test_checked xxh3 f data = Ok (list_all (has_bit (bf_blocks f)) (probe_seq (probe_range f) off a b))"
    using assms(2) by (simp add: bf_test_checked_def test_probes_eq)
  then show "bf_test xxh3 f data \<longleftrightarrow> list_all (has_bit (bf_blocks f)) (probe_seq (probe_range f) off a b)"
    by (simp add: bf_test_def)
qed

lemma bf_ok_blocks: "length bl = length (bf_blocks f) \<Longrightarrow> bf_ok (f\<lparr>bf_blocks := bl\<rparr>) = bf_ok f"
  by (simp add: bf_ok_def)

lemma bf_add_ok: "bf_ok f \<Longrightarrow> bf_ok (bf_add xxh3 data f)"
  by (cases "block_offset xxh3 f data") (simp add: bf_add_eq bf_ok_blocks)

lemma bf_test_add:
  assumes "bf_ok f" "x = data \<or> bf_test xxh3 f x"
  shows "bf_test xxh3 (bf_add xxh3 data f) x"
proof -
  obtain off a b where d: "block_offset xxh3 f data = (off, a, b)" by (cases "block_offset xxh3 f data")
  obtain off' a' b' where x: "block_offset xxh3 f x = (off', a', b')" by (cases "block_offset xxh3 f x")
  let ?g = "f\<lparr>bf_blocks := fold put_bit (probe_seq (probe_range f) off a b) (bf_blocks f)\<rparr>"
  have "has_bit (bf_blocks ?g) q \<longleftrightarrow> q \<in> set (probe_seq (probe_range f) off a b) \<or> has_bit (bf_blocks f) q" for q
    using bf_probe_bounds [OF assms(1) d] by (simp, intro has_bit_fold) blast
  moreover have "bf_ok ?g" "block_offset xxh3 ?g x = (off', a', b')" using assms(1) x by (simp_all add: bf_ok_blocks)
  note bf_test_eq(2) [OF this]
  ultimately show ?thesis
    using assms(2) d x bf_add_eq(2) [OF assms(1) d] bf_test_eq(2) [OF assms(1) x] by (auto simp: list_all_iff)
qed

section \<open>The contract: no false negatives\<close>

locale approx_set =
  fixes ok :: "'f \<Rightarrow> bool"
    and add :: "'k \<Rightarrow> 'f \<Rightarrow> 'f"
    and test :: "'f \<Rightarrow> 'k \<Rightarrow> bool"
  assumes add_ok: "ok f \<Longrightarrow> ok (add x f)"
    and test_added: "ok f \<Longrightarrow> test (add x f) x"
    and test_kept: "ok f \<Longrightarrow> test f y \<Longrightarrow> test (add x f) y"
begin

text \<open>A filter \<open>covers\<close> a set of keys when it tests positive on all of them.\<close>

definition covers :: "'f \<Rightarrow> 'k set \<Rightarrow> bool" where
  "covers f ks = (ok f \<and> (\<forall>x \<in> ks. test f x))"

lemma covers_add: "covers f ks \<Longrightarrow> covers (add x f) (insert x ks)"
  by (auto simp: covers_def intro: add_ok test_added test_kept)

lemma covers_mono: "covers f ks \<Longrightarrow> ks' \<subseteq> ks \<Longrightarrow> covers f ks'"
  by (auto simp: covers_def)

lemma covers_fold: "ok f \<Longrightarrow> covers (fold add xs f) (set xs)"
proof (induction xs rule: rev_induct)
  case Nil
  then show ?case by (simp add: covers_def)
next
  case (snoc x xs)
  then show ?case using covers_add [of "fold add xs f" "set xs" x] by simp
qed

lemma covers_absent: "covers f ks \<Longrightarrow> \<not> test f x \<Longrightarrow> x \<notin> ks"
  by (auto simp: covers_def)

end

interpretation bloom: approx_set bf_ok "bf_add xxh3" "bf_test xxh3" for xxh3
  by unfold_locales (auto intro: bf_add_ok bf_test_add)

section \<open>The tuning loops\<close>

lemma unat_pow2 [simp]: "e < 64 \<Longrightarrow> unat ((2 :: u64) ^ e) = 2 ^ e"
proof -
  assume "e < 64"
  then have "(2 :: nat) ^ e < 2 ^ 64" by (intro power_strict_increasing) auto
  then have "unat (of_nat (2 ^ e) :: u64) = 2 ^ e" by (intro unat_of_nat_small) simp
  then show ?thesis by simp
qed

definition doubled :: "f64_ops \<Rightarrow> (u64 \<Rightarrow> f64) \<Rightarrow> f64 \<Rightarrow> u64 \<times> bool \<Rightarrow> nat \<Rightarrow> bool" where
  "doubled F fp_at fp s e = (fst s = 2 ^ e \<and> e \<le> 43 \<and> (snd s \<longleftrightarrow> e = 43) \<and> (\<forall>e' < e. f_gt F (fp_at (2 ^ e')) fp))"

lemma doubled_step:
  assumes "doubled F fp_at fp (hi, brk) e" "\<not> brk" "f_gt F (fp_at hi) fp"
  shows "doubled F fp_at fp (hi * 2, hi * 2 > push_bit 42 1) (Suc e)" "e < 43"
proof -
  have e: "hi = 2 ^ e" "e < 43" using assms by (auto simp: doubled_def)
  have u: "unat (2 ^ Suc e :: u64) = 2 ^ Suc e" "unat (2 ^ 42 :: u64) = 2 ^ 42"
    using e by (intro unat_pow2; simp)+
  have "(2 :: nat) ^ 42 < 2 ^ Suc e \<longleftrightarrow> 42 < Suc e" by (rule power_strict_increasing_iff) simp
  then have "(2 ^ Suc e :: u64) > 2 ^ 42 \<longleftrightarrow> Suc e = 43"
    using e u by (simp only: word_less_nat_alt) linarith
  then show "doubled F fp_at fp (hi * 2, hi * 2 > push_bit 42 1) (Suc e)"
    using assms e unfolding doubled_def by (simp add: less_Suc_eq mult.commute)
  show "e < 43" by (fact e)
qed

lemma double_hi_spec:
  "\<exists>e \<le> 43. double_hi F fp_at fp = 2 ^ e \<and> (e = 43 \<or> \<not> f_gt F (fp_at (2 ^ e)) fp) \<and> (\<forall>e' < e. f_gt F (fp_at (2 ^ e')) fp)"
proof -
  define B where "B = (\<lambda>(hi, brk). \<not> brk \<and> f_gt F (fp_at hi) fp)"
  define C where "C = (\<lambda>(hi :: u64, brk :: bool). let hi = hi * 2 in (hi, hi > push_bit 42 1))"
  have "(\<exists>e. doubled F fp_at fp (while B C (1, False)) e) \<and> \<not> B (while B C (1, False))"
  proof (rule while_rule [where P = "\<lambda>s. \<exists>e. doubled F fp_at fp s e" and r = "measure (\<lambda>s. 2 ^ 43 - unat (fst s))"])
    show "\<exists>e. doubled F fp_at fp (1, False) e" by (rule exI [of _ 0]) (simp add: doubled_def)
    fix s assume P: "\<exists>e. doubled F fp_at fp s e" and b: "B s"
    obtain hi brk e where s: "s = (hi, brk)" and e: "doubled F fp_at fp (hi, brk) e"
      using P by (cases s) blast
    note st = doubled_step [OF e] b [unfolded B_def s prod.case]
    have c: "C s = (hi * 2, hi * 2 > push_bit 42 1)" by (simp only: C_def s prod.case Let_def)
    show "\<exists>e. doubled F fp_at fp (C s) e" unfolding c using st by blast
    have "hi = 2 ^ e" "hi * 2 = 2 ^ Suc e" "e < 43"
      using e st by (auto simp only: doubled_def fst_conv power_Suc mult.commute)
    then have u: "unat hi = 2 ^ e" "unat (hi * 2) = 2 ^ Suc e"
      using unat_pow2 [of e] unat_pow2 [of "Suc e"] by (simp_all del: power_Suc)
    have "(2 :: nat) ^ Suc e \<le> 2 ^ 43" using \<open>e < 43\<close> by (intro power_increasing) auto
    then show "(C s, s) \<in> measure (\<lambda>s. 2 ^ 43 - unat (fst s))"
      unfolding s c [unfolded s] using u by (simp only: in_measure fst_conv) (simp add: diff_less_mono2)
  qed (auto simp only: wf_measure)
  then obtain e where e: "doubled F fp_at fp (while B C (1, False)) e" "\<not> B (while B C (1, False))" by blast
  obtain hi brk where w: "while B C (1, False) = (hi, brk)" by (cases "while B C (1, False)")
  have d: "double_hi F fp_at fp = hi"
    unfolding double_hi_def B_def [symmetric] C_def [symmetric] w by simp
  have h: "hi = 2 ^ e" and le: "e \<le> 43" and brk: "brk \<longleftrightarrow> e = 43" and below: "\<forall>e' < e. f_gt F (fp_at (2 ^ e')) fp"
    using e(1) [unfolded w doubled_def fst_conv snd_conv] by simp_all
  have "brk \<or> \<not> f_gt F (fp_at hi) fp" using e(2) [unfolded w] by (simp add: B_def)
  then have "e = 43 \<or> \<not> f_gt F (fp_at (2 ^ e)) fp" unfolding brk h .
  with le below d [unfolded h] show ?thesis by (intro exI [of _ e] conjI)
qed

lemma unat_mid:
  assumes "lo < (hi :: u64)"
  shows "unat (lo + (hi - lo) div 2) = unat lo + (unat hi - unat lo) div 2"
proof -
  have "unat ((hi - lo) div 2) = (unat hi - unat lo) div 2"
    using assms by (simp add: unat_div unat_sub_small word_less_nat_alt)
  then show ?thesis
    using assms unsigned_less [of hi, where ?'a = nat]
    by (subst unat_add_small) (auto simp: word_less_nat_alt)
qed

text \<open>The binary search: it stays in the range; unless it ends at the upper end it ends at a count that
  meets the target, and unless it ends at the lower end the count before misses it.\<close>

lemma search_blocks_spec:
  assumes "lo \<le> hi" "nb = search_blocks F fp_at fp lo hi"
  shows "lo \<le> nb \<and> nb \<le> hi \<and> (nb = hi \<or> f_le F (fp_at nb) fp) \<and> (nb = lo \<or> \<not> f_le F (fp_at (nb - 1)) fp)"
proof -
  let ?b = "\<lambda>(lo :: u64, hi). lo < hi"
  let ?c = "\<lambda>(lo, hi). let mid = lo + (hi - lo) div 2 in if f_le F (fp_at mid) fp then (lo, mid) else (mid + 1, hi)"
  let ?P = "\<lambda>(l, h). lo \<le> l \<and> l \<le> h \<and> h \<le> hi \<and> (h = hi \<or> f_le F (fp_at h) fp) \<and> (l = lo \<or> \<not> f_le F (fp_at (l - 1)) fp)"
  have "?P (while ?b ?c (lo, hi)) \<and> \<not> ?b (while ?b ?c (lo, hi))"
  proof (rule while_rule [where P = ?P and r = "measure (\<lambda>(l, h). unat h - unat l)"])
    show "?P (lo, hi)" using assms(1) by auto
    fix s assume P: "?P s" and b: "?b s"
    obtain l h where s: "s = (l, h)" by (cases s)
    define mid where "mid = l + (h - l) div 2"
    have um: "unat mid = unat l + (unat h - unat l) div 2"
      using unat_mid [of l h] b s by (simp add: mid_def)
    then have m: "l \<le> mid" "mid < h" "unat (mid + 1) = Suc (unat mid)"
      using b s unsigned_less [of h, where ?'a = nat] unat_add_small [of mid 1]
      by (auto simp: word_less_nat_alt word_le_nat_alt)
    have "mid + 1 \<le> h" "l \<le> mid + 1" using m by (simp_all add: word_less_nat_alt word_le_nat_alt)
    moreover have "lo \<le> l" "h \<le> hi" "h = hi \<or> f_le F (fp_at h) fp" "l = lo \<or> \<not> f_le F (fp_at (l - 1)) fp"
      using P unfolding s by simp_all
    moreover have "lo \<le> mid + 1" "mid \<le> hi" using calculation m by (meson order_trans less_imp_le)+
    ultimately show "?P (?c s)" using m(1) unfolding s mid_def [symmetric] Let_def prod.case by simp
    show "(?c s, s) \<in> measure (\<lambda>(l, h). unat h - unat l)"
      using m b unfolding s mid_def [symmetric] Let_def prod.case
      by (auto simp: word_less_nat_alt word_le_nat_alt)
  qed auto
  then show ?thesis unfolding assms(2) search_blocks_def by (auto split: prod.splits)
qed

text \<open>The block count for a fixed number of probes: its estimate is not above the target, unless the
  doubling was cut off, and one block less does not meet the target.\<close>

lemma half_range:
  assumes "e \<le> 43"
  shows "max (2 ^ e div 2) 1 \<le> (2 ^ e :: u64)" "(2 ^ Suc e div 2 :: u64) = 2 ^ e"
proof -
  have u: "unat (2 ^ e :: u64) = 2 ^ e" "unat (2 ^ Suc e :: u64) = 2 ^ Suc e"
    using assms by (intro unat_pow2; simp)+
  have "unat (2 ^ e div 2 :: u64) \<le> 2 ^ e" unfolding unat_div u by simp
  then show "max (2 ^ e div 2) 1 \<le> (2 ^ e :: u64)"
    using u(1) by (simp add: max_def word_le_nat_alt)
  have "unat (2 ^ Suc e div 2 :: u64) = unat (2 ^ e :: u64)" unfolding unat_div u by simp
  then show "(2 ^ Suc e div 2 :: u64) = 2 ^ e" by (simp only: word_unat_eq_iff)
qed

definition meets :: "f64_ops \<Rightarrow> u64 \<Rightarrow> f64 \<Rightarrow> u32 \<Rightarrow> u64 \<Rightarrow> bool" where
  "meets F n fp k nb = ((nb = 2 ^ 43 \<or> \<not> f_gt F (estimate_blocked_fp F n nb k) fp) \<and>
     (nb = 1 \<or> \<not> f_le F (estimate_blocked_fp F n (nb - 1) k) fp))"

lemma min_blocks_spec:
  assumes "nb = min_blocks_for_k F n fp k"
  shows "1 \<le> nb \<and> nb \<le> 2 ^ 43 \<and> meets F n fp k nb"
proof -
  let ?fp = "\<lambda>nb. estimate_blocked_fp F n nb k"
  obtain e where e: "e \<le> 43" "double_hi F ?fp fp = 2 ^ e" "e = 43 \<or> \<not> f_gt F (?fp (2 ^ e)) fp" "\<forall>e' < e. f_gt F (?fp (2 ^ e')) fp"
    using double_hi_spec [of F ?fp fp] by blast
  have nb: "nb = search_blocks F ?fp fp (max (2 ^ e div 2) 1) (2 ^ e)" using assms by (simp only: min_blocks_for_k_def Let_def e(2))
  note sp = search_blocks_spec [OF half_range(1) [OF e(1)] nb]
  have "(2 :: nat) ^ e \<le> 2 ^ 43" using e(1) by (intro power_increasing) auto
  then have le: "(2 ^ e :: u64) \<le> 2 ^ 43"
    using unat_pow2 [of 43] unat_pow2 [of e] e(1) by (simp add: word_le_nat_alt)
  have "1 \<le> max (2 ^ e div 2) (1 :: u64)" by (rule max.cobounded2)
  then have r: "1 \<le> nb" "nb \<le> 2 ^ 43" using sp le by (meson order_trans)+
  have up: "nb = 2 ^ 43 \<or> \<not> f_gt F (?fp nb) fp" using sp e(3) f_le_not_gt by blast
  have "nb = 1 \<or> \<not> f_le F (?fp (nb - 1)) fp"
  proof (rule ccontr)
    assume n: "\<not> (nb = 1 \<or> \<not> f_le F (?fp (nb - 1)) fp)"
    then have lo: "nb = max (2 ^ e div 2) 1" "nb \<noteq> 1" using sp by blast+
    then obtain e' where e': "e = Suc e'" by (cases e) auto
    then have "nb = 2 ^ e'" using lo half_range(2) [of e'] e(1) by (auto simp: max_def split: if_splits simp del: power_Suc)
    moreover have "f_gt F (?fp (2 ^ e')) fp" using e(4) e' by simp
    moreover have "(2 ^ e' :: u64) \<noteq> 2 ^ e"
      using unat_pow2 [of e'] unat_pow2 [of e] e(1) e' by (simp add: word_unat_eq_iff)
    ultimately show False using sp f_le_not_gt by metis
  qed
  then show ?thesis using r up by (simp add: meets_def)
qed

lemma min_blocks_range: "1 \<le> min_blocks_for_k F n fp k \<and> min_blocks_for_k F n fp k \<le> 2 ^ 43"
  using min_blocks_spec [OF refl] by blast

section \<open>Tuned filters\<close>

lemma tune_fold:
  assumes "fold (tune_step F n fp) ks (B, nb0, k0) = (bits, nb, k)"
  shows "bits \<le> B \<and> (\<forall>k' \<in> set ks. unat bits \<le> unat (min_blocks_for_k F n fp k') * 512) \<and>
    ((bits, nb, k) = (B, nb0, k0) \<or>
     k \<in> set ks \<and> nb = min_blocks_for_k F n fp k \<and> unat bits = unat nb * 512)"
  using assms
proof (induction ks arbitrary: B nb0 k0)
  case Nil
  then show ?case by simp
next
  case (Cons k1 ks)
  define m where "m = min_blocks_for_k F n fp k1"
  have "unat m \<le> 2 ^ 43" using min_blocks_range [of F n fp k1] by (simp add: m_def word_le_nat_alt)
  then have mb: "unat (m * ucast BLOCK_BITS) = unat m * 512"
    by (simp add: unat_word_ariths BLOCK_BITS_def)
  have st: "tune_step F n fp k1 (B, nb0, k0) =
      (if m * ucast BLOCK_BITS < B then (m * ucast BLOCK_BITS, m, k1) else (B, nb0, k0))"
    by (simp add: tune_step_def m_def Let_def)
  show ?case
  proof (cases "m * ucast BLOCK_BITS < B")
    case True
    then have "fold (tune_step F n fp) ks (m * ucast BLOCK_BITS, m, k1) = (bits, nb, k)"
      using Cons.prems st by simp
    note ih = Cons.IH [OF this]
    then have "unat bits \<le> unat m * 512" using mb by (simp add: word_le_nat_alt)
    then show ?thesis using ih True mb by (auto simp: m_def)
  next
    case False
    then have "fold (tune_step F n fp) ks (B, nb0, k0) = (bits, nb, k)"
      using Cons.prems st by simp
    note ih = Cons.IH [OF this]
    have "bits \<le> m * ucast BLOCK_BITS" using ih False by (meson not_less order_trans)
    then have "unat bits \<le> unat m * 512" using mb by (simp add: word_le_nat_alt)
    then show ?thesis using ih by (auto simp: m_def)
  qed
qed

text \<open>What \<open>new_blocked_tuned\<close> picks: for one of the 20 probe counts the block count of its
  search, and no other probe count needs fewer blocks.\<close>

lemma tuned_choice:
  obtains k where "k \<in> set (map of_nat [1..<21])"
    "bf_num_blocks (new_blocked_tuned F n fp) = min_blocks_for_k F (if n = 0 then 1 else n) (f_mul F fp (f_lit F (3 / 4))) k"
    "bf_k (new_blocked_tuned F n fp) = k" "bf_ok (new_blocked_tuned F n fp)"
    "\<forall>k' \<in> set (map of_nat [1..<21]). unat (bf_num_blocks (new_blocked_tuned F n fp)) \<le>
       unat (min_blocks_for_k F (if n = 0 then 1 else n) (f_mul F fp (f_lit F (3 / 4))) k')"
proof -
  define n' where "n' = (if n = 0 then 1 else n)"
  define ks where "ks = (map of_nat [1..<21] :: u32 list)"
  let ?mb = "min_blocks_for_k F n' (f_mul F fp (f_lit F (3 / 4)))"
  obtain bits nb k where f: "fold (tune_step F n' (f_mul F fp (f_lit F (3 / 4)))) ks (- 1, 0, 1) = (bits, nb, k)"
    by (metis prod_cases3)
  note tf = tune_fold [OF f]
  have pos: "1 \<le> unat (?mb k') \<and> unat (?mb k') \<le> 2 ^ 43" for k'
    using min_blocks_range [of F n' "f_mul F fp (f_lit F (3 / 4))" k'] by (simp add: word_le_nat_alt)
  have one: "1 \<in> set ks" by (simp add: ks_def upt_rec)
  have "unat bits \<le> unat (?mb 1) * 512" using tf one by blast
  then have "unat bits \<le> 2 ^ 52" using pos [of 1] by simp
  then have "bits \<noteq> - 1" by (auto simp: unsigned_minus_1_eq_mask mask_eq_exp_minus_1)
  then have k: "k \<in> set ks" "nb = ?mb k" "unat bits = unat nb * 512" using tf by auto
  have small: "unat k' \<noteq> 0" if "k' \<in> set ks" for k'
    using that by (auto simp: ks_def)
  have T: "new_blocked_tuned F n fp = bf_alloc nb k 0"
    using f by (simp add: new_blocked_tuned_def Let_def n'_def ks_def)
  have nb1: "max nb 1 = nb" "max k 1 = k"
    using pos [of k] k(2) small [OF k(1)] by (simp_all add: max_absorb1 word_le_nat_alt)
  have w: "unat (nb * BLOCK_WORDS) = unat nb * 8"
    using pos [of k] k(2) by (simp add: unat_word_ariths BLOCK_WORDS_eq)
  show thesis
  proof (rule that [of k, folded n'_def ks_def])
    show "k \<in> set ks" by (fact k)
    show "bf_num_blocks (new_blocked_tuned F n fp) = ?mb k" "bf_k (new_blocked_tuned F n fp) = k"
      using T nb1 k(2) by (simp_all add: bf_alloc_def Let_def)
    show "bf_ok (new_blocked_tuned F n fp)"
      using T nb1 w pos [of k] k(2) small [OF k(1)] by (simp add: bf_alloc_def Let_def bf_ok_def)
    show "\<forall>k' \<in> set ks. unat (bf_num_blocks (new_blocked_tuned F n fp)) \<le> unat (?mb k')"
      using T nb1 tf k(3) by (auto simp: bf_alloc_def Let_def)
  qed
qed

lemma new_blocked_tuned_ok [simp]: "bf_ok (new_blocked_tuned F n fp)"
  by (rule tuned_choice [of F n fp])

section \<open>Properties\<close>

text \<open>An arithmetic for concrete inputs, in which every result is zero.\<close>

definition zero_f64 :: f64_ops where
  "zero_f64 = \<lparr>f_lit = \<lambda>_. 0, f_of_int = \<lambda>_. 0, f_to_i64 = \<lambda>_. 0, f_cmp = \<lambda>_ _. Some Equal, f_add = \<lambda>_ _. 0, f_sub = \<lambda>_ _. 0,
     f_mul = \<lambda>_ _. 0, f_div = \<lambda>_ _. 0, f_neg = \<lambda>_. 0, f_sqrt = \<lambda>_. 0, f_ln = \<lambda>_. 0, f_exp = \<lambda>_. 0, f_powf = \<lambda>_ _. 0\<rparr>"

text \<open>C37. No false negatives: a filter built for any capacity and target tests positive on every
  key added to it, whatever the hash function.\<close>

theorem filter_no_false_negatives:
  "x \<in> set keys \<Longrightarrow> bf_test xxh3 (fold (bf_add xxh3) keys (new_blocked_tuned F n fp)) x"
  using bloom.covers_fold [of "new_blocked_tuned F n fp" xxh3 keys] by (simp add: bloom.covers_def)

theorem filter_no_false_negatives_witness:
  "bf_test (\<lambda>d s. 77) (fold (bf_add (\<lambda>d s. 77)) [[1], [2, 3]] (new_blocked_tuned zero_f64 10 5)) [2, 3]"
  by (rule filter_no_false_negatives) simp

lemma nth_fold_put_bit: "w \<notin> fst ` set ps \<Longrightarrow> fold put_bit ps bl ! w = bl ! w"
  by (induction ps arbitrary: bl) (auto simp: put_bit_def)

lemma has_bit_cong: "\<forall>w \<in> fst ` set ps. bl' ! w = bl ! w \<Longrightarrow> list_all (has_bit bl') ps = list_all (has_bit bl) ps"
  by (auto simp: list_all_iff has_bit_def)

text \<open>C38. One cache line: on a filter built by \<open>new_blocked_tuned\<close> to which any keys were added, neither
  \<open>add\<close> nor \<open>test\<close> panics, and for every key there is one line of eight words such that \<open>add\<close> changes no
  word outside it and the answer of \<open>test\<close> does not depend on any word outside it.\<close>

theorem filter_one_cache_line:
  assumes "f = fold (bf_add xxh3) keys (new_blocked_tuned F n fp)"
  shows "\<exists>line < unat (bf_num_blocks f).
    (\<exists>g. bf_add_checked xxh3 data f = Ok g \<and> length (bf_blocks g) = 8 * unat (bf_num_blocks f) \<and>
       (\<forall>w. w div 8 \<noteq> line \<longrightarrow> bf_blocks g ! w = bf_blocks f ! w)) \<and>
    (\<exists>r. bf_test_checked xxh3 f data = Ok r \<and>
       (\<forall>bl. length bl = length (bf_blocks f) \<longrightarrow> (\<forall>w. w div 8 = line \<longrightarrow> bl ! w = bf_blocks f ! w) \<longrightarrow>
          bf_test_checked xxh3 (f\<lparr>bf_blocks := bl\<rparr>) data = Ok r))"
proof -
  have ok: "bf_ok f" using bloom.covers_fold [of "new_blocked_tuned F n fp" xxh3 keys] by (simp add: bloom.covers_def assms)
  obtain off a b where o: "block_offset xxh3 f data = (off, a, b)" by (cases "block_offset xxh3 f data")
  obtain line where line: "line < unat (bf_num_blocks f)" "unat off = line * 8" using block_offset_line [OF ok o] by blast
  let ?ps = "probe_seq (probe_range f) off a b"
  have ps: "w div 8 = line" if "w \<in> fst ` set ?ps" for w
    using that probe_seq_bounds [OF line(1) _ line(2)] ok by (auto simp: bf_ok_def)
  have "bf_blocks (f\<lparr>bf_blocks := fold put_bit ?ps (bf_blocks f)\<rparr>) ! w = bf_blocks f ! w" if "w div 8 \<noteq> line" for w
    using that ps by (simp, intro nth_fold_put_bit) blast
  moreover have "bf_test_checked xxh3 (f\<lparr>bf_blocks := bl\<rparr>) data = Ok (list_all (has_bit (bf_blocks f)) ?ps)"
    if "length bl = length (bf_blocks f)" "\<forall>w. w div 8 = line \<longrightarrow> bl ! w = bf_blocks f ! w" for bl
  proof -
    have "bf_ok (f\<lparr>bf_blocks := bl\<rparr>)" "block_offset xxh3 (f\<lparr>bf_blocks := bl\<rparr>) data = (off, a, b)"
      using that(1) ok o by (simp_all add: bf_ok_blocks)
    note bf_test_eq(1) [OF this]
    then show ?thesis using that(2) ps has_bit_cong [of ?ps bl "bf_blocks f"] by simp
  qed
  moreover have "length (bf_blocks f) = 8 * unat (bf_num_blocks f)" using ok by (simp add: bf_ok_def)
  ultimately show ?thesis
    using line(1) bf_add_eq(1) [OF ok o] bf_test_eq(1) [OF ok o] by (intro exI [of _ line]) auto
qed

theorem filter_one_cache_line_witness:
  "\<exists>g r. bf_add_checked (\<lambda>d s. 77) [4] (fold (bf_add (\<lambda>d s. 77)) [[1], [2, 3]] (new_blocked_tuned zero_f64 10 5)) = Ok g \<and>
     bf_test_checked (\<lambda>d s. 77) (fold (bf_add (\<lambda>d s. 77)) [[1], [2, 3]] (new_blocked_tuned zero_f64 10 5)) [4] = Ok r"
  using filter_one_cache_line [OF refl, of "\<lambda>d s. 77" "[[1], [2, 3]]" zero_f64 10 5 "[4]"] by blast

text \<open>C39. What the tuning guarantees, for every floating-point arithmetic: the filter has between 1 and 20
  probes and between 1 and \<open>2 ^ 43\<close> blocks; its estimated rate is not above the internal target of three
  quarters of the rate asked for, unless the search was cut off at \<open>2 ^ 43\<close> blocks; with one block less
  the estimate does not meet the target; and for no other probe count does the search end with fewer
  blocks.\<close>

theorem tuned_filter_meets_target:
  assumes "f = new_blocked_tuned F n fp" "n' = (if n = 0 then 1 else n)" "internal = f_mul F fp (f_lit F (3 / 4))"
  shows "1 \<le> bf_k f \<and> bf_k f \<le> 20 \<and> 1 \<le> bf_num_blocks f \<and> bf_num_blocks f \<le> 2 ^ 43 \<and>
    length (bf_blocks f) = 8 * unat (bf_num_blocks f) \<and>
    (bf_num_blocks f = 2 ^ 43 \<or> \<not> f_gt F (estimate_blocked_fp F n' (bf_num_blocks f) (bf_k f)) internal) \<and>
    (bf_num_blocks f = 1 \<or> \<not> f_le F (estimate_blocked_fp F n' (bf_num_blocks f - 1) (bf_k f)) internal) \<and>
    (\<forall>k. 1 \<le> k \<and> k \<le> 20 \<longrightarrow> bf_num_blocks f \<le> min_blocks_for_k F n' internal k)"
proof -
  obtain k where k: "k \<in> set (map of_nat [1..<21])" "bf_num_blocks f = min_blocks_for_k F n' internal k" "bf_k f = k" "bf_ok f"
      "\<forall>k' \<in> set (map of_nat [1..<21]). unat (bf_num_blocks f) \<le> unat (min_blocks_for_k F n' internal k')"
    unfolding assms by (rule tuned_choice [of F n fp])
  have ks: "k' \<in> set (map of_nat [1..<21]) \<longleftrightarrow> 1 \<le> k' \<and> k' \<le> 20" for k' :: u32
  proof
    assume "1 \<le> k' \<and> k' \<le> 20"
    then have "unat k' \<in> set [1..<21]" by (simp add: word_le_nat_alt)
    then have "of_nat (unat k') \<in> set (map of_nat [1..<21] :: u32 list)" unfolding set_map by (rule imageI)
    then show "k' \<in> set (map of_nat [1..<21])" by simp
  qed (auto simp: word_le_nat_alt)
  note sp = min_blocks_spec [OF k(2)]
  have "bf_num_blocks f \<le> min_blocks_for_k F n' internal k'" if "1 \<le> k' \<and> k' \<le> 20" for k'
    using bspec [OF k(5), of k'] that unfolding ks by (simp only: word_le_nat_alt)
  moreover have "length (bf_blocks f) = 8 * unat (bf_num_blocks f)" using k(4) by (simp add: bf_ok_def)
  moreover have "1 \<le> k \<and> k \<le> 20" using k(1) ks by blast
  ultimately show ?thesis using sp k(3) unfolding meets_def by blast
qed

theorem tuned_filter_meets_target_witness:
  "bf_num_blocks (new_blocked_tuned zero_f64 10 5) \<le> min_blocks_for_k zero_f64 10 (f_mul zero_f64 5 (f_lit zero_f64 (3 / 4))) 7"
  using tuned_filter_meets_target [OF refl refl refl, of zero_f64 10 5] by (simp add: word_le_nat_alt)

text \<open>The stride \<open>h2\<close> is odd, but the triangular term of the enhanced double hashing changes
  it from probe to probe: four probes of one key need not be distinct.\<close>

theorem probes_can_repeat:
  "\<exists>xxh3 off a b. block_offset xxh3 (bf_alloc 1 4 0) [] = (off, a, b) \<and> odd b \<and>
     \<not> distinct (probe_seq (probe_range (bf_alloc 1 4 0)) off a b)"
proof -
  let ?h = "\<lambda>d s. push_bit 32 341 :: u128"
  have "block_offset ?h (bf_alloc 1 4 0) [] = (0, 0, 341)"
    by (simp add: block_offset_def bf_alloc_def Let_def BLOCK_WORDS_eq)
  moreover have "probe_range (bf_alloc 1 4 0) = [0, 1, 2, 3]"
    by code_simp
  then have "\<not> distinct (probe_seq (probe_range (bf_alloc 1 4 0)) 0 0 341)"
    by (simp add: BLOCK_MASK_def BLOCK_BITS_def Let_def)
  ultimately show ?thesis by (intro exI [of _ ?h] exI [of _ 0] exI [of _ 341]) simp
qed

end
