(* ===== verification/Dir.thy ===== *)
theory Dir
  imports Bloom
begin

text \<open>
  The in-memory directory of \<^verbatim>\<open>rust/bloomfs-dir\<close>: segments of a bounded number of entries, each a
  Bloom filter in front of a hash index with collision chains.  A name is its UTF-8 bytes.  The
  hash functions, the floating-point arithmetic and the iteration order of the index are the fields
  of \<open>dir_env\<close>.

  The abstraction \<open>dir_map\<close> reads a directory as a finite map from names to inode numbers, and the
  contract \<open>name_map\<close>, which the file system relies on, is proved for it: every operation does
  to the map what it promises, whatever the hash functions do.
\<close>

section \<open>The model\<close>

definition MAX_FILES_PER_SEGMENT :: nat where
  "MAX_FILES_PER_SEGMENT = 4000"

definition BLOOM_FP :: "f64_ops \<Rightarrow> f64" where
  "BLOOM_FP F = f_lit F (1 / 100)"

type_synonym name = bytes
type_synonym inode_id = u64

record dir_entry =
  dent_name :: name
  dent_inode :: inode_id

type_synonym index = "(u64 \<times> dir_entry list) list"

record dir_env =
  xxh128 :: hash128
  xxh64 :: "bytes \<Rightarrow> u64"
  floats :: f64_ops
  index_iter :: "index \<Rightarrow> index"

record segment =
  sg_filter :: blocked_filter
  sg_index :: index
  sg_count :: nat
  sg_cap :: nat
  sg_fp :: f64
  sg_tomb :: nat

definition seg_new :: "dir_env \<Rightarrow> nat \<Rightarrow> f64 \<Rightarrow> segment" where
  "seg_new E capacity fp = \<lparr>sg_filter = new_blocked_tuned (floats E) (of_nat capacity) fp,
     sg_index = [], sg_count = 0, sg_cap = capacity, sg_fp = fp, sg_tomb = 0\<rparr>"

definition seg_full :: "segment \<Rightarrow> bool" where
  "seg_full s = (sg_count s \<ge> sg_cap s)"

definition seg_add :: "dir_env \<Rightarrow> u64 \<Rightarrow> name \<Rightarrow> inode_id \<Rightarrow> segment \<Rightarrow> segment" where
  "seg_add E h name ino s =
     s\<lparr>sg_filter := bf_add (xxh128 E) name (sg_filter s),
       sg_index := (let chain = (case map_of (sg_index s) h of Some c \<Rightarrow> c | None \<Rightarrow> [])
                    in AList.update h (chain @ [\<lparr>dent_name = name, dent_inode = ino\<rparr>]) (sg_index s)),
       sg_count := sg_count s + 1\<rparr>"

fun chain_find :: "dir_entry list \<Rightarrow> name \<Rightarrow> inode_id option" where
  "chain_find [] name = None"
| "chain_find (e # es) name = (if dent_name e = name then Some (dent_inode e) else chain_find es name)"

definition seg_find :: "dir_env \<Rightarrow> segment \<Rightarrow> u64 \<Rightarrow> name \<Rightarrow> inode_id option" where
  "seg_find E s h name =
     (if \<not> bf_test (xxh128 E) (sg_filter s) name then None
      else case map_of (sg_index s) h of
        Some chain \<Rightarrow> chain_find chain name
      | None \<Rightarrow> None)"

definition rebuild_threshold :: "segment \<Rightarrow> nat" where
  "rebuild_threshold s = max (sg_cap s div 4) 1"

definition rebuild_filter :: "dir_env \<Rightarrow> segment \<Rightarrow> segment" where
  "rebuild_filter E s =
     (let f = new_blocked_tuned (floats E) (of_nat (sg_cap s)) (sg_fp s);
          f = fold (\<lambda>(h, chain). fold (\<lambda>e. bf_add (xxh128 E) (dent_name e)) chain)
                (index_iter E (sg_index s)) f
      in s\<lparr>sg_tomb := 0, sg_filter := f\<rparr>)"

fun chain_position :: "dir_entry list \<Rightarrow> name \<Rightarrow> nat option" where
  "chain_position [] name = None"
| "chain_position (e # es) name =
     (if dent_name e = name then Some 0 else map_option Suc (chain_position es name))"

definition swap_remove :: "nat \<Rightarrow> 'a list \<Rightarrow> 'a list" where
  "swap_remove pos xs = butlast (xs[pos := last xs])"

definition seg_remove :: "dir_env \<Rightarrow> u64 \<Rightarrow> name \<Rightarrow> segment \<Rightarrow> bool \<times> segment" where
  "seg_remove E h name s =
     (case map_of (sg_index s) h of
        None \<Rightarrow> (False, s)
      | Some chain \<Rightarrow>
        (case chain_position chain name of
           None \<Rightarrow> (False, s)
         | Some pos \<Rightarrow>
           let chain = swap_remove pos chain;
               idx = AList.update h chain (sg_index s);
               idx = (if chain = [] then AList.delete h idx else idx);
               s = s\<lparr>sg_index := idx, sg_count := sg_count s - 1, sg_tomb := sg_tomb s + 1\<rparr>
           in (True, if sg_tomb s \<ge> rebuild_threshold s then rebuild_filter E s else s)))"

record directory =
  dr_segments :: "segment list"
  dr_cap :: nat
  dr_fp :: f64

definition dir_with_cap :: "dir_env \<Rightarrow> nat \<Rightarrow> f64 \<Rightarrow> directory" where
  "dir_with_cap E capacity fp = \<lparr>dr_segments = [seg_new E capacity fp], dr_cap = capacity, dr_fp = fp\<rparr>"

definition dir_new :: "dir_env \<Rightarrow> directory" where
  "dir_new E = dir_with_cap E MAX_FILES_PER_SEGMENT (BLOOM_FP (floats E))"

text \<open>The loop that fills the first segment that is not full; \<open>None\<close> when all are.\<close>

fun add_first_free :: "dir_env \<Rightarrow> u64 \<Rightarrow> name \<Rightarrow> inode_id \<Rightarrow> segment list \<Rightarrow> segment list option" where
  "add_first_free E h name ino [] = None"
| "add_first_free E h name ino (s # ss) =
     (if \<not> seg_full s then Some (seg_add E h name ino s # ss)
      else map_option ((#) s) (add_first_free E h name ino ss))"

definition dir_push_unique :: "dir_env \<Rightarrow> name \<Rightarrow> inode_id \<Rightarrow> directory \<Rightarrow> directory" where
  "dir_push_unique E name ino d =
     (let h = xxh64 E name in
      case add_first_free E h name ino (dr_segments d) of
        Some ss \<Rightarrow> d\<lparr>dr_segments := ss\<rparr>
      | None \<Rightarrow> d\<lparr>dr_segments := dr_segments d @ [seg_add E h name ino (seg_new E (dr_cap d) (dr_fp d))]\<rparr>)"

definition dir_add :: "dir_env \<Rightarrow> name \<Rightarrow> inode_id \<Rightarrow> directory \<Rightarrow> bool \<times> directory" where
  "dir_add E name ino d =
     (let h = xxh64 E name in
      if list_ex (\<lambda>s. seg_find E s h name \<noteq> None) (dr_segments d) then (False, d)
      else case add_first_free E h name ino (dr_segments d) of
        Some ss \<Rightarrow> (True, d\<lparr>dr_segments := ss\<rparr>)
      | None \<Rightarrow> (True, d\<lparr>dr_segments := dr_segments d @ [seg_add E h name ino (seg_new E (dr_cap d) (dr_fp d))]\<rparr>))"

fun find_in_segments :: "dir_env \<Rightarrow> u64 \<Rightarrow> name \<Rightarrow> segment list \<Rightarrow> inode_id option" where
  "find_in_segments E h name [] = None"
| "find_in_segments E h name (s # ss) =
     (case seg_find E s h name of Some i \<Rightarrow> Some i | None \<Rightarrow> find_in_segments E h name ss)"

definition dir_find :: "dir_env \<Rightarrow> directory \<Rightarrow> name \<Rightarrow> inode_id option" where
  "dir_find E d name = find_in_segments E (xxh64 E name) name (dr_segments d)"

fun remove_in_segments :: "dir_env \<Rightarrow> u64 \<Rightarrow> name \<Rightarrow> segment list \<Rightarrow> bool \<times> segment list" where
  "remove_in_segments E h name [] = (False, [])"
| "remove_in_segments E h name (s # ss) =
     (case seg_remove E h name s of
        (True, s') \<Rightarrow> (True, s' # ss)
      | (False, s') \<Rightarrow> (case remove_in_segments E h name ss of (r, ss') \<Rightarrow> (r, s' # ss')))"

definition dir_delete :: "dir_env \<Rightarrow> name \<Rightarrow> directory \<Rightarrow> bool \<times> directory" where
  "dir_delete E name d =
     (case remove_in_segments E (xxh64 E name) name (dr_segments d) of
        (r, ss) \<Rightarrow> (r, d\<lparr>dr_segments := ss\<rparr>))"

definition dir_len :: "directory \<Rightarrow> nat" where
  "dir_len d = sum_list (map sg_count (dr_segments d))"

definition dir_is_empty :: "directory \<Rightarrow> bool" where
  "dir_is_empty d = (dir_len d = 0)"

definition dir_entries :: "dir_env \<Rightarrow> directory \<Rightarrow> dir_entry list" where
  "dir_entries E d =
     concat (map (\<lambda>s. concat (map snd (index_iter E (sg_index s)))) (dr_segments d))"

definition dir_list :: "dir_env \<Rightarrow> directory \<Rightarrow> name list" where
  "dir_list E d = map dent_name (dir_entries E d)"

section \<open>Chains and indexes as maps\<close>

definition entry_pair :: "dir_entry \<Rightarrow> name \<times> inode_id" where
  "entry_pair e = (dent_name e, dent_inode e)"

definition entry_map :: "dir_entry list \<Rightarrow> name \<rightharpoonup> inode_id" where
  "entry_map es = map_of (map entry_pair es)"

definition names_of :: "dir_entry list \<Rightarrow> name list" where
  "names_of es = map dent_name es"

lemma fst_entry_pair [simp]: "fst (entry_pair e) = dent_name e"
  by (simp add: entry_pair_def)

lemma map_fst_entry_pair [simp]: "map (fst \<circ> entry_pair) es = names_of es"
  by (simp add: names_of_def)

lemma inj_entry_pair: "inj entry_pair"
  by (intro injI) (simp add: entry_pair_def)

lemma chain_find_eq: "chain_find c n = entry_map c n"
  by (induction c) (auto simp: entry_map_def entry_pair_def)

lemma entry_map_append: "entry_map (a @ b) n = (case entry_map a n of Some i \<Rightarrow> Some i | None \<Rightarrow> entry_map b n)"
  by (simp add: entry_map_def map_add_def split: option.splits)

lemma entry_map_None: "entry_map es n = None \<longleftrightarrow> n \<notin> set (names_of es)"
  by (simp add: entry_map_def names_of_def map_of_eq_None_iff image_image)

lemma entry_map_eqI:
  assumes "distinct (names_of es)" "distinct (names_of es')" "set es = set es'"
  shows "entry_map es = entry_map es'"
proof
  fix n
  have "entry_map es n = Some i \<longleftrightarrow> entry_map es' n = Some i" for i
    using assms unfolding entry_map_def by (subst (1 2) map_of_eq_Some_iff) auto
  then show "entry_map es n = entry_map es' n" by (metis not_None_eq)
qed

lemma entry_map_insert:
  assumes "distinct (names_of es)" "n \<notin> set (names_of es)" "distinct (names_of es')"
    and "set es' = insert \<lparr>dent_name = n, dent_inode = i\<rparr> (set es)"
  shows "entry_map es' = (entry_map es)(n \<mapsto> i)"
proof -
  have "entry_map es' = entry_map (\<lparr>dent_name = n, dent_inode = i\<rparr> # es)"
    using assms by (intro entry_map_eqI) (auto simp: names_of_def)
  then show ?thesis by (simp add: entry_map_def entry_pair_def)
qed

lemma entry_map_remove:
  assumes "distinct (names_of es)" "e \<in> set es" "distinct (names_of es')" "set es' = set es - {e}"
  shows "entry_map es' = (entry_map es)(dent_name e := None)"
proof -
  obtain l1 l2 where es: "es = l1 @ e # l2" using assms(2) by (auto simp: in_set_conv_decomp)
  then have "dent_name e \<notin> set (names_of (l1 @ l2))" using assms(1) by (auto simp: names_of_def)
  moreover have "entry_map es = entry_map (e # l1 @ l2)"
    using assms(1) es by (intro entry_map_eqI) (auto simp: names_of_def)
  moreover have "entry_map es' = entry_map (l1 @ l2)"
    using assms es by (intro entry_map_eqI) (auto simp: names_of_def)
  ultimately show ?thesis
    by (auto simp: entry_map_None [symmetric] entry_map_def entry_pair_def fun_upd_idem)
qed

lemma index_lookup:
  assumes "distinct (map fst idx)" "\<forall>(h, c) \<in> set idx. \<forall>e \<in> set c. hash (dent_name e) = h"
  shows "entry_map (concat (map snd idx)) n =
    (case map_of idx (hash n) of Some c \<Rightarrow> entry_map c n | None \<Rightarrow> None)"
  using assms
proof (induction idx)
  case Nil
  then show ?case by (simp add: entry_map_def)
next
  case (Cons hc idx)
  obtain h c where hc: "hc = (h, c)" by (cases hc)
  have ih: "entry_map (concat (map snd idx)) n =
      (case map_of idx (hash n) of Some c \<Rightarrow> entry_map c n | None \<Rightarrow> None)"
    using Cons by simp
  show ?case
  proof (cases "hash n = h")
    case True
    then have "map_of idx (hash n) = None" using Cons.prems(1) hc by (simp add: map_of_eq_None_iff)
    with True ih show ?thesis by (simp add: hc entry_map_append split: option.splits)
  next
    case False
    then have "entry_map c n = None"
      using Cons.prems(2) hc by (auto simp: entry_map_None names_of_def)
    with False ih show ?thesis by (simp add: hc entry_map_append)
  qed
qed

section \<open>Segments\<close>

definition seg_entries :: "segment \<Rightarrow> dir_entry list" where
  "seg_entries s = concat (map snd (sg_index s))"

definition seg_ok :: "dir_env \<Rightarrow> segment \<Rightarrow> bool" where
  "seg_ok E s = (distinct (map fst (sg_index s)) \<and>
     (\<forall>(h, c) \<in> set (sg_index s). \<forall>e \<in> set c. xxh64 E (dent_name e) = h) \<and>
     distinct (names_of (seg_entries s)) \<and>
     bloom.covers (xxh128 E) (sg_filter s) (set (names_of (seg_entries s))) \<and>
     sg_count s = length (seg_entries s))"

lemma seg_find_eq:
  assumes "seg_ok E s"
  shows "seg_find E s (xxh64 E n) n = entry_map (seg_entries s) n"
proof (cases "bf_test (xxh128 E) (sg_filter s) n")
  case True
  then show ?thesis
    using assms index_lookup [of "sg_index s" "xxh64 E" n]
    by (simp add: seg_find_def seg_ok_def seg_entries_def chain_find_eq split: option.splits)
next
  case False
  then have "n \<notin> set (names_of (seg_entries s))"
    using assms bloom.covers_absent by (auto simp: seg_ok_def)
  with False show ?thesis by (simp add: seg_find_def entry_map_None [THEN iffD2])
qed

lemma seg_new_ok: "seg_ok E (seg_new E capacity fp)" "seg_entries (seg_new E capacity fp) = []"
  by (simp_all add: seg_ok_def seg_new_def seg_entries_def names_of_def bloom.covers_def)

text \<open>Adding a name that is not there.\<close>

lemma seg_add_spec:
  assumes "seg_ok E s" "n \<notin> set (names_of (seg_entries s))" "s' = seg_add E (xxh64 E n) n i s"
  shows "seg_ok E s'" "set (seg_entries s') = insert \<lparr>dent_name = n, dent_inode = i\<rparr> (set (seg_entries s))"
    "length (seg_entries s') = Suc (length (seg_entries s))" "sg_cap s' = sg_cap s"
proof -
  let ?e = "\<lparr>dent_name = n, dent_inode = i\<rparr>"
  let ?idx = "sg_index s" and ?h = "xxh64 E n"
  have ok: "distinct (map fst ?idx)" "\<forall>(h, c) \<in> set ?idx. \<forall>e \<in> set c. xxh64 E (dent_name e) = h"
    "distinct (names_of (seg_entries s))"
    using assms(1) by (auto simp: seg_ok_def)
  have "\<exists>a b. seg_entries s = a @ b \<and> seg_entries s' = a @ [?e] @ b \<and> distinct (map fst (sg_index s')) \<and>
      (\<forall>(h, c) \<in> set (sg_index s'). \<forall>e \<in> set c. xxh64 E (dent_name e) = h)"
  proof (cases "map_of ?idx ?h")
    case None
    then have f: "?h \<notin> fst ` set ?idx" by (simp add: map_of_eq_None_iff)
    have "sg_index s' = ?idx @ [(?h, [?e])]"
      using None update_fresh [OF f] by (simp add: assms(3) seg_add_def)
    then show ?thesis
      using ok f by (intro exI [of _ "seg_entries s"] exI [of _ "[]"]) (auto simp: seg_entries_def)
  next
    case (Some c)
    obtain l1 l2 where t: "?idx = l1 @ (?h, c) # l2" "\<And>v'. AList.update ?h v' ?idx = l1 @ (?h, v') # l2"
      using alist_split [OF Some ok(1)] by metis
    have "sg_index s' = l1 @ (?h, c @ [?e]) # l2"
      using Some t(2) by (simp add: assms(3) seg_add_def)
    then show ?thesis
      using ok t(1)
      by (intro exI [of _ "concat (map snd l1) @ c"] exI [of _ "concat (map snd l2)"])
         (auto simp: seg_entries_def)
  qed
  then obtain a b where ab: "seg_entries s = a @ b" "seg_entries s' = a @ [?e] @ b"
    and inv: "distinct (map fst (sg_index s'))"
      "\<forall>(h, c) \<in> set (sg_index s'). \<forall>e \<in> set c. xxh64 E (dent_name e) = h" by blast
  show st: "set (seg_entries s') = insert ?e (set (seg_entries s))"
    and "length (seg_entries s') = Suc (length (seg_entries s))" using ab by auto
  have "distinct (names_of (seg_entries s'))" using ab ok(3) assms(2) by (auto simp: names_of_def)
  moreover have "set (names_of (seg_entries s')) = insert n (set (names_of (seg_entries s)))"
    using st by (auto simp: names_of_def)
  then have "bloom.covers (xxh128 E) (sg_filter s') (set (names_of (seg_entries s')))"
    using assms(1,3) bloom.covers_add by (simp add: seg_ok_def seg_add_def)
  moreover have "sg_count s' = length (seg_entries s')"
    using assms ab by (simp add: seg_add_def seg_ok_def)
  ultimately show "seg_ok E s'" using inv by (simp add: seg_ok_def)
  show "sg_cap s' = sg_cap s" using assms(3) by (simp add: seg_add_def)
qed

text \<open>Removing by swapping in the last element.\<close>

lemma chain_position_Some:
  "chain_position c n = Some p \<Longrightarrow> p < length c \<and> dent_name (c ! p) = n"
  by (induction c arbitrary: p) (auto split: if_splits)

lemma chain_position_None: "chain_position c n = None \<longleftrightarrow> n \<notin> set (names_of c)"
  by (induction c) (auto simp: names_of_def)

lemma swap_remove_split:
  "swap_remove (length xs) (xs @ x # ys) = xs @ (if ys = [] then [] else last ys # butlast ys)"
  by (cases ys rule: rev_cases) (auto simp: swap_remove_def butlast_append)

lemma swap_remove_perm:
  assumes "p < length c" "distinct (names_of c)"
  shows "set (swap_remove p c) = set c - {c ! p}" "distinct (names_of (swap_remove p c))"
    "length (swap_remove p c) = length c - 1"
proof -
  define xs ys where "xs = take p c" and "ys = drop (Suc p) c"
  have c: "c = xs @ c ! p # ys" "length xs = p"
    using assms(1) by (auto simp: xs_def ys_def id_take_nth_drop)
  have sr: "swap_remove p c = xs @ (if ys = [] then [] else last ys # butlast ys)"
    using swap_remove_split [of xs "c ! p" ys] c by simp
  have y: "set (if ys = [] then [] else last ys # butlast ys) = set ys"
    by (cases ys rule: rev_cases) auto
  have d: "distinct (map dent_name (xs @ c ! p # ys))" using assms(2) c(1) by (simp add: names_of_def)
  then have "c ! p \<notin> set xs \<union> set ys" by auto
  moreover have "set c = insert (c ! p) (set xs \<union> set ys)" using arg_cong [OF c(1), of set] by simp
  ultimately show "set (swap_remove p c) = set c - {c ! p}" unfolding sr set_append y by auto
  show "distinct (names_of (swap_remove p c))"
    unfolding sr using d by (cases ys rule: rev_cases) (auto simp: names_of_def)
  show "length (swap_remove p c) = length c - 1"
    unfolding sr using arg_cong [OF c(1), of length] by simp
qed

lemma rebuild_filter_spec:
  assumes "is_iter (index_iter E)" "distinct (map fst (sg_index s))"
  shows "bloom.covers (xxh128 E) (sg_filter (rebuild_filter E s)) (set (names_of (seg_entries s)))"
    "sg_index (rebuild_filter E s) = sg_index s" "sg_count (rebuild_filter E s) = sg_count s"
    "sg_cap (rebuild_filter E s) = sg_cap s"
proof -
  let ?f = "new_blocked_tuned (floats E) (of_nat (sg_cap s)) (sg_fp s)"
  have nest: "fold (\<lambda>(h, chain). fold (\<lambda>e. bf_add (xxh128 E) (dent_name e)) chain) idx f =
      fold (bf_add (xxh128 E)) (names_of (concat (map snd idx))) f" for idx :: index and f
    by (induction idx arbitrary: f) (auto simp: names_of_def fold_map comp_def split: prod.splits)
  have "set (names_of (concat (map snd (index_iter E (sg_index s))))) = set (names_of (seg_entries s))"
    using is_iter_D(2) [OF assms] by (simp add: names_of_def seg_entries_def)
  then show "bloom.covers (xxh128 E) (sg_filter (rebuild_filter E s)) (set (names_of (seg_entries s)))"
    using bloom.covers_fold [of ?f "xxh128 E" "names_of (concat (map snd (index_iter E (sg_index s))))"]
    by (simp add: rebuild_filter_def Let_def nest)
qed (simp_all add: rebuild_filter_def Let_def)

lemma seg_remove_miss:
  assumes "seg_ok E s" "n \<notin> set (names_of (seg_entries s))"
  shows "seg_remove E (xxh64 E n) n s = (False, s)"
proof (cases "map_of (sg_index s) (xxh64 E n)")
  case (Some c)
  then have "set c \<subseteq> set (seg_entries s)" by (auto simp: seg_entries_def dest!: map_of_SomeD)
  then have "chain_position c n = None" using assms(2) by (auto simp: chain_position_None names_of_def)
  with Some show ?thesis by (simp add: seg_remove_def)
qed (simp add: seg_remove_def)

lemma seg_remove_hit:
  assumes "seg_ok E s" "is_iter (index_iter E)" "e \<in> set (seg_entries s)" "dent_name e = n"
  shows "\<exists>s'. seg_remove E (xxh64 E n) n s = (True, s') \<and> seg_ok E s' \<and>
    set (seg_entries s') = set (seg_entries s) - {e} \<and> sg_cap s' = sg_cap s \<and>
    length (seg_entries s') = length (seg_entries s) - 1"
proof -
  let ?idx = "sg_index s" and ?h = "xxh64 E n"
  have ok: "distinct (map fst ?idx)" "\<forall>(h, c) \<in> set ?idx. \<forall>e \<in> set c. xxh64 E (dent_name e) = h"
    "distinct (names_of (seg_entries s))" "bloom.covers (xxh128 E) (sg_filter s) (set (names_of (seg_entries s)))"
    "sg_count s = length (seg_entries s)"
    using assms(1) by (auto simp: seg_ok_def)
  obtain c where c: "(?h, c) \<in> set ?idx" "e \<in> set c"
    using assms(3,4) ok(2) by (auto simp: seg_entries_def)
  then have mo: "map_of ?idx ?h = Some c" using ok(1) by (simp add: map_of_eq_Some_iff)
  obtain l1 l2 where t: "?idx = l1 @ (?h, c) # l2" "\<And>v'. AList.update ?h v' ?idx = l1 @ (?h, v') # l2"
      "AList.delete ?h ?idx = l1 @ l2" "?h \<notin> fst ` set l1" "?h \<notin> fst ` set l2"
    using alist_split [OF mo ok(1)] by metis
  define E1 E2 where "E1 = concat (map snd l1)" and "E2 = concat (map snd l2)"
  have ent: "seg_entries s = E1 @ c @ E2" by (simp add: seg_entries_def t(1) E1_def E2_def)
  have dc: "distinct (names_of c)" using ok(3) ent by (simp add: names_of_def)
  have "n \<in> set (names_of c)" using c(2) assms(4) by (auto simp: names_of_def)
  then obtain p where p: "chain_position c n = Some p"
    using chain_position_None [of c n] by (cases "chain_position c n") auto
  have cp: "p < length c" "c ! p = e"
    using chain_position_Some [OF p] c(2) dc assms(4)
    by (auto simp: names_of_def distinct_map dest: inj_onD)
  note sr = swap_remove_perm [OF cp(1) dc]
  define idx' where "idx' = (if swap_remove p c = [] then l1 @ l2 else l1 @ (?h, swap_remove p c) # l2)"
  define s0 where "s0 = s\<lparr>sg_index := idx', sg_count := sg_count s - 1, sg_tomb := sg_tomb s + 1\<rparr>"
  define s' where "s' = (if sg_tomb s0 \<ge> rebuild_threshold s0 then rebuild_filter E s0 else s0)"
  have del: "AList.delete ?h (l1 @ (?h, []) # l2) = l1 @ l2"
    using t(4,5) by (rule alist_delete_mid)
  have rm: "seg_remove E ?h n s = (True, s')"
    using mo p t(2) del unfolding s'_def s0_def idx'_def by (simp add: seg_remove_def Let_def)
  have keys: "distinct (map fst idx')" "\<forall>(h, c) \<in> set idx'. \<forall>e \<in> set c. xxh64 E (dent_name e) = h"
    using ok(1,2) sr(1) unfolding t(1) idx'_def by auto
  have ent0: "seg_entries s0 = E1 @ swap_remove p c @ E2"
    by (simp add: seg_entries_def s0_def idx'_def E1_def E2_def)
  have out: "e \<notin> set E1" "e \<notin> set E2" using ok(3) c(2) unfolding ent by (auto simp: names_of_def)
  have st: "set (seg_entries s0) = set (seg_entries s) - {e}"
    unfolding ent ent0 using sr(1) cp(2) out by auto
  have dn: "distinct (names_of (seg_entries s0))"
    using ok(3) sr(1,2) unfolding ent ent0 by (auto simp: names_of_def)
  have len: "length (seg_entries s0) = length (seg_entries s) - 1"
    using sr(3) cp(1) unfolding ent ent0 by simp
  have cov: "bloom.covers (xxh128 E) (sg_filter s0) (set (names_of (seg_entries s0)))"
    using ok(4) st by (auto simp: s0_def names_of_def intro: bloom.covers_mono)
  have "seg_ok E s0"
    using keys dn cov len ok(5) by (simp add: seg_ok_def s0_def)
  moreover have "seg_ok E (rebuild_filter E s0)" "seg_entries (rebuild_filter E s0) = seg_entries s0"
    using rebuild_filter_spec [OF assms(2), of s0] keys dn len ok(5)
    by (auto simp: seg_ok_def seg_entries_def s0_def)
  ultimately show ?thesis
    using rm st len rebuild_filter_spec(4) [OF assms(2), of s0] keys(1)
    by (auto simp: s'_def s0_def)
qed

section \<open>Directories\<close>

definition dir_all :: "directory \<Rightarrow> dir_entry list" where
  "dir_all d = concat (map seg_entries (dr_segments d))"

definition dir_map :: "directory \<Rightarrow> name \<rightharpoonup> inode_id" where
  "dir_map d = entry_map (dir_all d)"

definition seg_fits :: "nat \<Rightarrow> segment \<Rightarrow> bool" where
  "seg_fits cap s = (sg_cap s = cap \<and> sg_count s \<le> max cap 1)"

definition dir_ok :: "dir_env \<Rightarrow> directory \<Rightarrow> bool" where
  "dir_ok E d = ((\<forall>s \<in> set (dr_segments d). seg_ok E s \<and> seg_fits (dr_cap d) s) \<and>
     distinct (names_of (dir_all d)))"

lemma names_of_append [simp]: "names_of (a @ b) = names_of a @ names_of b"
  by (simp add: names_of_def)

lemma names_of_set: "set a = set b \<Longrightarrow> set (names_of a) = set (names_of b)"
  by (simp add: names_of_def)

lemma dir_new_ok: "dir_ok E (dir_with_cap E capacity fp)" "dir_map (dir_with_cap E capacity fp) = Map.empty"
  using seg_new_ok [of E capacity fp]
  by (auto simp: dir_ok_def dir_with_cap_def dir_all_def dir_map_def seg_fits_def seg_new_def names_of_def entry_map_def)

lemma find_in_segments_eq:
  "\<forall>s \<in> set ss. seg_ok E s \<Longrightarrow> find_in_segments E (xxh64 E n) n ss = entry_map (concat (map seg_entries ss)) n"
proof (induction ss)
  case (Cons s ss)
  then show ?case by (auto simp: seg_find_eq entry_map_append split: option.splits)
qed (simp add: entry_map_def)

lemma dir_find_eq: "dir_ok E d \<Longrightarrow> dir_find E d n = dir_map d n"
  by (simp add: dir_find_def dir_map_def dir_all_def dir_ok_def find_in_segments_eq)

text \<open>Replacing one segment by another whose names do not meet those of the rest.\<close>

lemma dir_ok_replace:
  assumes "dir_ok E d" "dr_segments d = l1 @ s # l2" "seg_ok E s'" "seg_fits (dr_cap d) s'"
    and "set (names_of (seg_entries s')) \<subseteq> insert n (set (names_of (seg_entries s)))"
    and "n \<in> set (names_of (seg_entries s')) \<Longrightarrow> n \<in> set (names_of (seg_entries s)) \<or> n \<notin> set (names_of (dir_all d))"
  shows "dir_ok E (d\<lparr>dr_segments := l1 @ s' # l2\<rparr>)"
proof -
  have "distinct (names_of (seg_entries s'))" using assms(3) by (simp add: seg_ok_def)
  then show ?thesis using assms unfolding dir_ok_def dir_all_def by auto
qed

lemma add_first_free_split:
  "add_first_free E h n i ss = Some ss' \<Longrightarrow>
   \<exists>l1 s l2. ss = l1 @ s # l2 \<and> \<not> seg_full s \<and> ss' = l1 @ seg_add E h n i s # l2"
proof (induction ss arbitrary: ss')
  case (Cons s ss)
  show ?case
  proof (cases "seg_full s")
    case True
    then obtain ss1 where r: "add_first_free E h n i ss = Some ss1" "ss' = s # ss1"
      using Cons.prems by auto
    obtain l1 x l2 where "ss = l1 @ x # l2 \<and> \<not> seg_full x \<and> ss1 = l1 @ seg_add E h n i x # l2"
      using Cons.IH [OF r(1)] by blast
    then show ?thesis using r by (intro exI [of _ "s # l1"] exI [of _ x] exI [of _ l2]) simp
  next
    case False
    then show ?thesis using Cons.prems by (intro exI [of _ "[]"] exI [of _ s] exI [of _ ss]) simp
  qed
qed simp

lemma dir_push_unique_spec:
  assumes "dir_ok E d" "n \<notin> set (names_of (dir_all d))"
  shows "dir_ok E (dir_push_unique E n i d)" "dir_map (dir_push_unique E n i d) = (dir_map d)(n \<mapsto> i)"
proof -
  let ?e = "\<lparr>dent_name = n, dent_inode = i\<rparr>" and ?d' = "dir_push_unique E n i d"
  have "dir_ok E ?d' \<and> set (dir_all ?d') = insert ?e (set (dir_all d))"
  proof (cases "add_first_free E (xxh64 E n) n i (dr_segments d)")
    case (Some ss')
    obtain l1 s l2 where l: "dr_segments d = l1 @ s # l2" "\<not> seg_full s"
        "ss' = l1 @ seg_add E (xxh64 E n) n i s # l2"
      using add_first_free_split [OF Some] by blast
    have s: "seg_ok E s" "seg_fits (dr_cap d) s" "n \<notin> set (names_of (seg_entries s))"
      using assms l(1) by (auto simp: dir_ok_def dir_all_def)
    note add = seg_add_spec [OF s(1,3) refl, of i]
    have d': "?d' = d\<lparr>dr_segments := l1 @ seg_add E (xxh64 E n) n i s # l2\<rparr>"
      using Some l(3) by (simp add: dir_push_unique_def)
    have "seg_fits (dr_cap d) (seg_add E (xxh64 E n) n i s)"
      using s(2) l(2) by (simp add: seg_fits_def seg_full_def seg_add_def)
    moreover have "set (names_of (seg_entries (seg_add E (xxh64 E n) n i s))) = insert n (set (names_of (seg_entries s)))"
      using add(2) by (simp add: names_of_def)
    ultimately have "dir_ok E ?d'"
      unfolding d' using assms add(1) l(1) by (intro dir_ok_replace [where n = n]) auto
    moreover have "set (dir_all ?d') = insert ?e (set (dir_all d))"
      unfolding d' dir_all_def using l(1) add(2) by auto
    ultimately show ?thesis by blast
  next
    case None
    let ?s0 = "seg_new E (dr_cap d) (dr_fp d)"
    note new = seg_new_ok [of E "dr_cap d" "dr_fp d"]
    note add = seg_add_spec [OF new(1) _ refl, of n i]
    have e: "seg_entries (seg_add E (xxh64 E n) n i ?s0) = [?e]"
      using add(2,3) new(2) by (auto simp: names_of_def length_Suc_conv)
    have d': "?d' = d\<lparr>dr_segments := dr_segments d @ [seg_add E (xxh64 E n) n i ?s0]\<rparr>"
      using None by (simp add: dir_push_unique_def)
    have "seg_fits (dr_cap d) (seg_add E (xxh64 E n) n i ?s0)"
      by (simp add: seg_fits_def seg_add_def seg_new_def)
    then show ?thesis
      using assms add(1) new(2) e unfolding d' dir_ok_def dir_all_def by (auto simp: names_of_def)
  qed
  then show "dir_ok E ?d'" "dir_map ?d' = (dir_map d)(n \<mapsto> i)"
    using assms by (auto simp: dir_map_def dir_ok_def intro: entry_map_insert)
qed

lemma dir_add_spec:
  assumes "dir_ok E d"
  shows "dir_add E n i d = (if dir_map d n = None then (True, dir_push_unique E n i d) else (False, d))"
proof -
  have "list_ex (\<lambda>s. seg_find E s (xxh64 E n) n \<noteq> None) (dr_segments d) \<longleftrightarrow>
      (\<exists>s \<in> set (dr_segments d). n \<in> set (names_of (seg_entries s)))"
    using assms unfolding list_ex_iff by (intro bex_cong) (simp_all add: dir_ok_def seg_find_eq entry_map_None)
  also have "\<dots> \<longleftrightarrow> dir_map d n \<noteq> None"
    by (auto simp: dir_map_def entry_map_None dir_all_def names_of_def)
  finally show ?thesis
    by (simp add: dir_add_def dir_push_unique_def Let_def split: option.splits)
qed

lemma remove_in_segments_miss:
  "\<forall>s \<in> set ss. seg_ok E s \<and> n \<notin> set (names_of (seg_entries s)) \<Longrightarrow>
   remove_in_segments E (xxh64 E n) n ss = (False, ss)"
  by (induction ss) (auto simp: seg_remove_miss)

lemma remove_in_segments_hit:
  assumes "\<forall>s \<in> set l1. seg_ok E s \<and> n \<notin> set (names_of (seg_entries s))"
    and "seg_remove E (xxh64 E n) n s = (True, s')"
  shows "remove_in_segments E (xxh64 E n) n (l1 @ s # l2) = (True, l1 @ s' # l2)"
  using assms by (induction l1) (auto simp: seg_remove_miss)

lemma dir_delete_spec:
  assumes "dir_ok E d" "is_iter (index_iter E)"
  shows "dir_map d n = None \<Longrightarrow> dir_delete E n d = (False, d)"
    "dir_map d n = Some i \<Longrightarrow>
      \<exists>d'. dir_delete E n d = (True, d') \<and> dir_ok E d' \<and> dir_map d' = (dir_map d)(n := None)"
proof -
  assume "dir_map d n = None"
  then have "n \<notin> set (names_of (dir_all d))" by (simp add: dir_map_def entry_map_None)
  then have "remove_in_segments E (xxh64 E n) n (dr_segments d) = (False, dr_segments d)"
    using assms(1) by (intro remove_in_segments_miss) (auto simp: dir_ok_def dir_all_def names_of_def)
  then show "dir_delete E n d = (False, d)" by (simp add: dir_delete_def)
next
  assume "dir_map d n = Some i"
  then have "n \<in> set (names_of (dir_all d))" by (metis dir_map_def entry_map_None option.distinct(1))
  then obtain s e where s: "s \<in> set (dr_segments d)" "e \<in> set (seg_entries s)" "dent_name e = n"
    by (auto simp: dir_all_def names_of_def)
  obtain l1 l2 where l: "dr_segments d = l1 @ s # l2" using s(1) by (auto simp: in_set_conv_decomp)
  have nin: "n \<in> set (names_of (seg_entries s))" using s(2,3) by (auto simp: names_of_def)
  have ok: "seg_ok E s" "seg_fits (dr_cap d) s" "\<forall>s \<in> set l1. seg_ok E s"
    "n \<notin> set (names_of (concat (map seg_entries (l1 @ l2))))" "distinct (names_of (dir_all d))"
    using assms(1) l nin by (auto simp: dir_ok_def dir_all_def)
  obtain s' where s': "seg_remove E (xxh64 E n) n s = (True, s')" "seg_ok E s'"
      "set (seg_entries s') = set (seg_entries s) - {e}" "sg_cap s' = sg_cap s"
      "length (seg_entries s') = length (seg_entries s) - 1"
    using seg_remove_hit [OF ok(1) assms(2) s(2,3)] by blast
  let ?d' = "d\<lparr>dr_segments := l1 @ s' # l2\<rparr>"
  have "remove_in_segments E (xxh64 E n) n (l1 @ s # l2) = (True, l1 @ s' # l2)"
    using ok(3,4) by (intro remove_in_segments_hit s'(1)) (auto simp: names_of_def)
  then have del: "dir_delete E n d = (True, ?d')" by (simp add: dir_delete_def l)
  have "sg_count s' \<le> sg_count s" using ok(1) s'(2,5) by (simp add: seg_ok_def)
  then have "seg_fits (dr_cap d) s'" using ok(2) s'(4) by (simp add: seg_fits_def)
  moreover have "set (names_of (seg_entries s')) \<subseteq> insert n (set (names_of (seg_entries s)))"
    using s'(3) by (auto simp: names_of_def)
  ultimately have ok': "dir_ok E ?d'" using assms(1) l s'(2) nin by (intro dir_ok_replace [where n = n]) auto
  have "e \<notin> set (concat (map seg_entries (l1 @ l2)))" using ok(4) s(3) by (auto simp: names_of_def)
  then have "set (dir_all ?d') = set (dir_all d) - {e}" using s'(3) l by (auto simp: dir_all_def)
  moreover have "e \<in> set (dir_all d)" using s l by (auto simp: dir_all_def)
  ultimately have "dir_map ?d' = (dir_map d)(n := None)"
    using ok(5) ok' s(3) entry_map_remove [of "dir_all d" e "dir_all ?d'"]
    by (simp add: dir_map_def dir_ok_def)
  with del ok' show "\<exists>d'. dir_delete E n d = (True, d') \<and> dir_ok E d' \<and> dir_map d' = (dir_map d)(n := None)"
    by blast
qed

lemma distinct_concat_perm:
  assumes "distinct xs" "distinct ys" "set xs = set ys" "distinct (concat (map g ys))"
  shows "distinct (concat (map g xs))"
proof -
  have r: "removeAll [] (map g zs) = map g (filter (\<lambda>x. g x \<noteq> []) zs)" for zs
    by (induction zs) auto
  show ?thesis
    using assms unfolding distinct_concat_iff r distinct_map by simp
qed

lemma seg_iter_entries:
  assumes "seg_ok E s" "is_iter (index_iter E)" "es = concat (map snd (index_iter E (sg_index s)))"
  shows "set es = set (seg_entries s)" "distinct (names_of es)" "length es = sg_count s"
proof -
  have k: "distinct (map fst (sg_index s))" "distinct (names_of (seg_entries s))"
    using assms(1) by (auto simp: seg_ok_def)
  note it = is_iter_D [OF assms(2) k(1)]
  show st: "set es = set (seg_entries s)" using it(2) assms(3) by (simp add: seg_entries_def)
  have n: "names_of (concat (map snd t)) = concat (map (names_of \<circ> snd) t)" for t :: index
    by (induction t) (auto simp: names_of_def)
  have "distinct (index_iter E (sg_index s))" "distinct (sg_index s)"
    using it(1) k(1) by (auto simp: distinct_map)
  then show d: "distinct (names_of es)"
    using it(2) k(2) unfolding assms(3) seg_entries_def n by (rule distinct_concat_perm)
  have "distinct es" "distinct (seg_entries s)" using d k(2) by (auto simp: names_of_def distinct_map)
  then have "length es = length (seg_entries s)" using st by (metis distinct_card)
  then show "length es = sg_count s" using assms(1) by (simp add: seg_ok_def)
qed

lemma dir_entries_eq:
  assumes "dir_ok E d" "is_iter (index_iter E)"
  shows "distinct (names_of (dir_entries E d))" "entry_map (dir_entries E d) = dir_map d"
    "length (dir_entries E d) = dir_len d"
proof -
  let ?it = "\<lambda>s. concat (map snd (index_iter E (sg_index s)))"
  have "set (concat (map ?it ss)) = set (concat (map seg_entries ss)) \<and>
      distinct (names_of (concat (map ?it ss))) \<and>
      length (concat (map ?it ss)) = sum_list (map sg_count ss)"
    if "\<forall>s \<in> set ss. seg_ok E s" "distinct (names_of (concat (map seg_entries ss)))" for ss
    using that
  proof (induction ss)
    case (Cons s ss)
    note it = seg_iter_entries [OF _ assms(2) refl, of s]
    have "set (names_of (?it s)) = set (names_of (seg_entries s))"
      using it(1) Cons.prems(1) by (simp add: names_of_def)
    moreover have "set (names_of (concat (map ?it ss))) = set (names_of (concat (map seg_entries ss)))"
      using Cons by (intro names_of_set) simp
    ultimately show ?case using Cons it by auto
  qed (simp add: names_of_def)
  from this [of "dr_segments d"] have "set (dir_entries E d) = set (dir_all d)"
    "distinct (names_of (dir_entries E d))" "length (dir_entries E d) = dir_len d"
    using assms(1) by (auto simp: dir_ok_def dir_all_def dir_entries_def dir_len_def)
  then show "distinct (names_of (dir_entries E d))" "entry_map (dir_entries E d) = dir_map d"
    "length (dir_entries E d) = dir_len d"
    using assms(1) entry_map_eqI [of "dir_entries E d" "dir_all d"]
    by (auto simp: dir_map_def dir_ok_def)
qed

section \<open>The contract of a name index\<close>

locale name_map =
  fixes inv :: "'d \<Rightarrow> bool"
    and abs :: "'d \<Rightarrow> 'n \<rightharpoonup> 'i"
    and add :: "'n \<Rightarrow> 'i \<Rightarrow> 'd \<Rightarrow> bool \<times> 'd"
    and push :: "'n \<Rightarrow> 'i \<Rightarrow> 'd \<Rightarrow> 'd"
    and find :: "'d \<Rightarrow> 'n \<Rightarrow> 'i option"
    and del :: "'n \<Rightarrow> 'd \<Rightarrow> bool \<times> 'd"
    and listing :: "'d \<Rightarrow> ('n \<times> 'i) list"
  assumes find_abs: "inv d \<Longrightarrow> find d n = abs d n"
    and add_dup: "inv d \<Longrightarrow> abs d n \<noteq> None \<Longrightarrow> add n i d = (False, d)"
    and add_new: "inv d \<Longrightarrow> abs d n = None \<Longrightarrow> add n i d = (True, push n i d)"
    and push_new: "inv d \<Longrightarrow> abs d n = None \<Longrightarrow>
      inv (push n i d) \<and> abs (push n i d) = (abs d)(n \<mapsto> i)"
    and del_miss: "inv d \<Longrightarrow> abs d n = None \<Longrightarrow> del n d = (False, d)"
    and del_hit: "inv d \<Longrightarrow> abs d n = Some i \<Longrightarrow>
      \<exists>d'. del n d = (True, d') \<and> inv d' \<and> abs d' = (abs d)(n := None)"
    and listing_distinct: "inv d \<Longrightarrow> distinct (map fst (listing d))"
    and listing_abs: "inv d \<Longrightarrow> map_of (listing d) = abs d"
begin

text \<open>Loading the listing of one index into an empty one gives the same map.\<close>

lemma push_all:
  assumes "inv d0" "distinct (map fst xs)" "\<forall>n \<in> fst ` set xs. abs d0 n = None"
  shows "inv (fold (\<lambda>(n, i). push n i) xs d0) \<and>
    abs (fold (\<lambda>(n, i). push n i) xs d0) = abs d0 ++ map_of xs"
  using assms
proof (induction xs arbitrary: d0)
  case (Cons x xs)
  obtain n i where x: "x = (n, i)" by (cases x)
  have p: "inv (push n i d0)" "abs (push n i d0) = (abs d0)(n \<mapsto> i)"
    using push_new [of d0 n i] Cons.prems x by auto
  have "n \<notin> fst ` set xs" using Cons.prems(2) x by auto
  then have "map_of xs n = None" by (simp add: map_of_eq_None_iff)
  then have eq: "abs d0 ++ map_of (x # xs) = abs (push n i d0) ++ map_of xs"
    unfolding p by (auto simp: x map_add_def split: option.splits)
  have "\<forall>m \<in> fst ` set xs. abs (push n i d0) m = None" using Cons.prems x p by auto
  then have "inv (fold (\<lambda>(n, i). push n i) xs (push n i d0)) \<and>
      abs (fold (\<lambda>(n, i). push n i) xs (push n i d0)) = abs (push n i d0) ++ map_of xs"
    using Cons.prems(2) p(1) by (intro Cons.IH) auto
  then show ?case unfolding eq by (simp add: x)
qed simp

lemma reload:
  assumes "inv d" "inv d0" "abs d0 = Map.empty"
  shows "abs (fold (\<lambda>(n, i). push n i) (listing d) d0) = abs d"
  using push_all [OF assms(2) listing_distinct [OF assms(1)]] assms listing_abs by auto

end

interpretation dmap: name_map "\<lambda>d. dir_ok E d \<and> is_iter (index_iter E)" dir_map "dir_add E"
  "dir_push_unique E" "dir_find E" "dir_delete E" "\<lambda>d. map entry_pair (dir_entries E d)" for E
proof (unfold_locales, goal_cases)
  case (2 d n i)
  then show ?case by (simp add: dir_add_spec)
next
  case (4 d n i)
  then show ?case using dir_push_unique_spec [of E d n i] by (simp add: dir_map_def entry_map_None)
next
  case (6 d n i)
  then show ?case using dir_delete_spec(2) [of E d n i] by blast
qed (auto simp: dir_find_eq dir_add_spec dir_delete_spec(1) dir_entries_eq entry_map_def [symmetric])

section \<open>Properties\<close>

text \<open>A history of directory operations and what each of them returns, on the directory and on
  a finite map.\<close>

datatype dir_op = AddOp name inode_id | DeleteOp name | FindOp name

datatype dir_out = Done bool | Found "inode_id option"

fun dir_run :: "dir_env \<Rightarrow> dir_op list \<Rightarrow> directory \<Rightarrow> dir_out list \<times> directory" where
  "dir_run E [] d = ([], d)"
| "dir_run E (AddOp n i # ops) d =
     (case dir_add E n i d of (b, d') \<Rightarrow> case dir_run E ops d' of (r, d'') \<Rightarrow> (Done b # r, d''))"
| "dir_run E (DeleteOp n # ops) d =
     (case dir_delete E n d of (b, d') \<Rightarrow> case dir_run E ops d' of (r, d'') \<Rightarrow> (Done b # r, d''))"
| "dir_run E (FindOp n # ops) d =
     (case dir_run E ops d of (r, d'') \<Rightarrow> (Found (dir_find E d n) # r, d''))"

fun map_run :: "dir_op list \<Rightarrow> (name \<rightharpoonup> inode_id) \<Rightarrow> dir_out list \<times> (name \<rightharpoonup> inode_id)" where
  "map_run [] m = ([], m)"
| "map_run (AddOp n i # ops) m =
     (case map_run ops (if m n = None then m(n \<mapsto> i) else m) of (r, m') \<Rightarrow> (Done (m n = None) # r, m'))"
| "map_run (DeleteOp n # ops) m =
     (case map_run ops (m(n := None)) of (r, m') \<Rightarrow> (Done (m n \<noteq> None) # r, m'))"
| "map_run (FindOp n # ops) m = (case map_run ops m of (r, m') \<Rightarrow> (Found (m n) # r, m'))"

lemma dir_run_refines:
  assumes "is_iter (index_iter E)"
  shows "dir_ok E d \<Longrightarrow> dir_run E ops d = (r, d') \<Longrightarrow>
    dir_ok E d' \<and> map_run ops (dir_map d) = (r, dir_map d')"
proof (induction ops arbitrary: d r)
  case Nil
  then show ?case by simp
next
  case (Cons op ops)
  have find: "dir_find E d n = dir_map d n" for n using Cons.prems(1) by (rule dir_find_eq)
  show ?case
  proof (cases op)
    case (AddOp n i)
    show ?thesis
    proof (cases "dir_map d n = None")
      case True
      then have a: "dir_add E n i d = (True, dir_push_unique E n i d)"
        and p: "dir_ok E (dir_push_unique E n i d)" "dir_map (dir_push_unique E n i d) = (dir_map d)(n \<mapsto> i)"
        using Cons.prems(1) dmap.add_new [of E d n i] dmap.push_new [of E d n i] assms by auto
      obtain r1 where r1: "dir_run E ops (dir_push_unique E n i d) = (r1, d')" "r = Done True # r1"
        using Cons.prems(2) a AddOp by (auto split: prod.splits)
      have "dir_ok E d'" "map_run ops ((dir_map d)(n \<mapsto> i)) = (r1, dir_map d')"
        using Cons.IH [OF p(1) r1(1)] unfolding p(2) by blast+
      then show ?thesis unfolding AddOp map_run.simps r1(2) True by simp
    next
      case False
      then have "dir_add E n i d = (False, d)" using Cons.prems(1) dmap.add_dup [of E d n i] assms by auto
      then show ?thesis
        using Cons.prems(2) Cons.IH [OF Cons.prems(1)] False AddOp by (auto split: prod.splits)
    qed
  next
    case (DeleteOp n)
    show ?thesis
    proof (cases "dir_map d n")
      case None
      then have "dir_delete E n d = (False, d)" "(dir_map d)(n := None) = dir_map d"
        using Cons.prems(1) dmap.del_miss [of E d n] assms by auto
      then show ?thesis
        using Cons.prems(2) Cons.IH [OF Cons.prems(1)] None DeleteOp by (auto split: prod.splits)
    next
      case (Some i)
      then obtain d1 where d1: "dir_delete E n d = (True, d1)" "dir_ok E d1" "dir_map d1 = (dir_map d)(n := None)"
        using Cons.prems(1) dmap.del_hit [of E d n i] assms by auto
      obtain r1 where r1: "dir_run E ops d1 = (r1, d')" "r = Done True # r1"
        using Cons.prems(2) d1(1) DeleteOp by (auto split: prod.splits)
      have "dir_ok E d'" "map_run ops ((dir_map d)(n := None)) = (r1, dir_map d')"
        using Cons.IH [OF d1(2) r1(1)] unfolding d1(3) by blast+
      then show ?thesis unfolding DeleteOp map_run.simps r1(2) Some by simp
    qed
  next
    case (FindOp n)
    then show ?thesis
      using Cons.prems(2) Cons.IH [OF Cons.prems(1)] find by (auto split: prod.splits)
  qed
qed

text \<open>C27. A directory is a finite map from names to inodes: every history of \<open>add\<close>, \<open>delete\<close>
  and \<open>find\<close> on a new directory, of any segment capacity, returns what the same history returns on
  a map, whatever the two hash functions, the filter sizes and the iteration order of the index.\<close>

theorem directory_refines_map:
  assumes "is_iter (index_iter E)" "dir_run E ops (dir_with_cap E capacity fp) = (r, d)"
  shows "map_run ops Map.empty = (r, dir_map d)"
  using dir_run_refines [OF assms(1) dir_new_ok(1) assms(2)] dir_new_ok(2) by simp

theorem directory_refines_map_witness:
  "let E = \<lparr>xxh128 = \<lambda>b s. 5, xxh64 = \<lambda>b. 3, floats = zero_f64, index_iter = id\<rparr>;
       ops = [AddOp [97] 1, AddOp [98] 2, AddOp [97] 9, DeleteOp [97], FindOp [98], FindOp [97]]
   in fst (dir_run E ops (dir_with_cap E 1 5)) =
        [Done True, Done True, Done False, Done True, Found (Some 2), Found None]"
proof -
  let ?E = "\<lparr>xxh128 = \<lambda>b s. 5, xxh64 = \<lambda>b. 3, floats = zero_f64, index_iter = id\<rparr>"
  let ?ops = "[AddOp [97] 1, AddOp [98] 2, AddOp [97] 9, DeleteOp [97], FindOp [98], FindOp [97]]"
  obtain r d where rd: "dir_run ?E ?ops (dir_with_cap ?E 1 5) = (r, d)" by fastforce
  have "map_run ?ops Map.empty = (r, dir_map d)"
    by (rule directory_refines_map [OF _ rd]) (simp add: is_iter_def)
  then show ?thesis using rd by auto
qed

text \<open>C28. Reloading: the entries of a directory reached by any history, linked one by one with
  \<open>push_unique\<close> into a new directory, give the same map; the entries name every name once, and
  \<open>len\<close> counts them.\<close>

theorem directory_reload:
  assumes "is_iter (index_iter E)" "dir_run E ops (dir_new E) = (r, d)"
  shows "dir_map (fold (\<lambda>(n, i). dir_push_unique E n i) (map entry_pair (dir_entries E d)) (dir_new E)) = dir_map d \<and>
    distinct (dir_list E d) \<and> length (dir_entries E d) = dir_len d \<and> dir_len d = card (dom (dir_map d))"
proof -
  have ok: "dir_ok E (dir_new E)" "dir_map (dir_new E) = Map.empty"
    unfolding dir_new_def by (rule dir_new_ok)+
  have d: "dir_ok E d" using dir_run_refines [OF assms(1) ok(1) assms(2)] by simp
  note e = dir_entries_eq [OF d assms(1)]
  have "card (dom (dir_map d)) = length (dir_entries E d)"
    using e(1) unfolding e(2) [symmetric] entry_map_def
    by (simp add: dom_map_of_conv_image_fst names_of_def image_image distinct_card flip: set_map)
  moreover have "distinct (dir_list E d)" using e(1) by (simp add: dir_list_def names_of_def)
  ultimately show ?thesis
    using dmap.reload [of E d "dir_new E"] d ok assms(1) e(3) by simp
qed

theorem directory_reload_witness:
  "let E = \<lparr>xxh128 = \<lambda>b s. 5, xxh64 = \<lambda>b. 3, floats = zero_f64, index_iter = rev\<rparr>;
       d = snd (dir_run E [AddOp [97] 1] (dir_new E))
   in dir_map (fold (\<lambda>(n, i). dir_push_unique E n i) (map entry_pair (dir_entries E d)) (dir_new E)) = dir_map d"
proof -
  let ?E = "\<lparr>xxh128 = \<lambda>b s. 5, xxh64 = \<lambda>b. 3, floats = zero_f64, index_iter = rev\<rparr>"
  obtain r d where rd: "dir_run ?E [AddOp [97] 1] (dir_new ?E) = (r, d)" by fastforce
  have "is_iter rev" by (simp add: is_iter_def rev_map [symmetric])
  then have "is_iter (index_iter ?E)" by simp
  from directory_reload [OF this rd] show ?thesis unfolding Let_def rd snd_conv by blast
qed

text \<open>C29. Segments stay within their capacity: after any history no segment of a directory with a
  per-segment capacity of at least one holds more entries than that.\<close>

theorem segments_within_capacity:
  assumes "is_iter (index_iter E)" "1 \<le> capacity" "dir_run E ops (dir_with_cap E capacity fp) = (r, d)"
  shows "\<forall>s \<in> set (dr_segments d). length (seg_entries s) \<le> capacity \<and> sg_count s = length (seg_entries s)"
proof -
  have cap: "dir_run E ops d0 = (r, d) \<Longrightarrow> dr_cap d = dr_cap d0" for d0
  proof (induction E ops d0 arbitrary: r rule: dir_run.induct)
    case (2 E n i ops d0)
    then show ?case
      by (auto simp: dir_add_def Let_def split: prod.splits if_splits option.splits)
  qed (auto simp: dir_delete_def split: prod.splits)
  have "dir_ok E d" using dir_run_refines [OF assms(1) dir_new_ok(1) assms(3)] by simp
  moreover have "dr_cap d = capacity" using cap [OF assms(3)] by (simp add: dir_with_cap_def)
  ultimately show ?thesis using assms(2) by (auto simp: dir_ok_def seg_fits_def seg_ok_def)
qed

theorem segments_within_capacity_witness:
  "let E = \<lparr>xxh128 = \<lambda>b s. 5, xxh64 = \<lambda>b. 3, floats = zero_f64, index_iter = id\<rparr>;
       d = snd (dir_run E [AddOp [97] 1, AddOp [98] 2] (dir_with_cap E 1 5))
   in \<forall>s \<in> set (dr_segments d). length (seg_entries s) \<le> 1"
proof -
  let ?E = "\<lparr>xxh128 = \<lambda>b s. 5, xxh64 = \<lambda>b. 3, floats = zero_f64, index_iter = id\<rparr>"
  obtain r d where rd: "dir_run ?E [AddOp [97] 1, AddOp [98] 2] (dir_with_cap ?E 1 5) = (r, d)" by fastforce
  have "is_iter (index_iter ?E)" by (simp add: is_iter_def)
  from segments_within_capacity [OF this _ rd] show ?thesis unfolding Let_def rd snd_conv by simp
qed

end
