(* ===== verification/Store.thy ===== *)
theory Store
  imports Alloc Dedup Block
begin

text \<open>
  The data path of \<^verbatim>\<open>rust/bloomfs-store\<close>: a logical block is hashed, deduplicated, compressed,
  encrypted cluster by cluster and written; reading reverses the steps and checks the content hash.
  The hash, the compressor and the cipher are third-party code: the record \<open>crypto\<close> holds them, and
  \<open>crypto_ok\<close> says what the data path relies on.  The device, the allocator and the dedup table,
  which the code passes to every call, are the record \<open>pool\<close>.

  The lemmas show that what is written reads back, that a read never returns bytes of another hash,
  that a failing write gives its clusters back, and that neither a write nor a release touches a
  cluster that was in use before it.
\<close>

section \<open>Third-party code\<close>

datatype cipher = Aes128 bytes bytes | Aes256 bytes bytes

record crypto =
  blake3 :: "bytes \<Rightarrow> bytes"
  zstd_encode :: "bytes \<Rightarrow> bytes option"
  zstd_decode :: "bytes \<Rightarrow> bytes option"
  aes_key_ok :: "nat \<Rightarrow> bytes \<Rightarrow> bool"
  encrypt_sector :: "cipher \<Rightarrow> u128 \<Rightarrow> bytes \<Rightarrow> bytes"
  decrypt_sector :: "cipher \<Rightarrow> u128 \<Rightarrow> bytes \<Rightarrow> bytes"

text \<open>What the documentation of the three libraries promises: a 32-byte hash, decoding inverts
  encoding, and sector encryption keeps the length and is inverted by decryption at the same
  address.\<close>

definition crypto_ok :: "crypto \<Rightarrow> bool" where
  "crypto_ok C = ((\<forall>b. length (blake3 C b) = 32) \<and>
     (\<forall>b z. zstd_encode C b = Some z \<longrightarrow> zstd_decode C z = Some b) \<and>
     (\<forall>c a s. length (encrypt_sector C c a s) = length s) \<and>
     (\<forall>c a s. decrypt_sector C c a (encrypt_sector C c a s) = s))"

section \<open>The model\<close>

definition BLK :: u64 where
  "BLK = of_nat SIZE"

datatype store_error = BadKey | Compress | Decompress | LogicalMismatch | ContentHashMismatch
  | StoreBlock block_error | StoreAlloc alloc_error

record ref =
  rf_hash :: key
  rf_start :: u64
  rf_count :: u32
  rf_payload :: u32
  rf_logical :: u32
  rf_raw :: bool

definition REF_SIZE :: nat where
  "REF_SIZE = 32 + 8 + 4 + 4 + 4 + 1"

definition ref_marshal :: "ref \<Rightarrow> bytes" where
  "ref_marshal r = copy_all
     [(0, rf_hash r),
      (32, le_bytes 8 (rf_start r)),
      (40, le_bytes 4 (rf_count r)),
      (44, le_bytes 4 (rf_payload r)),
      (48, le_bytes 4 (rf_logical r)),
      (52, [if rf_raw r then 1 else 0])] (replicate REF_SIZE 0)"

definition ref_unmarshal :: "bytes \<Rightarrow> ref" where
  "ref_unmarshal b =
     \<lparr>rf_hash = slice 0 32 b,
      rf_start = from_le (slice 32 40 b),
      rf_count = from_le (slice 40 44 b),
      rf_payload = from_le (slice 44 48 b),
      rf_logical = from_le (slice 48 52 b),
      rf_raw = (b ! 52 = 1)\<rparr>"

definition ref_from :: "key \<Rightarrow> dedup_entry \<Rightarrow> ref" where
  "ref_from k e = \<lparr>rf_hash = k, rf_start = de_start e, rf_count = de_count e,
     rf_payload = de_payload e, rf_logical = de_logical e, rf_raw = de_raw e\<rparr>"

definition cipher_build :: "crypto \<Rightarrow> bytes \<Rightarrow> (store_error, cipher) res" where
  "cipher_build C key =
     (if length key = 32 then
        (if \<not> aes_key_ok C 16 (take 16 key) then Err BadKey
         else if \<not> aes_key_ok C 16 (drop 16 key) then Err BadKey
         else Ok (Aes128 (take 16 key) (drop 16 key)))
      else if length key = 64 then
        (if \<not> aes_key_ok C 32 (take 32 key) then Err BadKey
         else if \<not> aes_key_ok C 32 (drop 32 key) then Err BadKey
         else Ok (Aes256 (take 32 key) (drop 32 key)))
      else Err BadKey)"

definition cipher_encrypt :: "crypto \<Rightarrow> cipher \<Rightarrow> bytes \<Rightarrow> u64 \<Rightarrow> bytes" where
  "cipher_encrypt C c sector addr = encrypt_sector C c (ucast addr) sector"

definition cipher_decrypt :: "crypto \<Rightarrow> cipher \<Rightarrow> bytes \<Rightarrow> u64 \<Rightarrow> bytes" where
  "cipher_decrypt C c sector addr = decrypt_sector C c (ucast addr) sector"

record block_store =
  bs_cipher :: "cipher option"

definition store_new :: "crypto \<Rightarrow> bytes option \<Rightarrow> (store_error, block_store) res" where
  "store_new C key =
     (case key of
        Some k \<Rightarrow> res_bind (cipher_build C k) (\<lambda>c. Ok \<lparr>bs_cipher = Some c\<rparr>)
      | None \<Rightarrow> Ok \<lparr>bs_cipher = None\<rparr>)"

definition clusters :: "nat \<Rightarrow> u64" where
  "clusters n = max (div_ceil (of_nat n) BLK) 1"

record 'd pool =
  po_dev :: 'd
  po_bm :: bitmap
  po_ddt :: dedup_table

definition enc_sector :: "crypto \<Rightarrow> block_store \<Rightarrow> bytes \<Rightarrow> u64 \<Rightarrow> bytes" where
  "enc_sector C bs sec addr = (case bs_cipher bs of Some c \<Rightarrow> cipher_encrypt C c sec addr | None \<Rightarrow> sec)"

definition dec_sector :: "crypto \<Rightarrow> block_store \<Rightarrow> bytes \<Rightarrow> u64 \<Rightarrow> bytes" where
  "dec_sector C bs sec addr = (case bs_cipher bs of Some c \<Rightarrow> cipher_decrypt C c sec addr | None \<Rightarrow> sec)"

fun write_sectors ::
  "crypto \<Rightarrow> 'd device \<Rightarrow> block_store \<Rightarrow> u64 \<Rightarrow> nat list \<Rightarrow> bytes \<Rightarrow> 'd \<Rightarrow> (block_error, unit) res \<times> 'd" where
  "write_sectors C dv bs start [] buf d = (Ok (), d)"
| "write_sectors C dv bs start (i # is) buf d =
     (let off = i * SIZE;
          sec = enc_sector C bs (slice off (off + SIZE) buf) (start + of_nat i)
      in case write_block dv d (start + of_nat i) sec of
           (Ok u, d') \<Rightarrow> write_sectors C dv bs start is buf d'
         | (Err e, d') \<Rightarrow> (Err e, d')
         | (Panic, d') \<Rightarrow> (Panic, d'))"

text \<open>The payload to store: the compressed bytes, or the block itself when they are not shorter.\<close>

definition chosen :: "bytes \<Rightarrow> bytes \<Rightarrow> bytes \<times> bool" where
  "chosen plaintext compressed =
     (if length compressed \<ge> length plaintext then (plaintext, True) else (compressed, False))"

definition store_write ::
  "crypto \<Rightarrow> 'd device \<Rightarrow> block_store \<Rightarrow> bytes \<Rightarrow> 'd pool \<Rightarrow> (store_error, ref) res \<times> 'd pool" where
  "store_write C dv bs plaintext p =
     (let key = blake3 C plaintext in
      case dedup_lookup (po_ddt p) key of
        Some e \<Rightarrow> (Ok (ref_from key e), p\<lparr>po_ddt := snd (dedup_incr key (po_ddt p))\<rparr>)
      | None \<Rightarrow>
        (case zstd_encode C plaintext of
           None \<Rightarrow> (Err Compress, p)
         | Some compressed \<Rightarrow>
           let (payload, raw) = chosen plaintext compressed;
               count = clusters (length payload)
           in (case bitmap_alloc count (po_bm p) of
                 (Err e, bm) \<Rightarrow> (Err (StoreAlloc e), p\<lparr>po_bm := bm\<rparr>)
               | (Panic, bm) \<Rightarrow> (Panic, p\<lparr>po_bm := bm\<rparr>)
               | (Ok start, bm) \<Rightarrow>
                 let buf = copy_at 0 payload (replicate (unat (count * BLK)) 0)
                 in (case write_sectors C dv bs start [0..<unat count] buf (po_dev p) of
                       (Err e, d) \<Rightarrow> (Err (StoreBlock e), p\<lparr>po_dev := d, po_bm := bitmap_free start count bm\<rparr>)
                     | (Panic, d) \<Rightarrow> (Panic, p\<lparr>po_dev := d, po_bm := bm\<rparr>)
                     | (Ok u, d) \<Rightarrow>
                       let entry = \<lparr>de_start = start, de_count = ucast count, de_payload = of_nat (length payload),
                                    de_logical = of_nat (length plaintext), de_raw = raw, de_refs = 0\<rparr>
                       in (Ok (ref_from key entry),
                           p\<lparr>po_dev := d, po_bm := bm, po_ddt := dedup_add key entry (po_ddt p)\<rparr>)))))"

fun read_sectors ::
  "crypto \<Rightarrow> 'd device \<Rightarrow> block_store \<Rightarrow> 'd \<Rightarrow> u64 \<Rightarrow> nat list \<Rightarrow> bytes \<Rightarrow> (block_error, bytes) res" where
  "read_sectors C dv bs d start [] buf = Ok buf"
| "read_sectors C dv bs d start (i # is) buf =
     res_bind (read_block dv d (start + of_nat i)) (\<lambda>raw.
       let sec = dec_sector C bs raw (start + of_nat i);
           off = i * SIZE
       in if length sec \<noteq> SIZE then Panic
          else read_sectors C dv bs d start is (copy_at off sec buf))"

definition store_read ::
  "crypto \<Rightarrow> 'd device \<Rightarrow> block_store \<Rightarrow> 'd \<Rightarrow> ref \<Rightarrow> (store_error, bytes) res" where
  "store_read C dv bs d r =
     res_bind (map_err StoreBlock
       (read_sectors C dv bs d (rf_start r) [0..<unat (rf_count r)] (replicate (unat (rf_count r) * SIZE) 0)))
       (\<lambda>buf.
         if unat (rf_payload r) > length buf then Panic
         else
           let payload = take (unat (rf_payload r)) buf
           in res_bind (if rf_raw r then Ok payload
                        else case zstd_decode C payload of None \<Rightarrow> Err Decompress | Some p \<Rightarrow> Ok p)
                (\<lambda>plaintext.
                  if of_nat (length plaintext) \<noteq> rf_logical r then Err LogicalMismatch
                  else if blake3 C plaintext \<noteq> rf_hash r then Err ContentHashMismatch
                  else Ok plaintext))"

definition store_release :: "ref \<Rightarrow> 'd pool \<Rightarrow> 'd pool" where
  "store_release r p =
     (case dedup_decr (rf_hash r) (po_ddt p) of
        (Some e, ddt) \<Rightarrow> p\<lparr>po_ddt := ddt, po_bm := bitmap_defer (de_start e) (ucast (de_count e)) (po_bm p)\<rparr>
      | (None, ddt) \<Rightarrow> p\<lparr>po_ddt := ddt\<rparr>)"

section \<open>References\<close>

definition ref_enc :: "ref \<Rightarrow> bytes" where
  "ref_enc r = rf_hash r @ le_bytes 8 (rf_start r) @ le_bytes 4 (rf_count r) @ le_bytes 4 (rf_payload r) @
     le_bytes 4 (rf_logical r) @ [if rf_raw r then 1 else 0]"

lemma ref_marshal_eq: "length (rf_hash r) = 32 \<Longrightarrow> ref_marshal r = ref_enc r"
  unfolding ref_marshal_def
  by (subst copy_all_contig [where off = 0]) (simp_all add: ref_enc_def REF_SIZE_def copy_at_full)

lemma ref_unmarshal_enc: "length (rf_hash r) = 32 \<Longrightarrow> ref_unmarshal (ref_enc r @ rest) = r"
  by (cases r) (simp add: ref_unmarshal_def ref_enc_def nth_append)

section \<open>Clusters\<close>

lemma unat_BLK [simp]: "unat BLK = SIZE"
  by (simp add: BLK_def SIZE_def)

lemma clusters_bounds:
  assumes "n < 2 ^ 32"
  shows "n \<le> unat (clusters n) * SIZE" "0 < unat (clusters n)" "unat (clusters n) < 2 ^ 32"
    "unat (clusters n * BLK) = unat (clusters n) * SIZE"
proof -
  let ?c = "unat (div_ceil (of_nat n) BLK)"
  have un: "unat (of_nat n :: u64) = n" using assms by (intro unat_of_nat_small) simp
  have b: "1 < unat BLK" by (simp add: SIZE_def)
  have up: "n \<le> ?c * SIZE" using div_ceil_bounds(1) [OF b, of "of_nat n"] un by simp
  have lo: "?c * SIZE < n + SIZE" using div_ceil_bounds(2) [OF b, of "of_nat n"] un by simp
  have mx: "unat (clusters n) = max ?c 1"
    by (simp add: clusters_def max_def word_le_nat_alt)
  show "n \<le> unat (clusters n) * SIZE" unfolding mx using up by (auto simp: max_def SIZE_def)
  show "0 < unat (clusters n)" unfolding mx by simp
  have "?c < 2 ^ 21" using lo assms by (simp add: SIZE_def)
  then show "unat (clusters n) < 2 ^ 32" unfolding mx by simp
  then show "unat (clusters n * BLK) = unat (clusters n) * SIZE"
    by (simp add: unat_word_ariths) (simp add: SIZE_def)
qed

lemma unat_ucast_u32:
  assumes "unat (w :: u64) < 2 ^ 32"
  shows "unat (ucast w :: u32) = unat w"
  using assms by (simp add: unsigned_ucast_eq take_bit_nat_eq_self)

lemma unat_ucast_u64 [simp]: "unat (ucast (w :: u32) :: u64) = unat w"
proof -
  have "unat w < 2 ^ 64"
    using unsigned_less [of w, where ?'a = nat] by simp
  then show ?thesis by (simp add: unsigned_ucast_eq take_bit_nat_eq_self)
qed

section \<open>What a stored entry means\<close>

definition pad :: "nat \<Rightarrow> bytes \<Rightarrow> bytes" where
  "pad n b = b @ replicate (n * SIZE - length b) 0"

lemma length_pad [simp]: "length b \<le> n * SIZE \<Longrightarrow> length (pad n b) = n * SIZE"
  by (simp add: pad_def)

lemma copy_at_pad: "length b \<le> n * SIZE \<Longrightarrow> copy_at 0 b (replicate (n * SIZE) 0) = pad n b"
  by (simp add: copy_at_prefix pad_def)

text \<open>The clusters \<open>start\<close> to \<open>start + n - 1\<close> hold the buffer, encrypted cluster by cluster.\<close>

definition sectors_at :: "crypto \<Rightarrow> block_store \<Rightarrow> (nat \<Rightarrow> bytes) \<Rightarrow> u64 \<Rightarrow> nat \<Rightarrow> bytes \<Rightarrow> bool" where
  "sectors_at C bs V start n buf =
     (\<forall>i < n. V (unat start + i) = enc_sector C bs (slice (i * SIZE) (i * SIZE + SIZE) buf) (start + of_nat i))"

definition entry_run :: "dedup_entry \<Rightarrow> nat set" where
  "entry_run e = {unat (de_start e) ..< unat (de_start e) + unat (de_count e)}"

text \<open>\<open>holds C bs V B e pt\<close>: on a device of \<open>B\<close> blocks with contents \<open>V\<close>, the entry \<open>e\<close>
  describes a stored copy of the plaintext \<open>pt\<close>.\<close>

definition holds :: "crypto \<Rightarrow> block_store \<Rightarrow> (nat \<Rightarrow> bytes) \<Rightarrow> nat \<Rightarrow> dedup_entry \<Rightarrow> bytes \<Rightarrow> bool" where
  "holds C bs V B e pt =
     (length pt < 2 ^ 32 \<and> de_logical e = of_nat (length pt) \<and> 0 < unat (de_count e) \<and>
      unat (de_start e) + unat (de_count e) \<le> B \<and>
      (\<exists>pl. (if de_raw e then pl = pt else zstd_encode C pt = Some pl) \<and> length pl < 2 ^ 32 \<and>
         de_payload e = of_nat (length pl) \<and> length pl \<le> unat (de_count e) * SIZE \<and>
         sectors_at C bs V (de_start e) (unat (de_count e)) (pad (unat (de_count e)) pl)))"

lemma holds_refs [simp]: "holds C bs V B (e\<lparr>de_refs := r\<rparr>) pt = holds C bs V B e pt"
  by (simp add: holds_def)

lemma entry_run_refs [simp]: "entry_run (e\<lparr>de_refs := r\<rparr>) = entry_run e"
  by (simp add: entry_run_def)

text \<open>Only the clusters of the entry matter.\<close>

lemma holds_cong:
  assumes "holds C bs V B e pt" "\<And>n. n \<in> entry_run e \<Longrightarrow> V' n = V n"
  shows "holds C bs V' B e pt"
proof -
  have "sectors_at C bs V' (de_start e) (unat (de_count e)) buf"
    if "sectors_at C bs V (de_start e) (unat (de_count e)) buf" for buf
    using that assms(2) by (simp add: sectors_at_def entry_run_def)
  then show ?thesis using assms(1) unfolding holds_def by blast
qed

lemma enc_dec_sector:
  "crypto_ok C \<Longrightarrow> dec_sector C bs (enc_sector C bs sec a) a = sec"
  by (cases "bs_cipher bs") (simp_all add: crypto_ok_def dec_sector_def enc_sector_def cipher_decrypt_def cipher_encrypt_def)

lemma length_enc_sector:
  "crypto_ok C \<Longrightarrow> length (enc_sector C bs sec a) = length sec"
  by (cases "bs_cipher bs") (simp_all add: crypto_ok_def enc_sector_def cipher_encrypt_def)

lemma unat_add_index: "unat (start :: u64) + i < 2 ^ 64 \<Longrightarrow> unat (start + of_nat i) = unat start + i"
  by (subst unat_add_small) auto

section \<open>Reading and writing clusters\<close>

context block_device begin

lemma blocks_bound: "unat (blocks dv d) < 2 ^ 64"
  using unsigned_less [of "blocks dv d", where ?'a = nat] by simp

lemma read_sectors_eq:
  assumes "crypto_ok C" "dev_ok d" "unat start + n \<le> unat (blocks dv d)" "length data = n * SIZE"
    and "sectors_at C bs (view d) start n data"
  shows "j \<le> n \<Longrightarrow> length buf = n * SIZE \<Longrightarrow> take (j * SIZE) buf = take (j * SIZE) data \<Longrightarrow>
    read_sectors C dv bs d start [j..<n] buf = Ok data"
proof (induction "n - j" arbitrary: j buf)
  case 0
  then show ?case using assms(4) by simp
next
  case (Suc k)
  then have j: "j < n" by simp
  have uj: "unat (start + of_nat j) = unat start + j"
    using blocks_bound [of d] assms(3) j by (intro unat_add_index) linarith
  then have "start + of_nat j < blocks dv d" using assms(3) j by (simp add: word_less_nat_alt)
  then have rd: "read_block dv d (start + of_nat j) = Ok (view d (unat start + j))"
    using read_in [OF assms(2)] uj by simp
  let ?sec = "slice (j * SIZE) (j * SIZE + SIZE) data"
  have fit: "j * SIZE + SIZE \<le> n * SIZE" using block_end [OF j] .
  have dec: "dec_sector C bs (view d (unat start + j)) (start + of_nat j) = ?sec"
    using assms(1,5) j by (simp add: sectors_at_def enc_dec_sector)
  have "take (Suc j * SIZE) (copy_at (j * SIZE) ?sec buf) = take (Suc j * SIZE) data"
    using Suc.prems fit assms(4) by (simp add: copy_at_def slice_def take_add add.commute [of SIZE])
  then have "read_sectors C dv bs d start [Suc j..<n] (copy_at (j * SIZE) ?sec buf) = Ok data"
    using Suc.prems Suc.hyps(2) fit assms(4) by (intro Suc.hyps(1)) auto
  then show ?case
    using rd dec fit assms(4) j by (simp add: upt_conv_Cons Let_def)
qed

lemma write_sectors_eq:
  assumes "crypto_ok C" "length buf = n * SIZE"
  shows "j \<le> n \<Longrightarrow> dev_ok d \<Longrightarrow> unat start + n \<le> unat (blocks dv d) \<Longrightarrow>
    \<exists>d'. write_sectors C dv bs start [j..<n] buf d = (Ok (), d') \<and> dev_ok d' \<and> blocks dv d' = blocks dv d \<and>
      (\<forall>i. j \<le> i \<longrightarrow> i < n \<longrightarrow> view d' (unat start + i) =
         enc_sector C bs (slice (i * SIZE) (i * SIZE + SIZE) buf) (start + of_nat i)) \<and>
      (\<forall>m. m < unat start + j \<or> unat start + n \<le> m \<longrightarrow> view d' m = view d m)"
proof (induction "n - j" arbitrary: j d)
  case 0
  then show ?case by auto
next
  case (Suc k)
  then have j: "j < n" by simp
  have uj: "unat (start + of_nat j) = unat start + j"
    using blocks_bound [of d] Suc.prems(3) j by (intro unat_add_index) linarith
  then have in_dev: "start + of_nat j < blocks dv d" using Suc.prems(3) j by (simp add: word_less_nat_alt)
  let ?sec = "enc_sector C bs (slice (j * SIZE) (j * SIZE + SIZE) buf) (start + of_nat j)"
  have "length ?sec = SIZE"
    using block_end [OF j] assms by (simp add: length_enc_sector)
  then obtain d1 where d1: "write_block dv d (start + of_nat j) ?sec = (Ok (), d1)" "dev_ok d1"
      "blocks dv d1 = blocks dv d" "view d1 = (view d)(unat start + j := ?sec)"
    using write_in [OF Suc.prems(2) in_dev] uj by metis
  have "k = n - Suc j" "Suc j \<le> n" "unat start + n \<le> unat (blocks dv d1)"
    using Suc.hyps(2) Suc.prems(3) d1(3) j by auto
  from Suc.hyps(1) [OF this(1,2) d1(2) this(3)]
  obtain d' where d': "write_sectors C dv bs start [Suc j..<n] buf d1 = (Ok (), d')" "dev_ok d'"
      "blocks dv d' = blocks dv d1"
      "\<forall>i. Suc j \<le> i \<longrightarrow> i < n \<longrightarrow> view d' (unat start + i) =
         enc_sector C bs (slice (i * SIZE) (i * SIZE + SIZE) buf) (start + of_nat i)"
      "\<forall>m. m < unat start + Suc j \<or> unat start + n \<le> m \<longrightarrow> view d' m = view d1 m"
    by blast
  have "view d' (unat start + j) = ?sec" using d'(5) d1(4) by simp
  then have "\<forall>i. j \<le> i \<longrightarrow> i < n \<longrightarrow> view d' (unat start + i) =
      enc_sector C bs (slice (i * SIZE) (i * SIZE + SIZE) buf) (start + of_nat i)"
    using d'(4) by (metis le_neq_implies_less Suc_leI)
  moreover have "write_sectors C dv bs start [j..<n] buf d = (Ok (), d')"
    using d1(1) d'(1) j by (simp add: upt_conv_Cons Let_def)
  moreover have "\<forall>m. m < unat start + j \<or> unat start + n \<le> m \<longrightarrow> view d' m = view d m"
    using d'(5) d1(4) j by auto
  ultimately show ?case using d'(2,3) d1(3) by auto
qed

lemma store_read_holds:
  assumes "crypto_ok C" "dev_ok d" "holds C bs (view d) (unat (blocks dv d)) e pt" "k = blake3 C pt"
  shows "store_read C dv bs d (ref_from k e) = Ok pt"
proof -
  let ?n = "unat (de_count e)"
  obtain pl where pl: "if de_raw e then pl = pt else zstd_encode C pt = Some pl" "length pl < 2 ^ 32"
      "de_payload e = of_nat (length pl)" "length pl \<le> ?n * SIZE"
      "sectors_at C bs (view d) (de_start e) ?n (pad ?n pl)"
    and e: "de_logical e = of_nat (length pt)" "unat (de_start e) + ?n \<le> unat (blocks dv d)"
    using assms(3) by (auto simp: holds_def)
  have "read_sectors C dv bs d (de_start e) [0..<?n] (replicate (?n * SIZE) 0) = Ok (pad ?n pl)"
    using assms(1,2) e(2) pl(4,5) by (intro read_sectors_eq) auto
  moreover have "unat (de_payload e) = length pl" using pl(2,3) by simp
  moreover have "take (length pl) (pad ?n pl) = pl" by (simp add: pad_def)
  moreover have "\<not> de_raw e \<Longrightarrow> zstd_decode C pl = Some pt" using assms(1) pl(1) by (simp add: crypto_ok_def)
  ultimately show ?thesis
    using pl(1,4) e(1) assms(4) by (simp add: store_read_def ref_from_def Let_def)
qed

end

section \<open>The pool invariant\<close>

definition entry_inv ::
  "crypto \<Rightarrow> block_store \<Rightarrow> (nat \<Rightarrow> bytes) \<Rightarrow> nat \<Rightarrow> bitmap \<Rightarrow> key \<Rightarrow> dedup_entry \<Rightarrow> bytes \<Rightarrow> bool" where
  "entry_inv C bs V B bm k e pt =
     (k = blake3 C pt \<and> holds C bs V B e pt \<and> entry_run e \<subseteq> used_set bm \<and> entry_run e \<inter> deferred_set bm = {})"

definition runs_disjoint :: "(key \<rightharpoonup> dedup_entry) \<Rightarrow> bool" where
  "runs_disjoint m =
     (\<forall>k k' e e'. m k = Some e \<longrightarrow> m k' = Some e' \<longrightarrow> k \<noteq> k' \<longrightarrow> entry_run e \<inter> entry_run e' = {})"

text \<open>\<open>ct\<close> is the content of each stored block by its hash: the table has exactly those
  hashes, every entry holds its content in clusters that are in use and not about to be freed, and
  no two entries share a cluster.\<close>

definition pool_inv ::
  "crypto \<Rightarrow> block_store \<Rightarrow> (nat \<Rightarrow> bytes) \<Rightarrow> nat \<Rightarrow> bitmap \<Rightarrow> dedup_table \<Rightarrow> (key \<rightharpoonup> bytes) \<Rightarrow> bool" where
  "pool_inv C bs V B bm ddt ct =
     (bitmap_ok bm \<and> unat (bm_total bm) = B \<and> deferred_set bm \<subseteq> used_set bm \<and>
      dedup_ok ddt \<and> dom (map_of ddt) = dom ct \<and>
      (\<forall>k e pt. map_of ddt k = Some e \<longrightarrow> ct k = Some pt \<longrightarrow> entry_inv C bs V B bm k e pt) \<and>
      runs_disjoint (map_of ddt))"

lemma pool_inv_facts:
  assumes "pool_inv C bs V B bm ddt ct"
  shows "bitmap_ok bm" "unat (bm_total bm) = B" "dedup_ok ddt" "dom (map_of ddt) = dom ct"
    "runs_disjoint (map_of ddt)" "deferred_set bm \<subseteq> used_set bm"
  using assms by (auto simp: pool_inv_def)

lemma pool_inv_entry:
  assumes "pool_inv C bs V B bm ddt ct" "map_of ddt k = Some e"
  obtains pt where "ct k = Some pt" "entry_inv C bs V B bm k e pt"
proof -
  have "k \<in> dom ct" using assms pool_inv_facts(4) by blast
  then show thesis using assms that by (auto simp: pool_inv_def)
qed

lemma pool_inv_content:
  assumes "pool_inv C bs V B bm ddt ct" "ct k = Some q"
  shows "blake3 C q = k"
proof -
  obtain e where "map_of ddt k = Some e" using assms pool_inv_facts(4) [OF assms(1)] by blast
  then show ?thesis using assms by (auto simp: pool_inv_def entry_inv_def)
qed

lemma pool_no_collision:
  assumes "pool_inv C bs V B bm ddt ct" "inj_on (blake3 C) S" "ran ct \<subseteq> S" "pt \<in> S" "ct (blake3 C pt) = Some q"
  shows "q = pt"
  using pool_inv_content [OF assms(1,5)] assms(2-5) by (auto simp: ran_def dest: inj_onD)

lemma entry_inv_refs [simp]: "entry_inv C bs V B bm k (e\<lparr>de_refs := r\<rparr>) pt = entry_inv C bs V B bm k e pt"
  by (simp add: entry_inv_def)

lemma entry_inv_frame:
  assumes "entry_inv C bs V B bm k e pt" "used_set bm \<subseteq> used_set bm'" "entry_run e \<inter> deferred_set bm' = {}"
    and "\<And>n. n \<in> used_set bm \<Longrightarrow> V' n = V n"
  shows "entry_inv C bs V' B bm' k e pt"
  using assms holds_cong [of C bs V B e pt V'] unfolding entry_inv_def by blast

text \<open>The invariant survives any change of the device outside the clusters in use, and any growth of
  the clusters in use that keeps the deferred ones.\<close>

lemma pool_inv_frame:
  assumes "pool_inv C bs V B bm ddt ct" "bitmap_ok bm'" "bm_total bm' = bm_total bm"
    and "used_set bm \<subseteq> used_set bm'" "deferred_set bm' \<subseteq> deferred_set bm"
    and "\<And>n. n \<in> used_set bm \<Longrightarrow> V' n = V n"
  shows "pool_inv C bs V' B bm' ddt ct"
proof -
  have "entry_inv C bs V' B bm' k e pt" if "entry_inv C bs V B bm k e pt" for k e pt
    using that assms(4-6) by (intro entry_inv_frame [OF that]) (auto simp: entry_inv_def)
  then show ?thesis using assms(1-5) by (auto simp: pool_inv_def)
qed

lemma runs_disjoint_upd:
  assumes "runs_disjoint m" "\<And>k' e'. k' \<noteq> k \<Longrightarrow> m k' = Some e' \<Longrightarrow> entry_run e' \<inter> entry_run e = {}"
  shows "runs_disjoint (m(k \<mapsto> e))"
  using assms unfolding runs_disjoint_def by (simp add: Int_commute)

text \<open>A new entry in clusters that were free.\<close>

text \<open>Freeing the deferred clusters touches no entry.\<close>

lemma pool_inv_apply_deferred:
  assumes "pool_inv C bs V B bm ddt ct"
  shows "pool_inv C bs V B (apply_deferred bm) ddt ct"
proof -
  note ad = apply_deferred_spec [OF pool_inv_facts(1) [OF assms]]
  have "entry_inv C bs V B (apply_deferred bm) k e pt" if "entry_inv C bs V B bm k e pt" for k e pt
    using that ad(2,3) by (auto simp: entry_inv_def deferred_set_def)
  then show ?thesis using assms ad unfolding pool_inv_def by (auto simp: deferred_set_def)
qed

lemma pool_inv_add:
  assumes inv: "pool_inv C bs V B bm ddt ct" and k: "length k = 32" and e: "entry_inv C bs V B bm k e pt"
    and fresh: "\<And>k' e'. map_of ddt k' = Some e' \<Longrightarrow> entry_run e' \<inter> entry_run e = {}"
  shows "pool_inv C bs V B bm (dedup_add k e ddt) (ct(k \<mapsto> pt))"
proof -
  have mo: "map_of (dedup_add k e ddt) = (map_of ddt)(k \<mapsto> e\<lparr>de_refs := 1\<rparr>)"
    using ddt.add_lookup [of k e ddt] by (simp add: dedup_lookup_eq)
  have "dedup_ok (dedup_add k e ddt)"
    using ddt.add_ok inv k by (simp add: pool_inv_def)
  moreover have "runs_disjoint ((map_of ddt)(k \<mapsto> e\<lparr>de_refs := 1\<rparr>))"
    using pool_inv_facts(5) [OF inv] fresh by (intro runs_disjoint_upd) auto
  ultimately show ?thesis
    unfolding pool_inv_def mo using inv e by (simp add: pool_inv_def)
qed

lemma pool_inv_refs:
  assumes inv: "pool_inv C bs V B bm ddt ct" and "dedup_ok ddt'"
    and "map_of ddt k = Some e" "map_of ddt' = (map_of ddt)(k \<mapsto> e\<lparr>de_refs := r\<rparr>)"
  shows "pool_inv C bs V B bm ddt' ct"
proof -
  have "runs_disjoint ((map_of ddt)(k \<mapsto> e\<lparr>de_refs := r\<rparr>))"
    using pool_inv_facts(5) [OF inv] assms(3)
    by (intro runs_disjoint_upd) (auto simp: runs_disjoint_def)
  moreover have "insert k (dom ct) = dom ct" using pool_inv_facts(4) [OF inv] assms(3) by blast
  ultimately show ?thesis
    unfolding pool_inv_def assms(4) using inv assms(2,3) by (simp add: pool_inv_def)
qed

section \<open>Writing a block\<close>

lemma alloc_run:
  assumes "bitmap_ok bm" "bitmap_alloc len bm = (Ok s, bm')"
  shows "unat s + unat len \<le> unat (bm_total bm)" "run_set s len = {unat s ..< unat s + unat len}"
    "used_set bm' = used_set bm \<union> run_set s len" "run_set s len \<inter> used_set bm = {}"
    "bitmap_ok bm'" "bm_total bm' = bm_total bm" "deferred_set bm' = deferred_set bm"
proof -
  note a = bitmap_alloc_Ok [OF assms]
  show le: "unat s + unat len \<le> unat (bm_total bm)" using a(1) by (simp add: free_run_def)
  then have "unat (s + len) = unat s + unat len"
    using unsigned_less [of "bm_total bm", where ?'a = nat] by (intro unat_add_small) simp
  then show "run_set s len = {unat s ..< unat s + unat len}" by (simp add: run_set_def)
  show "used_set bm' = used_set bm \<union> run_set s len" "run_set s len \<inter> used_set bm = {}" "bitmap_ok bm'"
    "bm_total bm' = bm_total bm" "deferred_set bm' = deferred_set bm"
    using a(3-6) by (auto simp: same_frame_def deferred_set_def)
qed

text \<open>A dedup hit counts a reference; nothing is written.\<close>

lemma store_write_hit:
  assumes "pool_inv C bs V B (po_bm p) (po_ddt p) ct" "map_of (po_ddt p) (blake3 C pt) = Some e"
    and "unat (de_refs e) + 1 < 2 ^ 32"
  shows "\<exists>p'. store_write C dv bs pt p = (Ok (ref_from (blake3 C pt) e), p') \<and>
    po_dev p' = po_dev p \<and> po_bm p' = po_bm p \<and> pool_inv C bs V B (po_bm p) (po_ddt p') ct"
proof -
  let ?k = "blake3 C pt"
  have l: "dedup_lookup (po_ddt p) ?k = Some e" using assms(2) by (simp add: dedup_lookup_eq)
  have "dedup_ok (snd (dedup_incr ?k (po_ddt p)))"
    by (rule ddt.incr_ok [OF pool_inv_facts(3) [OF assms(1)] l assms(3)])
  moreover have "map_of (snd (dedup_incr ?k (po_ddt p))) =
      (map_of (po_ddt p))(?k \<mapsto> e\<lparr>de_refs := of_nat (unat (de_refs e) + 1)\<rparr>)"
    using ddt.incr_hit [OF l assms(3)] unfolding dedup_lookup_eq by blast
  ultimately have "pool_inv C bs V B (po_bm p) (snd (dedup_incr ?k (po_ddt p))) ct"
    by (rule pool_inv_refs [OF assms(1) _ assms(2)])
  then show ?thesis using l by (simp add: store_write_def Let_def)
qed

text \<open>The two ways a miss fails before anything is written.\<close>

lemma store_write_miss_fails:
  assumes "map_of (po_ddt p) (blake3 C pt) = None"
  shows "zstd_encode C pt = None \<Longrightarrow> store_write C dv bs pt p = (Err Compress, p)"
    "zstd_encode C pt = Some z \<Longrightarrow> chosen pt z = (pl, raw) \<Longrightarrow> bitmap_alloc (clusters (length pl)) (po_bm p) = (Err e, bm) \<Longrightarrow>
      store_write C dv bs pt p = (Err (StoreAlloc e), p)"
  using assms bitmap_alloc_Err(1) [of "clusters (length pl)" "po_bm p" e bm]
  by (simp_all add: store_write_def dedup_lookup_eq)

lemma store_write_miss:
  assumes "map_of (po_ddt p) (blake3 C pt) = None" "zstd_encode C pt = Some z" "chosen pt z = (pl, raw)"
    and "bitmap_alloc (clusters (length pl)) (po_bm p) = (Ok s, bm)"
    and "entry = \<lparr>de_start = s, de_count = ucast (clusters (length pl)), de_payload = of_nat (length pl),
      de_logical = of_nat (length pt), de_raw = raw, de_refs = 0\<rparr>"
    and "write_sectors C dv bs s [0..<unat (clusters (length pl))]
      (copy_at 0 pl (replicate (unat (clusters (length pl) * BLK)) 0)) (po_dev p) = (r, d)"
  shows "store_write C dv bs pt p =
    (case r of
       Ok u \<Rightarrow> (Ok (ref_from (blake3 C pt) entry),
                p\<lparr>po_dev := d, po_bm := bm, po_ddt := dedup_add (blake3 C pt) entry (po_ddt p)\<rparr>)
     | Err e \<Rightarrow> (Err (StoreBlock e), p\<lparr>po_dev := d, po_bm := bitmap_free s (clusters (length pl)) bm\<rparr>)
     | Panic \<Rightarrow> (Panic, p\<lparr>po_dev := d, po_bm := bm\<rparr>))"
  using assms(1-4,6) unfolding store_write_def assms(5) by (simp add: dedup_lookup_eq Let_def split: res.splits)

lemma chosen_payload:
  assumes "crypto_ok C" "zstd_encode C pt = Some z" "chosen pt z = (pl, raw)" "length pt < 2 ^ 32"
  shows "if raw then pl = pt else zstd_encode C pt = Some pl" "length pl < 2 ^ 32"
  using assms by (auto simp: chosen_def split: if_splits)

context block_device begin

text \<open>A miss that finds space: the block is written into free clusters and readable.\<close>

lemma store_write_stored:
  assumes C: "crypto_ok C" and ok: "dev_ok (po_dev p)"
    and inv: "pool_inv C bs (view (po_dev p)) (unat (blocks dv (po_dev p))) (po_bm p) (po_ddt p) ct"
    and pt: "length pt < 2 ^ 32" "zstd_encode C pt = Some z" "chosen pt z = (pl, raw)"
    and miss: "map_of (po_ddt p) (blake3 C pt) = None"
    and al: "bitmap_alloc (clusters (length pl)) (po_bm p) = (Ok s, bm)"
  shows "\<exists>r p'. store_write C dv bs pt p = (Ok r, p') \<and> store_read C dv bs (po_dev p') r = Ok pt \<and>
    dev_ok (po_dev p') \<and> blocks dv (po_dev p') = blocks dv (po_dev p) \<and> po_bm p' = bm \<and>
    (\<forall>n. n \<notin> run_set s (clusters (length pl)) \<longrightarrow> view (po_dev p') n = view (po_dev p) n) \<and>
    pool_inv C bs (view (po_dev p')) (unat (blocks dv (po_dev p))) bm (po_ddt p') (ct(blake3 C pt \<mapsto> pt))"
proof -
  let ?c = "clusters (length pl)" and ?d = "po_dev p" and ?k = "blake3 C pt"
  define n where "n = unat ?c"
  note pl = chosen_payload [OF C pt(2,3,1)]
  note cb = clusters_bounds [OF pl(2)]
  note ar = alloc_run [OF pool_inv_facts(1) [OF inv] al]
  have fit: "unat s + n \<le> unat (blocks dv ?d)" using ar(1) pool_inv_facts(2) [OF inv] by (simp add: n_def)
  have buf: "copy_at 0 pl (replicate (unat (?c * BLK)) 0) = pad n pl"
    unfolding cb(4) using cb(1) by (simp add: copy_at_pad n_def)
  obtain d' where w: "write_sectors C dv bs s [0..<n] (pad n pl) ?d = (Ok (), d')" "dev_ok d'"
      "blocks dv d' = blocks dv ?d"
      "\<forall>i. 0 \<le> i \<longrightarrow> i < n \<longrightarrow> view d' (unat s + i) = enc_sector C bs (slice (i * SIZE) (i * SIZE + SIZE) (pad n pl)) (s + of_nat i)"
      "\<forall>m. m < unat s + 0 \<or> unat s + n \<le> m \<longrightarrow> view d' m = view ?d m"
    using write_sectors_eq [OF C, of "pad n pl" n 0 ?d s bs] ok fit cb(1) by (auto simp: n_def)
  define e where "e = \<lparr>de_start = s, de_count = ucast ?c, de_payload = of_nat (length pl),
    de_logical = of_nat (length pt), de_raw = raw, de_refs = 0\<rparr>"
  have cnt: "unat (de_count e) = n" using cb(3) by (simp add: e_def n_def unat_ucast_u32)
  have run: "entry_run e = run_set s ?c" using ar(2) cnt by (simp add: entry_run_def e_def n_def)
  have "sectors_at C bs (view d') s n (pad n pl)" using w(4) by (simp add: sectors_at_def)
  then have h: "holds C bs (view d') (unat (blocks dv ?d)) e pt"
    unfolding holds_def cnt using pt(1) pl cb(1,2) fit
    by (intro conjI exI [of _ pl]) (simp_all add: e_def n_def)
  have out: "view d' m = view ?d m" if "m \<notin> run_set s ?c" for m
    using that w(5) ar(2) by (auto simp: n_def)
  have frame: "pool_inv C bs (view d') (unat (blocks dv ?d)) bm (po_ddt p) ct"
    using ar(3-7) out by (intro pool_inv_frame [OF inv]) auto
  have "entry_inv C bs (view d') (unat (blocks dv ?d)) bm ?k e pt"
    using h run ar(3,4,7) pool_inv_facts(6) [OF inv] unfolding entry_inv_def by auto
  moreover have "entry_run e' \<inter> entry_run e = {}" if m: "map_of (po_ddt p) k' = Some e'" for k' e'
  proof -
    obtain pt' where "entry_inv C bs (view ?d) (unat (blocks dv ?d)) (po_bm p) k' e' pt'"
      by (rule pool_inv_entry [OF inv m])
    then show ?thesis using ar(4) unfolding run entry_inv_def by blast
  qed
  ultimately have inv': "pool_inv C bs (view d') (unat (blocks dv ?d)) bm (dedup_add ?k e (po_ddt p)) (ct(?k \<mapsto> pt))"
    using C by (intro pool_inv_add [OF frame]) (auto simp: crypto_ok_def)
  have "store_write C dv bs pt p = (Ok (ref_from ?k e), p\<lparr>po_dev := d', po_bm := bm, po_ddt := dedup_add ?k e (po_ddt p)\<rparr>)"
    using store_write_miss [OF miss pt(2,3) al e_def, of dv bs] w(1) buf by (simp add: n_def)
  moreover have "store_read C dv bs d' (ref_from ?k e) = Ok pt"
    using store_read_holds [OF C w(2)] h w(3) by simp
  ultimately show ?thesis using inv' w(2,3) out by auto
qed

end

section \<open>Failing devices\<close>

context isolated_writes begin

lemma write_sectors_isolated:
  "fits d \<Longrightarrow> write_sectors C dv bs start is buf d = (r, d') \<Longrightarrow> (\<And>i. i \<in> set is \<Longrightarrow> unat start + i < 2 ^ 64) \<Longrightarrow>
   fits d' \<and> blocks dv d' = blocks dv d \<and> (\<forall>n. n \<notin> (\<lambda>i. unat start + i) ` set is \<longrightarrow> content d' n = content d n)"
proof (induction "is" arbitrary: d)
  case Nil
  then show ?case by simp
next
  case (Cons i "is")
  let ?sec = "enc_sector C bs (slice (i * SIZE) (i * SIZE + SIZE) buf) (start + of_nat i)"
  obtain r1 d1 where w: "write_block dv d (start + of_nat i) ?sec = (r1, d1)" by fastforce
  have ui: "unat (start + of_nat i) = unat start + i" using Cons.prems(3) by (intro unat_add_index) simp
  have one: "fits d1" "blocks dv d1 = blocks dv d" "\<forall>n. n \<noteq> unat start + i \<longrightarrow> content d1 n = content d n"
    using write_isolated [OF Cons.prems(1) w] ui by auto
  show ?case
  proof (cases r1)
    case (Ok u)
    then have "write_sectors C dv bs start is buf d1 = (r, d')" using Cons.prems(2) w by (simp add: Let_def)
    from Cons.IH [OF one(1) this] Cons.prems(3) one show ?thesis by auto
  qed (use Cons.prems(2) w one in \<open>auto simp: Let_def\<close>)
qed

end

text \<open>Whatever the device does, a write that fails leaves the allocator and the table as it found
  them.\<close>

lemma store_write_Err:
  assumes "bitmap_ok (po_bm p)" "store_write C dv bs pt p = (Err e, p')"
  shows "po_ddt p' = po_ddt p" "used_set (po_bm p') = used_set (po_bm p)" "bitmap_ok (po_bm p')"
    "deferred_set (po_bm p') = deferred_set (po_bm p)" "bm_total (po_bm p') = bm_total (po_bm p)"
proof -
  let ?k = "blake3 C pt"
  have miss: "map_of (po_ddt p) ?k = None"
    using assms(2) by (cases "map_of (po_ddt p) ?k") (auto simp: store_write_def dedup_lookup_eq Let_def)
  have "po_ddt p' = po_ddt p \<and> used_set (po_bm p') = used_set (po_bm p) \<and> bitmap_ok (po_bm p') \<and>
    deferred_set (po_bm p') = deferred_set (po_bm p) \<and> bm_total (po_bm p') = bm_total (po_bm p)"
  proof (cases "zstd_encode C pt")
    case None
    then show ?thesis using store_write_miss_fails(1) [OF miss] assms by simp
  next
    case (Some z)
    obtain pl raw where ch: "chosen pt z = (pl, raw)" by fastforce
    let ?c = "clusters (length pl)"
    obtain ra bm where al: "bitmap_alloc ?c (po_bm p) = (ra, bm)" by fastforce
    show ?thesis
    proof (cases ra)
      case (Ok s)
      note al = al [unfolded Ok]
      note ar = alloc_run [OF assms(1) al]
      obtain rw d where w: "write_sectors C dv bs s [0..<unat ?c]
          (copy_at 0 pl (replicate (unat (?c * BLK)) 0)) (po_dev p) = (rw, d)" by fastforce
      have "p' = p\<lparr>po_dev := d, po_bm := bitmap_free s ?c bm\<rparr>"
        using store_write_miss [OF miss Some ch al refl w] assms(2) by (cases rw) auto
      moreover have "used_set (bitmap_free s ?c bm) = used_set (po_bm p)"
        using bitmap_free_spec(2) [OF ar(5), of s ?c] ar(3,4) by auto
      ultimately show ?thesis
        using bitmap_free_spec [OF ar(5), of s ?c] ar(6,7) by (auto simp: same_frame_def deferred_set_def)
    next
      case (Err ea)
      then show ?thesis using store_write_miss_fails(2) [OF miss Some ch] al assms by simp
    next
      case Panic
      then show ?thesis using al bitmap_alloc_no_panic [of ?c "po_bm p"] by simp
    qed
  qed
  then show "po_ddt p' = po_ddt p" "used_set (po_bm p') = used_set (po_bm p)" "bitmap_ok (po_bm p')"
    "deferred_set (po_bm p') = deferred_set (po_bm p)" "bm_total (po_bm p') = bm_total (po_bm p)" by auto
qed

context isolated_writes begin

text \<open>No write, failing or not, changes a cluster that was in use.\<close>

lemma store_write_in_use:
  assumes "fits (po_dev p)" "bitmap_ok (po_bm p)" "store_write C dv bs pt p = (r, p')"
  shows "fits (po_dev p')" "\<And>n. n \<in> used_set (po_bm p) \<Longrightarrow> content (po_dev p') n = content (po_dev p) n"
    "blocks dv (po_dev p') = blocks dv (po_dev p)"
proof -
  let ?k = "blake3 C pt"
  have "fits (po_dev p') \<and> blocks dv (po_dev p') = blocks dv (po_dev p) \<and> (\<forall>n \<in> used_set (po_bm p). content (po_dev p') n = content (po_dev p) n)"
  proof (cases "map_of (po_ddt p) ?k = None \<and> zstd_encode C pt \<noteq> None")
    case False
    then have "po_dev p' = po_dev p"
      using assms(3) by (cases "map_of (po_ddt p) ?k") (auto simp: store_write_def dedup_lookup_eq Let_def)
    then show ?thesis using assms(1) by simp
  next
    case True
    then obtain z where z: "zstd_encode C pt = Some z" by auto
    have miss: "map_of (po_ddt p) ?k = None" using True by simp
    obtain pl raw where ch: "chosen pt z = (pl, raw)" by fastforce
    let ?c = "clusters (length pl)"
    obtain ra bm where al: "bitmap_alloc ?c (po_bm p) = (ra, bm)" by fastforce
    show ?thesis
    proof (cases ra)
      case (Ok s)
      note al = al [unfolded Ok]
      note ar = alloc_run [OF assms(2) al]
      obtain rw d where w: "write_sectors C dv bs s [0..<unat ?c]
          (copy_at 0 pl (replicate (unat (?c * BLK)) 0)) (po_dev p) = (rw, d)" by fastforce
      have "unat s + i < 2 ^ 64" if "i \<in> set [0..<unat ?c]" for i
        using that ar(1) unsigned_less [of "bm_total (po_bm p)", where ?'a = nat] by simp
      note iso = write_sectors_isolated [OF assms(1) w this]
      have "po_dev p' = d" using store_write_miss [OF miss z ch al refl w] assms(3) by (cases rw) auto
      moreover have "n \<notin> (\<lambda>i. unat s + i) ` set [0..<unat ?c]" if "n \<in> used_set (po_bm p)" for n
        using that ar(2,4) by auto
      ultimately show ?thesis using iso by simp
    next
      case (Err ea)
      then show ?thesis using store_write_miss_fails(2) [OF miss z ch] al assms by simp
    next
      case Panic
      then show ?thesis using al bitmap_alloc_no_panic [of ?c "po_bm p"] by simp
    qed
  qed
  then show "fits (po_dev p')" "\<And>n. n \<in> used_set (po_bm p) \<Longrightarrow> content (po_dev p') n = content (po_dev p) n"
    "blocks dv (po_dev p') = blocks dv (po_dev p)" by auto
qed

end

section \<open>Releasing\<close>

lemma deferred_set_defer [simp]: "deferred_set (bitmap_defer s c b) = deferred_set b \<union> run_set s c"
  by (simp add: deferred_set_def bitmap_defer_def Un_commute)

lemma holds_run:
  assumes "holds C bs V B e pt" "B < 2 ^ 64"
  shows "run_set (de_start e) (ucast (de_count e)) = entry_run e"
proof -
  have "unat (de_start e) + unat (de_count e) < 2 ^ 64" using assms by (simp add: holds_def)
  then have "unat (de_start e + ucast (de_count e)) = unat (de_start e) + unat (de_count e)"
    by (subst unat_add_small) simp_all
  then show ?thesis by (simp add: run_set_def entry_run_def)
qed

lemma runs_disjoint_del: "runs_disjoint m \<Longrightarrow> runs_disjoint (m(k := None))"
  by (simp add: runs_disjoint_def)

text \<open>The last reference: the entry goes and its clusters are deferred.\<close>

lemma store_release_last:
  assumes inv: "pool_inv C bs V B (po_bm p) (po_ddt p) ct"
    and e: "map_of (po_ddt p) (rf_hash r) = Some e" "unat (de_refs e) = 1"
    and p': "p' = store_release r p"
  shows "pool_inv C bs V B (po_bm p') (po_ddt p') (ct(rf_hash r := None))"
    "used_set (po_bm p') = used_set (po_bm p)" "deferred_set (po_bm p') = deferred_set (po_bm p) \<union> entry_run e"
    "po_dev p' = po_dev p" "map_of (po_ddt p') = (map_of (po_ddt p))(rf_hash r := None)"
proof -
  let ?k = "rf_hash r"
  obtain pt where pt: "entry_inv C bs V B (po_bm p) ?k e pt" by (rule pool_inv_entry [OF inv e(1)])
  have B: "B < 2 ^ 64"
    using pool_inv_facts(2) [OF inv] unsigned_less [of "bm_total (po_bm p)", where ?'a = nat] by simp
  have l: "dedup_lookup (po_ddt p) ?k = Some e" using e(1) by (simp add: dedup_lookup_eq)
  note dl = ddt.decr_last [OF pool_inv_facts(3) [OF inv] l e(2)]
  have dok: "dedup_ok (snd (dedup_decr ?k (po_ddt p)))" by (rule ddt.decr_ok [OF pool_inv_facts(3) [OF inv]])
  have rel: "p' = p\<lparr>po_ddt := snd (dedup_decr ?k (po_ddt p)), po_bm := bitmap_defer (de_start e) (ucast (de_count e)) (po_bm p)\<rparr>"
    unfolding p' store_release_def using dl by (cases "dedup_decr ?k (po_ddt p)") simp
  show m: "map_of (po_ddt p') = (map_of (po_ddt p))(?k := None)"
    using dl rel unfolding dedup_lookup_eq by simp
  show us: "used_set (po_bm p') = used_set (po_bm p)" using rel by simp
  show ds: "deferred_set (po_bm p') = deferred_set (po_bm p) \<union> entry_run e"
    using rel holds_run [of C bs V B e pt] pt B by (simp add: entry_inv_def)
  show "po_dev p' = po_dev p" using rel by simp
  have ent: "entry_inv C bs V B (po_bm p') k e' q"
    if k: "k \<noteq> ?k" "map_of (po_ddt p) k = Some e'" and q: "entry_inv C bs V B (po_bm p) k e' q" for k e' q
  proof (rule entry_inv_frame [OF q])
    have "entry_run e' \<inter> entry_run e = {}"
      using pool_inv_facts(5) [OF inv] k e(1) unfolding runs_disjoint_def by blast
    then show "entry_run e' \<inter> deferred_set (po_bm p') = {}" using q ds by (auto simp: entry_inv_def)
  qed (simp_all add: us)
  have "bitmap_ok (po_bm p')" "bm_total (po_bm p') = bm_total (po_bm p)"
    using rel pool_inv_facts(1) [OF inv] by (simp_all add: bitmap_defer_def)
  moreover have "deferred_set (po_bm p') \<subseteq> used_set (po_bm p')"
    using us ds pool_inv_facts(6) [OF inv] pt by (auto simp: entry_inv_def)
  moreover have "dedup_ok (po_ddt p')" using dok rel by simp
  ultimately show "pool_inv C bs V B (po_bm p') (po_ddt p') (ct(?k := None))"
    using inv ent runs_disjoint_del [OF pool_inv_facts(5) [OF inv]] unfolding pool_inv_def m by auto
qed

text \<open>Any other release only counts.\<close>

lemma store_release_other:
  assumes inv: "pool_inv C bs V B (po_bm p) (po_ddt p) ct"
    and e: "\<And>e. map_of (po_ddt p) (rf_hash r) = Some e \<Longrightarrow> unat (de_refs e) \<noteq> 1"
    and p': "p' = store_release r p"
  shows "pool_inv C bs V B (po_bm p') (po_ddt p') ct" "po_bm p' = po_bm p" "po_dev p' = po_dev p"
proof -
  let ?k = "rf_hash r"
  have "pool_inv C bs V B (po_bm p') (po_ddt p') ct \<and> po_bm p' = po_bm p \<and> po_dev p' = po_dev p"
  proof (cases "map_of (po_ddt p) ?k")
    case None
    then have "p' = p" using ddt.decr_miss [of "po_ddt p" ?k] p' by (simp add: store_release_def dedup_lookup_eq)
    then show ?thesis using inv by simp
  next
    case (Some e)
    then have l: "dedup_lookup (po_ddt p) ?k = Some e" by (simp add: dedup_lookup_eq)
    note ok = pool_inv_facts(3) [OF inv]
    have "1 < unat (de_refs e)" using ddt.rc_pos [OF ok l] assms(2) [OF Some] by simp
    note ds = ddt.decr_shared [OF ok l this]
    have rel: "p' = p\<lparr>po_ddt := snd (dedup_decr ?k (po_ddt p))\<rparr>"
      unfolding p' store_release_def using ds by (cases "dedup_decr ?k (po_ddt p)") simp
    have "map_of (snd (dedup_decr ?k (po_ddt p))) =
        (map_of (po_ddt p))(?k \<mapsto> e\<lparr>de_refs := of_nat (unat (de_refs e) - 1)\<rparr>)"
      using ds unfolding dedup_lookup_eq by blast
    then show ?thesis
      using pool_inv_refs [OF inv ddt.decr_ok [OF ok] Some] rel by simp
  qed
  then show "pool_inv C bs V B (po_bm p') (po_ddt p') ct" "po_bm p' = po_bm p" "po_dev p' = po_dev p" by auto
qed

section \<open>Sequences of writes and releases\<close>

datatype store_op = PutOp bytes | DropOp ref

fun store_step :: "crypto \<Rightarrow> 'd device \<Rightarrow> block_store \<Rightarrow> store_op \<Rightarrow> 'd pool \<Rightarrow> 'd pool" where
  "store_step C dv bs (PutOp pt) p = snd (store_write C dv bs pt p)"
| "store_step C dv bs (DropOp r) p = store_release r p"

definition store_run :: "crypto \<Rightarrow> 'd device \<Rightarrow> block_store \<Rightarrow> store_op list \<Rightarrow> 'd pool \<Rightarrow> 'd pool" where
  "store_run C dv bs ops p = fold (store_step C dv bs) ops p"

definition puts :: "store_op list \<Rightarrow> bytes set" where
  "puts ops = {pt. PutOp pt \<in> set ops}"

definition refs_below :: "dedup_table \<Rightarrow> nat \<Rightarrow> bool" where
  "refs_below ddt N = (\<forall>k e. map_of ddt k = Some e \<longrightarrow> unat (de_refs e) + N < 2 ^ 32)"

text \<open>Each operation adds at most one reference.\<close>

lemma store_step_refs:
  assumes "refs_below (po_ddt p) (Suc N)" "Suc N < 2 ^ 32" "dedup_ok (po_ddt p)"
  shows "refs_below (po_ddt (store_step C dv bs op p)) N"
proof -
  have low: "refs_below (po_ddt p) N"
    using assms(1) unfolding refs_below_def by (metis Suc_lessD add_Suc_right)
  show ?thesis
  proof (cases op)
    case (PutOp pt)
    let ?k = "blake3 C pt" and ?p' = "store_step C dv bs op p"
    have "po_ddt ?p' = po_ddt p \<or> po_ddt ?p' = snd (dedup_incr ?k (po_ddt p)) \<or> (\<exists>e. po_ddt ?p' = dedup_add ?k e (po_ddt p))"
      by (auto simp: PutOp store_write_def Let_def split: option.splits prod.splits res.splits)
    moreover have "refs_below (snd (dedup_incr ?k (po_ddt p))) N"
    proof (cases "map_of (po_ddt p) ?k")
      case (Some e)
      have "unat (de_refs e) + Suc N < 2 ^ 32" using assms(1) Some by (simp add: refs_below_def)
      then have "unat (de_refs e + 1) = unat (de_refs e) + 1" by (subst unat_add_small) auto
      then show ?thesis
        using low \<open>unat (de_refs e) + Suc N < 2 ^ 32\<close> Some
        by (auto simp: refs_below_def dedup_incr_def update_conv' split: if_splits)
    qed (use low in \<open>simp add: refs_below_def dedup_incr_def\<close>)
    moreover have "refs_below (dedup_add ?k e (po_ddt p)) N" for e
      using low assms(2) by (auto simp: refs_below_def dedup_add_def update_conv' split: if_splits)
    ultimately show ?thesis using low by auto
  next
    case (DropOp r)
    let ?k = "rf_hash r"
    have eq: "po_ddt (store_step C dv bs op p) = snd (dedup_decr ?k (po_ddt p))"
      by (simp add: DropOp store_release_def split: prod.splits option.splits)
    show ?thesis
    proof (cases "map_of (po_ddt p) ?k")
      case (Some e)
      then have l: "dedup_lookup (po_ddt p) ?k = Some e" by (simp add: dedup_lookup_eq)
      have "unat (de_refs e - 1) \<le> unat (de_refs e)"
        using unat_u32_pred [of "de_refs e"] dedup_ok_lookup [OF assms(3) Some] by simp
      moreover have "unat (de_refs e) + Suc N < 2 ^ 32" using assms(1) Some by (simp add: refs_below_def)
      ultimately show ?thesis
        unfolding eq using low Some
        by (auto simp: refs_below_def dedup_decr_def update_conv' delete_conv' Let_def split: if_splits)
    qed (use low in \<open>simp add: eq refs_below_def dedup_decr_def\<close>)
  qed
qed

text \<open>No operation takes a cluster out of use, and none writes to a cluster that was in use, whatever the
  device does.\<close>

lemma store_write_alloc:
  assumes "store_write C dv bs pt p = (r, p')" "\<not> (\<exists>e. r = Err e)"
  shows "po_bm p' = po_bm p \<or> (\<exists>c s. bitmap_alloc c (po_bm p) = (Ok s, po_bm p'))"
proof -
  have "bitmap_alloc c (po_bm p) \<noteq> (Panic, b)" for c b
    using bitmap_alloc_no_panic [of c "po_bm p"] by auto
  then show ?thesis
    using assms by (auto simp: store_write_def Let_def split: option.splits prod.splits res.splits)
qed

lemma store_step_bitmap:
  assumes "bitmap_ok (po_bm p)"
  shows "bitmap_ok (po_bm (store_step C dv bs op p))" "used_set (po_bm p) \<subseteq> used_set (po_bm (store_step C dv bs op p))"
proof -
  have "bitmap_ok (po_bm (store_step C dv bs op p)) \<and> used_set (po_bm p) \<subseteq> used_set (po_bm (store_step C dv bs op p))"
  proof (cases op)
    case (DropOp r)
    then show ?thesis
      using assms by (auto simp: store_release_def bitmap_defer_def bitmap_ok_def split: prod.splits option.splits)
  next
    case (PutOp pt)
    obtain r p' where w: "store_write C dv bs pt p = (r, p')" by fastforce
    have "bitmap_ok (po_bm p') \<and> used_set (po_bm p) \<subseteq> used_set (po_bm p')"
    proof (cases "\<exists>e. r = Err e")
      case True
      then show ?thesis using store_write_Err(2,3) [OF assms] w by auto
    next
      case False
      then have "po_bm p' = po_bm p \<or> (\<exists>c s. bitmap_alloc c (po_bm p) = (Ok s, po_bm p'))"
        by (rule store_write_alloc [OF w])
      then show ?thesis using assms alloc_run(3,5) [OF assms] by auto
    qed
    then show ?thesis using PutOp w by simp
  qed
  then show "bitmap_ok (po_bm (store_step C dv bs op p))" "used_set (po_bm p) \<subseteq> used_set (po_bm (store_step C dv bs op p))" by auto
qed

context isolated_writes begin

lemma store_run_in_use:
  "fits (po_dev p) \<Longrightarrow> bitmap_ok (po_bm p) \<Longrightarrow> p' = store_run C dv bs ops p \<Longrightarrow>
   fits (po_dev p') \<and> (\<forall>n \<in> used_set (po_bm p). content (po_dev p') n = content (po_dev p) n)"
proof (induction ops arbitrary: p)
  case Nil
  then show ?case by (simp add: store_run_def)
next
  case (Cons op ops)
  let ?p1 = "store_step C dv bs op p"
  have "fits (po_dev ?p1) \<and> (\<forall>n \<in> used_set (po_bm p). content (po_dev ?p1) n = content (po_dev p) n)"
  proof (cases op)
    case (PutOp pt)
    obtain r p2 where "store_write C dv bs pt p = (r, p2)" by fastforce
    then show ?thesis using store_write_in_use(1,2) [OF Cons.prems(1,2), of C bs pt r p2] PutOp by simp
  next
    case (DropOp r)
    then show ?thesis using Cons.prems(1) by (simp add: store_release_def split: prod.splits option.splits)
  qed
  moreover have "p' = store_run C dv bs ops ?p1" using Cons.prems(3) by (simp add: store_run_def)
  ultimately show ?case
    using Cons.IH [of ?p1] store_step_bitmap [OF Cons.prems(2), of C dv bs op] by (metis subsetD)
qed

end

text \<open>No entry ever points into a reserved area: the clusters of a new entry were free.\<close>

definition avoids :: "nat set \<Rightarrow> dedup_table \<Rightarrow> bool" where
  "avoids U ddt = (\<forall>k e. map_of ddt k = Some e \<longrightarrow> entry_run e \<inter> U = {})"

lemma store_step_avoids:
  assumes "bitmap_ok (po_bm p)" "U \<subseteq> used_set (po_bm p)" "avoids U (po_ddt p)"
  shows "avoids U (po_ddt (store_step C dv bs op p))"
proof (cases op)
  case (DropOp r)
  have "po_ddt (store_step C dv bs op p) = snd (dedup_decr (rf_hash r) (po_ddt p))"
    by (simp add: DropOp store_release_def split: prod.splits option.splits)
  then show ?thesis
    using assms(3) by (auto simp: avoids_def dedup_decr_def update_conv' delete_conv' Let_def split: option.splits if_splits)
next
  case (PutOp pt)
  let ?k = "blake3 C pt"
  obtain r p' where w: "store_write C dv bs pt p = (r, p')" by fastforce
  have "po_ddt p' = po_ddt p \<or> po_ddt p' = snd (dedup_incr ?k (po_ddt p)) \<or>
      (\<exists>s c bm pl lg raw. bitmap_alloc c (po_bm p) = (Ok s, bm) \<and> po_ddt p' = dedup_add ?k
         \<lparr>de_start = s, de_count = ucast c, de_payload = pl, de_logical = lg, de_raw = raw, de_refs = 0\<rparr> (po_ddt p))"
    using w by (auto simp: store_write_def Let_def split: option.splits prod.splits res.splits) blast
  moreover have "avoids U (snd (dedup_incr ?k (po_ddt p)))"
    using assms(3) by (auto simp: avoids_def dedup_incr_def update_conv' split: option.splits if_splits)
  moreover have "avoids U (dedup_add ?k e (po_ddt p))"
    if "bitmap_alloc c (po_bm p) = (Ok (de_start e), bm)" "de_count e = ucast c" for e :: dedup_entry and c bm
  proof -
    note ar = alloc_run [OF assms(1) that(1)]
    have "unat (de_count e) \<le> unat c" using that(2) by (simp add: unsigned_ucast_eq take_bit_nat_less_eq_self)
    then have "entry_run e \<subseteq> run_set (de_start e) c" using ar(2) by (auto simp: entry_run_def)
    then show ?thesis
      using assms(2,3) ar(4) by (auto simp: avoids_def dedup_add_def update_conv' split: if_splits)
  qed
  ultimately have "avoids U (po_ddt p')" using assms(3) by (elim disjE exE conjE) auto
  then show ?thesis using PutOp w by simp
qed

lemma store_step_deferred:
  assumes "bitmap_ok (po_bm p)" "avoids U (po_ddt p)" "deferred_set (po_bm p) \<inter> U = {}"
  shows "deferred_set (po_bm (store_step C dv bs op p)) \<inter> U = {}"
proof (cases op)
  case (DropOp r)
  have "run_set (de_start e) (ucast (de_count e)) \<subseteq> entry_run e" for e
  proof -
    have "unat (de_start e + ucast (de_count e)) \<le> unat (de_start e) + unat (de_count e)"
      by (simp add: unat_word_ariths)
    then show ?thesis by (auto simp: run_set_def entry_run_def)
  qed
  then show ?thesis
    using assms(2,3) unfolding avoids_def
    by (fastforce simp: DropOp store_release_def dedup_decr_def entry_run_def Let_def split: prod.splits option.splits if_splits)
next
  case (PutOp pt)
  obtain r p' where w: "store_write C dv bs pt p = (r, p')" by fastforce
  have "deferred_set (po_bm p') = deferred_set (po_bm p)"
  proof (cases "\<exists>e. r = Err e")
    case True
    then show ?thesis using store_write_Err(4) [OF assms(1)] w by auto
  next
    case False
    then have "po_bm p' = po_bm p \<or> (\<exists>c s. bitmap_alloc c (po_bm p) = (Ok s, po_bm p'))"
      by (rule store_write_alloc [OF w])
    then show ?thesis using alloc_run(7) [OF assms(1)] by auto
  qed
  then show ?thesis using assms(3) PutOp w by simp
qed

lemma store_run_avoids:
  "bitmap_ok (po_bm p) \<Longrightarrow> U \<subseteq> used_set (po_bm p) \<Longrightarrow> avoids U (po_ddt p) \<Longrightarrow> deferred_set (po_bm p) \<inter> U = {} \<Longrightarrow>
   p' = store_run C dv bs ops p \<Longrightarrow>
   avoids U (po_ddt p') \<and> used_set (po_bm p) \<subseteq> used_set (po_bm p') \<and> deferred_set (po_bm p') \<inter> U = {}"
proof (induction ops arbitrary: p)
  case (Cons op ops)
  note sb = store_step_bitmap [OF Cons.prems(1), of C dv bs op]
  have "U \<subseteq> used_set (po_bm (store_step C dv bs op p))" using sb(2) Cons.prems(2) by blast
  from Cons.IH [OF sb(1) this store_step_avoids [OF Cons.prems(1-3)] store_step_deferred [OF Cons.prems(1,3,4)]] sb(2) Cons.prems(5)
  show ?case by (auto simp: store_run_def)
qed (simp add: store_run_def)

text \<open>What a sequence of operations keeps: the device's size, the contents of every cluster that was
  in use, and the clusters in use themselves.\<close>

definition keeps :: "('d \<Rightarrow> nat \<Rightarrow> bytes) \<Rightarrow> 'd device \<Rightarrow> 'd pool \<Rightarrow> 'd pool \<Rightarrow> bool" where
  "keeps V dv p p' = (blocks dv (po_dev p') = blocks dv (po_dev p) \<and>
     used_set (po_bm p) \<subseteq> used_set (po_bm p') \<and> deferred_set (po_bm p) \<subseteq> deferred_set (po_bm p') \<and>
     bm_total (po_bm p') = bm_total (po_bm p) \<and> (\<forall>n \<in> used_set (po_bm p). V (po_dev p') n = V (po_dev p) n))"

lemma keeps_refl: "keeps V dv p p"
  by (simp add: keeps_def)

lemma keeps_trans: "keeps V dv p q \<Longrightarrow> keeps V dv q r \<Longrightarrow> keeps V dv p r"
  by (auto simp: keeps_def)

context block_device begin

lemma put_step:
  assumes C: "crypto_ok C" and ok: "dev_ok (po_dev p)"
    and inv: "pool_inv C bs (view (po_dev p)) (unat (blocks dv (po_dev p))) (po_bm p) (po_ddt p) ct"
    and refs: "refs_below (po_ddt p) 1"
    and pt: "length pt < 2 ^ 32" "\<forall>q. ct (blake3 C pt) = Some q \<longrightarrow> q = pt"
    and w: "store_write C dv bs pt p = (r, p')"
  shows "(\<exists>rf. r = Ok rf \<and> store_read C dv bs (po_dev p') rf = Ok pt \<and>
        pool_inv C bs (view (po_dev p')) (unat (blocks dv (po_dev p'))) (po_bm p') (po_ddt p') (ct(blake3 C pt \<mapsto> pt)))
      \<or> p' = p \<and> (r = Err Compress \<and> zstd_encode C pt = None \<or> r = Err (StoreAlloc AllocNoSpace))"
    "dev_ok (po_dev p')" "keeps view dv p p'"
proof -
  let ?k = "blake3 C pt"
  have "((\<exists>rf. r = Ok rf \<and> store_read C dv bs (po_dev p') rf = Ok pt \<and>
        pool_inv C bs (view (po_dev p')) (unat (blocks dv (po_dev p'))) (po_bm p') (po_ddt p') (ct(?k \<mapsto> pt)))
      \<or> p' = p \<and> (r = Err Compress \<and> zstd_encode C pt = None \<or> r = Err (StoreAlloc AllocNoSpace))) \<and>
    dev_ok (po_dev p') \<and> keeps view dv p p'"
  proof (cases "map_of (po_ddt p) ?k")
    case (Some e)
    obtain q where q: "ct ?k = Some q" "entry_inv C bs (view (po_dev p)) (unat (blocks dv (po_dev p))) (po_bm p) ?k e q"
      by (rule pool_inv_entry [OF inv Some])
    have "ct(?k \<mapsto> pt) = ct" using q(1) pt(2) by auto
    moreover obtain p1 where p1: "store_write C dv bs pt p = (Ok (ref_from ?k e), p1)" "po_dev p1 = po_dev p"
        "po_bm p1 = po_bm p" "pool_inv C bs (view (po_dev p)) (unat (blocks dv (po_dev p))) (po_bm p) (po_ddt p1) ct"
      using store_write_hit [OF inv Some, of dv] refs Some by (auto simp: refs_below_def)
    moreover have "store_read C dv bs (po_dev p) (ref_from ?k e) = Ok pt"
      using store_read_holds [OF C ok] q pt(2) by (simp add: entry_inv_def)
    ultimately show ?thesis using w ok by (simp add: keeps_def)
  next
    case None
    show ?thesis
    proof (cases "zstd_encode C pt")
      case N: None
      then show ?thesis using store_write_miss_fails(1) [OF None N, of dv bs] w ok by (simp add: keeps_refl)
    next
      case z: (Some z)
      obtain pl raw where ch: "chosen pt z = (pl, raw)" by fastforce
      obtain ra bm where al: "bitmap_alloc (clusters (length pl)) (po_bm p) = (ra, bm)" by fastforce
      note cb = clusters_bounds [OF chosen_payload(2) [OF C z ch pt(1)]]
      show ?thesis
      proof (cases ra)
        case (Ok s)
        note al = al [unfolded Ok]
        note ar = alloc_run [OF pool_inv_facts(1) [OF inv] al]
        obtain rf p1 where p1: "store_write C dv bs pt p = (Ok rf, p1)" "store_read C dv bs (po_dev p1) rf = Ok pt"
            "dev_ok (po_dev p1)" "blocks dv (po_dev p1) = blocks dv (po_dev p)" "po_bm p1 = bm"
            "\<forall>n. n \<notin> run_set s (clusters (length pl)) \<longrightarrow> view (po_dev p1) n = view (po_dev p) n"
            "pool_inv C bs (view (po_dev p1)) (unat (blocks dv (po_dev p))) bm (po_ddt p1) (ct(?k \<mapsto> pt))"
          using store_write_stored [OF C ok inv pt(1) z ch None al] by blast
        then have "keeps view dv p p1" using ar(3,4,6,7) by (auto simp: keeps_def)
        then show ?thesis using p1 w by auto
      next
        case (Err ea)
        then have "ea = AllocNoSpace"
          using bitmap_alloc_Err(2) [of "clusters (length pl)" "po_bm p" ea bm] al cb(2) by auto
        then show ?thesis
          using Err store_write_miss_fails(2) [OF None z ch, of ea bm dv bs] al w ok by (simp add: keeps_refl)
      next
        case Panic
        then show ?thesis using al bitmap_alloc_no_panic [of "clusters (length pl)" "po_bm p"] by simp
      qed
    qed
  qed
  then show "(\<exists>rf. r = Ok rf \<and> store_read C dv bs (po_dev p') rf = Ok pt \<and>
        pool_inv C bs (view (po_dev p')) (unat (blocks dv (po_dev p'))) (po_bm p') (po_ddt p') (ct(?k \<mapsto> pt)))
      \<or> p' = p \<and> (r = Err Compress \<and> zstd_encode C pt = None \<or> r = Err (StoreAlloc AllocNoSpace))"
    "dev_ok (po_dev p')" "keeps view dv p p'" by blast+
qed

text \<open>Whatever keeps the clusters in use keeps every stored block readable.\<close>

lemma kept_reads:
  assumes C: "crypto_ok C"
    and inv: "pool_inv C bs (view (po_dev p)) (unat (blocks dv (po_dev p))) (po_bm p) (po_ddt p) ct"
    and kp: "keeps view dv p p'" and ok: "dev_ok (po_dev p')"
    and k: "map_of (po_ddt p) k = Some e" "ct k = Some q"
  shows "store_read C dv bs (po_dev p') (ref_from k e) = Ok q"
proof -
  have ei: "k = blake3 C q" "holds C bs (view (po_dev p)) (unat (blocks dv (po_dev p))) e q" "entry_run e \<subseteq> used_set (po_bm p)"
    using inv k by (simp_all add: pool_inv_def entry_inv_def)
  have bl: "blocks dv (po_dev p') = blocks dv (po_dev p)"
    and vw: "n \<in> used_set (po_bm p) \<Longrightarrow> view (po_dev p') n = view (po_dev p) n" for n
    using kp by (simp_all add: keeps_def)
  have "holds C bs (view (po_dev p')) (unat (blocks dv (po_dev p'))) e q"
    unfolding bl by (rule holds_cong [OF ei(2)]) (rule vw [OF subsetD [OF ei(3)]])
  then show ?thesis by (rule store_read_holds [OF C ok _ ei(1)])
qed

text \<open>The invariant over a whole sequence, for plaintexts on which the hash does not collide.\<close>

lemma step_inv:
  assumes C: "crypto_ok C" and ok: "dev_ok (po_dev p)"
    and inv: "pool_inv C bs (view (po_dev p)) (unat (blocks dv (po_dev p))) (po_bm p) (po_ddt p) ct"
    and refs: "refs_below (po_ddt p) 1"
    and len: "\<forall>pt \<in> puts [op]. length pt < 2 ^ 32" and inj: "inj_on (blake3 C) (ran ct \<union> puts [op])"
    and p': "p' = store_step C dv bs op p"
  shows "\<exists>ct'. pool_inv C bs (view (po_dev p')) (unat (blocks dv (po_dev p'))) (po_bm p') (po_ddt p') ct' \<and>
    dev_ok (po_dev p') \<and> keeps view dv p p' \<and> ran ct' \<subseteq> ran ct \<union> puts [op]"
proof (cases op)
  case (PutOp pt)
  have in_puts: "pt \<in> puts [op]" using PutOp by (simp add: puts_def)
  have nc: "\<forall>q. ct (blake3 C pt) = Some q \<longrightarrow> q = pt"
    using pool_no_collision [OF inv inj Un_upper1 UnI2 [OF in_puts]] by blast
  obtain r where w: "store_write C dv bs pt p = (r, p')" using p' PutOp by (cases "store_write C dv bs pt p") auto
  note ps = put_step [OF C ok inv refs bspec [OF len in_puts] nc w]
  have rn: "ran (ct(blake3 C pt \<mapsto> pt)) \<subseteq> ran ct \<union> puts [op]"
    using in_puts by (auto simp: ran_def split: if_splits)
  from ps(1) show ?thesis
  proof (elim disjE exE conjE)
    fix rf
    assume "pool_inv C bs (view (po_dev p')) (unat (blocks dv (po_dev p'))) (po_bm p') (po_ddt p') (ct(blake3 C pt \<mapsto> pt))"
    then show ?thesis using ps(2,3) rn by (intro exI [of _ "ct(blake3 C pt \<mapsto> pt)"]) simp
  qed (use inv ps(2,3) in \<open>auto intro!: exI [of _ ct]\<close>)
next
  case (DropOp r)
  show ?thesis
  proof (cases "\<exists>e. map_of (po_ddt p) (rf_hash r) = Some e \<and> unat (de_refs e) = 1")
    case True
    then obtain e where e: "map_of (po_ddt p) (rf_hash r) = Some e" "unat (de_refs e) = 1" by blast
    note rl = store_release_last [OF inv e, where p' = p']
    have "ran (ct(rf_hash r := None)) \<subseteq> ran ct" by (auto simp: ran_def)
    moreover have "p' = store_release r p" using p' DropOp by simp
    moreover have "bm_total (po_bm p') = bm_total (po_bm p)"
      using p' DropOp by (auto simp: store_release_def bitmap_defer_def split: prod.splits option.splits)
    ultimately show ?thesis
      using rl ok by (intro exI [of _ "ct(rf_hash r := None)"]) (auto simp: keeps_def)
  next
    case False
    then have "unat (de_refs e) \<noteq> 1" if "map_of (po_ddt p) (rf_hash r) = Some e" for e using that by auto
    note ro = store_release_other [OF inv this, where p' = p']
    show ?thesis using ro p' DropOp ok by (intro exI [of _ ct]) (auto simp: keeps_def)
  qed
qed

lemma store_run_inv:
  assumes C: "crypto_ok C"
  shows "dev_ok (po_dev p) \<Longrightarrow>
    pool_inv C bs (view (po_dev p)) (unat (blocks dv (po_dev p))) (po_bm p) (po_ddt p) ct \<Longrightarrow>
    refs_below (po_ddt p) (length ops) \<Longrightarrow> length ops < 2 ^ 32 \<Longrightarrow> \<forall>pt \<in> puts ops. length pt < 2 ^ 32 \<Longrightarrow>
    inj_on (blake3 C) (ran ct \<union> puts ops) \<Longrightarrow> p' = store_run C dv bs ops p \<Longrightarrow>
    \<exists>ct'. pool_inv C bs (view (po_dev p')) (unat (blocks dv (po_dev p'))) (po_bm p') (po_ddt p') ct' \<and>
      dev_ok (po_dev p') \<and> keeps view dv p p' \<and> ran ct' \<subseteq> ran ct \<union> puts ops"
proof (induction ops arbitrary: p ct)
  case Nil
  then show ?case by (auto simp: store_run_def keeps_refl)
next
  case (Cons op ops)
  let ?p1 = "store_step C dv bs op p"
  note inv = Cons.prems(2)
  have refs: "refs_below (po_ddt ?p1) (length ops)" "refs_below (po_ddt p) 1"
  proof -
    show "refs_below (po_ddt ?p1) (length ops)"
      using Cons.prems(3,4) pool_inv_facts(3) [OF inv] by (intro store_step_refs) auto
    show "refs_below (po_ddt p) 1" unfolding refs_below_def
    proof (intro allI impI)
      fix k e assume "map_of (po_ddt p) k = Some e"
      then have "unat (de_refs e) + length (op # ops) < 2 ^ 32" using Cons.prems(3) unfolding refs_below_def by blast
      then show "unat (de_refs e) + 1 < 2 ^ 32" unfolding length_Cons by linarith
    qed
  qed
  have sub: "puts [op] \<subseteq> puts (op # ops)" "puts ops \<subseteq> puts (op # ops)" "puts (op # ops) = puts [op] \<union> puts ops"
    by (auto simp: puts_def)
  obtain ct1 where ct1: "pool_inv C bs (view (po_dev ?p1)) (unat (blocks dv (po_dev ?p1))) (po_bm ?p1) (po_ddt ?p1) ct1"
      "dev_ok (po_dev ?p1)" "keeps view dv p ?p1" "ran ct1 \<subseteq> ran ct \<union> puts [op]"
    using step_inv [OF C Cons.prems(1) inv refs(2), of op ?p1] Cons.prems(5) sub
      inj_on_subset [OF Cons.prems(6), of "ran ct \<union> puts [op]"] by auto
  have "ran ct1 \<union> puts ops \<subseteq> ran ct \<union> puts (op # ops)" using ct1(4) sub by auto
  note inj = inj_on_subset [OF Cons.prems(6) this]
  have "\<forall>pt \<in> puts ops. length pt < 2 ^ 32" "length ops < 2 ^ 32" "p' = store_run C dv bs ops ?p1"
    using Cons.prems(4,5,7) sub by (auto simp: store_run_def)
  from Cons.IH [OF ct1(2,1) refs(1) this(2,1) inj this(3)]
  obtain ct' where ct': "pool_inv C bs (view (po_dev p')) (unat (blocks dv (po_dev p'))) (po_bm p') (po_ddt p') ct'"
      "dev_ok (po_dev p')" "keeps view dv ?p1 p'" "ran ct' \<subseteq> ran ct1 \<union> puts ops" by blast
  then show ?case using keeps_trans [OF ct1(3) ct'(3)] ct1(4) sub(3) by blast
qed

end

section \<open>Properties\<close>

abbreviation file_view :: "file_device \<Rightarrow> nat \<Rightarrow> bytes" where
  "file_view d \<equiv> block_view (fl_bytes (fd_f d)) (fd_blocks d)"

abbreviation file_pool_inv :: "crypto \<Rightarrow> block_store \<Rightarrow> file_device pool \<Rightarrow> (key \<rightharpoonup> bytes) \<Rightarrow> bool" where
  "file_pool_inv C bs p ct \<equiv>
     pool_inv C bs (file_view (po_dev p)) (unat (fd_blocks (po_dev p))) (po_bm p) (po_ddt p) ct"

lemma blocks_file_dev: "blocks file_dev = fd_blocks"
  by (simp add: file_dev_def)

text \<open>A hash, a compressor and a cipher that satisfy \<open>crypto_ok\<close>, and an empty pool on a zeroed
  image, for concrete inputs.\<close>

definition plain_crypto :: crypto where
  "plain_crypto = \<lparr>blake3 = (\<lambda>b. take 32 (b @ replicate 32 0)), zstd_encode = Some, zstd_decode = Some,
     aes_key_ok = (\<lambda>n k. length k = n), encrypt_sector = (\<lambda>c a. map (\<lambda>x. x + 1)),
     decrypt_sector = (\<lambda>c a. map (\<lambda>x. x - 1))\<rparr>"

definition empty_pool :: "nat \<Rightarrow> file_device pool" where
  "empty_pool n = \<lparr>po_dev = \<lparr>fd_f = \<lparr>fl_bytes = replicate (n * SIZE) 0, fl_faults = []\<rparr>, fd_blocks = of_nat n\<rparr>,
     po_bm = bitmap_new (of_nat n), po_ddt = dedup_new\<rparr>"

lemma plain_crypto_ok: "crypto_ok plain_crypto"
  by (auto simp: crypto_ok_def plain_crypto_def comp_def)

lemma empty_pool_inv:
  assumes "n < 2 ^ 40"
  shows "file_healthy (fd_f (po_dev (empty_pool n))) (fd_blocks (po_dev (empty_pool n)))"
    "file_pool_inv C bs (empty_pool n) Map.empty" "refs_below (po_ddt (empty_pool n)) m"
proof -
  have "unat (of_nat n :: u64) = n" using assms by (intro unat_of_nat_small) simp
  moreover have "n * SIZE < 2 ^ 64" using assms by (simp add: SIZE_def)
  ultimately show "file_healthy (fd_f (po_dev (empty_pool n))) (fd_blocks (po_dev (empty_pool n)))"
    by (simp add: file_healthy_def file_fits_def empty_pool_def)
  show "file_pool_inv C bs (empty_pool n) Map.empty" "refs_below (po_ddt (empty_pool n)) m"
    by (simp_all add: pool_inv_def empty_pool_def dedup_new_def dedup_ok_def runs_disjoint_def deferred_set_def refs_below_def)
qed

text \<open>C24. What is written reads back: on a file image that does not fail, a block stored with
  \<open>write\<close> is returned by \<open>read\<close> through its reference, whether it was deduplicated,
  compressed, stored raw or encrypted, and every block stored before is still read as it was.  The
  hash must not collide on the contents involved.\<close>

theorem store_write_read:
  assumes "crypto_ok C" "file_healthy (fd_f (po_dev p)) (fd_blocks (po_dev p))" "file_pool_inv C bs p ct"
    and "refs_below (po_ddt p) 1" "length pt < 2 ^ 32" "inj_on (blake3 C) (insert pt (ran ct))"
    and "store_write C file_dev bs pt p = (Ok r, p')"
  shows "store_read C file_dev bs (po_dev p') r = Ok pt \<and>
    (\<forall>k e q. map_of (po_ddt p) k = Some e \<longrightarrow> ct k = Some q \<longrightarrow>
       store_read C file_dev bs (po_dev p') (ref_from k e) = Ok q)"
proof -
  have nc: "\<forall>q. ct (blake3 C pt) = Some q \<longrightarrow> q = pt"
    using pool_no_collision [OF assms(3,6) subset_insertI insertI1] by blast
  note ps = fil.put_step [unfolded blocks_file_dev, OF assms(1-5) nc assms(7)]
  have "store_read C file_dev bs (po_dev p') r = Ok pt" using ps(1) by auto
  moreover note fil.kept_reads [unfolded blocks_file_dev, OF assms(1,3) ps(3,2)]
  ultimately show ?thesis by blast
qed

lemma empty_pool_write:
  "\<exists>r p'. store_write plain_crypto file_dev \<lparr>bs_cipher = None\<rparr> [1, 2, 3] (empty_pool 4) = (Ok r, p')"
proof -
  let ?p = "empty_pool 4" and ?bs = "\<lparr>bs_cipher = None\<rparr>"
  have n: "(4 :: nat) < 2 ^ 40" by simp
  note ep = empty_pool_inv [OF n]
  obtain r p' where w: "store_write plain_crypto file_dev ?bs [1, 2, 3] ?p = (r, p')" by fastforce
  have "fst (bitmap_alloc (clusters (Suc (Suc (Suc 0)))) (bitmap_new 4)) = Ok 0" by code_simp
  then have "r \<noteq> Err (StoreAlloc AllocNoSpace)"
    using w by (auto simp: store_write_def empty_pool_def dedup_new_def dedup_lookup_def plain_crypto_def chosen_def Let_def
      split: prod.splits res.splits)
  then show ?thesis
    using fil.put_step(1) [unfolded blocks_file_dev, OF plain_crypto_ok ep(1,2,3) _ _ w] w by (auto simp: plain_crypto_def)
qed

theorem store_write_read_witness:
  "\<exists>r p'. store_write plain_crypto file_dev \<lparr>bs_cipher = None\<rparr> [1, 2, 3] (empty_pool 4) = (Ok r, p') \<and>
     store_read plain_crypto file_dev \<lparr>bs_cipher = None\<rparr> (po_dev p') r = Ok [1, 2, 3]"
proof -
  obtain r p' where w: "store_write plain_crypto file_dev \<lparr>bs_cipher = None\<rparr> [1, 2, 3] (empty_pool 4) = (Ok r, p')"
    using empty_pool_write by blast
  have n: "(4 :: nat) < 2 ^ 40" by simp
  show ?thesis
    using store_write_read [OF plain_crypto_ok empty_pool_inv [OF n] _ _ w] w by auto
qed

text \<open>C26. A failing write is harmless: whatever prefix of a cluster a failing device wrote, when
  \<open>write\<close> returns an error the dedup table is unchanged, the clusters it had taken are free
  again, and every stored block is still in place.\<close>

theorem store_write_failure_safe:
  assumes "file_fits (fd_f (po_dev p)) (fd_blocks (po_dev p))" "file_pool_inv C bs p ct"
    and "store_write C file_dev bs pt p = (Err e, p')"
  shows "po_ddt p' = po_ddt p \<and> used_set (po_bm p') = used_set (po_bm p) \<and> file_pool_inv C bs p' ct"
proof -
  note er = store_write_Err [OF pool_inv_facts(1) [OF assms(2)] assms(3)]
  note iu = ffil.store_write_in_use [OF assms(1) pool_inv_facts(1) [OF assms(2)] assms(3)]
  have "pool_inv C bs (file_view (po_dev p')) (unat (fd_blocks (po_dev p))) (po_bm p') (po_ddt p) ct"
    using pool_inv_frame [OF assms(2) er(3,5) _ _ iu(2)] er(2,4) by simp
  moreover have "fd_blocks (po_dev p') = fd_blocks (po_dev p)"
    using ffil.store_write_in_use(3) [OF assms(1) pool_inv_facts(1) [OF assms(2)] assms(3)] by (simp add: blocks_file_dev)
  ultimately show ?thesis using er(1,2) by simp
qed

theorem store_write_failure_safe_witness:
  "\<exists>p'. store_write plain_crypto file_dev \<lparr>bs_cipher = None\<rparr> [1, 2, 3]
        ((empty_pool 4)\<lparr>po_dev := \<lparr>fd_f = \<lparr>fl_bytes = replicate (4 * SIZE) 0, fl_faults = [Some 100]\<rparr>, fd_blocks = 4\<rparr>\<rparr>) =
      (Err (StoreBlock (Io ''write failed'')), p') \<and> used_set (po_bm p') = {}"
proof -
  let ?d = "\<lparr>fd_f = \<lparr>fl_bytes = replicate (4 * SIZE) 0, fl_faults = [Some 100]\<rparr>, fd_blocks = 4\<rparr> :: file_device"
  let ?p = "(empty_pool 4)\<lparr>po_dev := ?d\<rparr>" and ?bs = "\<lparr>bs_cipher = None\<rparr>"
  have fits: "file_fits (fd_f (po_dev ?p)) (fd_blocks (po_dev ?p))" by (simp add: file_fits_def SIZE_def)
  have inv: "file_pool_inv plain_crypto ?bs ?p Map.empty"
    by (simp add: pool_inv_def empty_pool_def dedup_new_def dedup_ok_def runs_disjoint_def deferred_set_def)
  have cl: "clusters (Suc (Suc (Suc 0))) = 1" by code_simp
  have "fst (bitmap_alloc 1 (bitmap_new 4)) = Ok 0" by code_simp
  then obtain bm where al: "bitmap_alloc 1 (bitmap_new 4) = (Ok 0, bm)" by (cases "bitmap_alloc 1 (bitmap_new 4)") auto
  have "fst (store_write plain_crypto file_dev ?bs [1, 2, 3] ?p) = Err (StoreBlock (Io ''write failed''))"
    using al cl by (simp add: store_write_def empty_pool_def dedup_new_def dedup_lookup_def plain_crypto_def chosen_def
      file_dev_def file_write_block_def write_all_at_def enc_sector_def BLK_def slice_def copy_at_def SIZE_def Let_def)
  then obtain p' where w: "store_write plain_crypto file_dev ?bs [1, 2, 3] ?p = (Err (StoreBlock (Io ''write failed'')), p')"
    by (cases "store_write plain_crypto file_dev ?bs [1, 2, 3] ?p") auto
  show ?thesis using store_write_failure_safe [OF fits inv w] w by (simp add: empty_pool_def)
qed

text \<open>C25. Copy on write: no sequence of writes and releases changes a block that was stored when it
  began, even one whose last reference it drops, until the deferred clusters are freed; and every
  block the table has at the end is readable.\<close>

theorem store_run_pinned:
  assumes "crypto_ok C" "file_healthy (fd_f (po_dev p)) (fd_blocks (po_dev p))" "file_pool_inv C bs p ct"
    and "refs_below (po_ddt p) (length ops)" "length ops < 2 ^ 32" "\<forall>pt \<in> puts ops. length pt < 2 ^ 32"
    and "inj_on (blake3 C) (ran ct \<union> puts ops)" "p' = store_run C file_dev bs ops p"
  shows "(\<forall>k e q. map_of (po_ddt p) k = Some e \<longrightarrow> ct k = Some q \<longrightarrow>
       store_read C file_dev bs (po_dev p') (ref_from k e) = Ok q) \<and>
    (\<forall>k e. map_of (po_ddt p') k = Some e \<longrightarrow>
       (\<exists>q \<in> ran ct \<union> puts ops. blake3 C q = k \<and> store_read C file_dev bs (po_dev p') (ref_from k e) = Ok q))"
proof -
  obtain ct' where ct': "file_pool_inv C bs p' ct'" "file_healthy (fd_f (po_dev p')) (fd_blocks (po_dev p'))"
      "keeps file_view file_dev p p'" "ran ct' \<subseteq> ran ct \<union> puts ops"
    using fil.store_run_inv [unfolded blocks_file_dev, OF assms] by blast
  note old = fil.kept_reads [unfolded blocks_file_dev, OF assms(1,3) ct'(3,2)]
  note new = fil.kept_reads [unfolded blocks_file_dev, OF assms(1) ct'(1) keeps_refl ct'(2)]
  have "\<exists>q \<in> ran ct \<union> puts ops. blake3 C q = k \<and> store_read C file_dev bs (po_dev p') (ref_from k e) = Ok q"
    if m: "map_of (po_ddt p') k = Some e" for k e
  proof -
    obtain q where q: "ct' k = Some q" by (rule pool_inv_entry [OF ct'(1) m])
    then have "q \<in> ran ct \<union> puts ops" using ct'(4) by (auto simp: ran_def)
    then show ?thesis using new [OF m q] pool_inv_content [OF ct'(1) q] by blast
  qed
  with old show ?thesis by blast
qed

theorem store_run_pinned_witness:
  "\<exists>r p1 e. store_write plain_crypto file_dev \<lparr>bs_cipher = None\<rparr> [1, 2, 3] (empty_pool 4) = (Ok r, p1) \<and>
    map_of (po_ddt p1) (blake3 plain_crypto [1, 2, 3]) = Some e \<and>
    store_read plain_crypto file_dev \<lparr>bs_cipher = None\<rparr>
      (po_dev (store_run plain_crypto file_dev \<lparr>bs_cipher = None\<rparr> [DropOp r, PutOp [4]] p1))
      (ref_from (blake3 plain_crypto [1, 2, 3]) e) = Ok [1, 2, 3]"
proof -
  let ?bs = "\<lparr>bs_cipher = None\<rparr>" and ?ops = "\<lambda>r. [DropOp r, PutOp [4]]"
  have n: "(4 :: nat) < 2 ^ 40" by simp
  note ep = empty_pool_inv [OF n]
  obtain r p1 where w: "store_write plain_crypto file_dev ?bs [1, 2, 3] (empty_pool 4) = (Ok r, p1)"
    using empty_pool_write by blast
  note ps = fil.put_step [unfolded blocks_file_dev, OF plain_crypto_ok ep(1,2,3) _ _ w]
  have inv: "file_pool_inv plain_crypto ?bs p1 [blake3 plain_crypto [1, 2, 3] \<mapsto> [1, 2, 3]]" using ps(1) by auto
  have ok: "file_healthy (fd_f (po_dev p1)) (fd_blocks (po_dev p1))" using ps(2) by auto
  have "refs_below (po_ddt (store_step plain_crypto file_dev ?bs (PutOp [1, 2, 3]) (empty_pool 4))) (Suc (Suc 0))"
    by (rule store_step_refs) (use pool_inv_facts(3) [OF ep(2)] in \<open>auto simp: refs_below_def empty_pool_def dedup_new_def\<close>)
  then have refs: "refs_below (po_ddt p1) (length (?ops r))" using w by simp
  have puts: "puts (?ops r) = {[4]}" by (auto simp: puts_def)
  have "inj_on (blake3 plain_crypto) (ran [blake3 plain_crypto [1, 2, 3] \<mapsto> [1, 2, 3]] \<union> puts (?ops r))"
    unfolding puts by (simp add: plain_crypto_def)
  note pinned = store_run_pinned [OF plain_crypto_ok ok inv refs _ _ this refl]
  obtain e where e: "map_of (po_ddt p1) (blake3 plain_crypto [1, 2, 3]) = Some e"
    using pool_inv_facts(4) [OF inv] by auto
  with pinned puts have "store_read plain_crypto file_dev ?bs (po_dev (store_run plain_crypto file_dev ?bs (?ops r) p1))
      (ref_from (blake3 plain_crypto [1, 2, 3]) e) = Ok [1, 2, 3]" by simp
  with w e show ?thesis by blast
qed

end
