(* ===== verification/Cow.thy ===== *)
theory Cow
  imports Store Inode
begin

text \<open>
  The commit protocol of \<^verbatim>\<open>rust/bloomfs-cow\<close>: two uberblock slots, two metadata slots, and
  \<open>format\<close>, \<open>mount\<close> and \<open>commit\<close> over them.  The operations are generic over the device, as in
  the code.

  The lemmas give each operation in closed form on the contents of the device, and show that a mount
  after a commit or a format returns the committed state.
\<close>

section \<open>The model\<close>

definition UBER_MAGIC :: u64 where
  "UBER_MAGIC = 0x00B100F5C0FFEE01"

definition UBER_CHECKSUM_OFF :: nat where
  "UBER_CHECKSUM_OFF = 104"

definition UBER_SLOT0 :: u64 where
  "UBER_SLOT0 = 0"

definition UBER_SLOT1 :: u64 where
  "UBER_SLOT1 = 1"

definition PER_BLOCK :: nat where
  "PER_BLOCK = SIZE div INODE_SIZE"

datatype cow_error = NotFormatted | BadUber | MetaTooBig | DeviceTooSmall u64 u64
  | CowBlock block_error | CowAlloc alloc_error | CowDedup dedup_error | CowInode inode_error

record uberblock =
  ub_magic :: u64
  ub_seq :: u64
  ub_block_size :: u32
  ub_active_meta :: u8
  ub_total_blocks :: u64
  ub_meta_a :: u64
  ub_meta_b :: u64
  ub_meta_blocks :: u64
  ub_inode_count :: u64
  ub_data_start :: u64
  ub_root_inode :: u64
  ub_next_inode :: u64
  ub_bitmap_len :: u32
  ub_ddt_len :: u32
  ub_inode_len :: u32

definition uber_marshal :: "crypto \<Rightarrow> uberblock \<Rightarrow> bytes" where
  "uber_marshal C u =
     (let b = copy_all
        [(0, le_bytes 8 (ub_magic u)),
         (8, le_bytes 8 (ub_seq u)),
         (16, le_bytes 4 (ub_block_size u)),
         (20, [ub_active_meta u]),
         (24, le_bytes 8 (ub_total_blocks u)),
         (32, le_bytes 8 (ub_meta_a u)),
         (40, le_bytes 8 (ub_meta_b u)),
         (48, le_bytes 8 (ub_meta_blocks u)),
         (56, le_bytes 8 (ub_inode_count u)),
         (64, le_bytes 8 (ub_data_start u)),
         (72, le_bytes 8 (ub_root_inode u)),
         (80, le_bytes 8 (ub_next_inode u)),
         (88, le_bytes 4 (ub_bitmap_len u)),
         (92, le_bytes 4 (ub_ddt_len u)),
         (96, le_bytes 4 (ub_inode_len u))] (replicate SIZE 0)
      in copy_at UBER_CHECKSUM_OFF (blake3 C (slice 0 UBER_CHECKSUM_OFF b)) b)"

definition meta_start :: "uberblock \<Rightarrow> u64" where
  "meta_start u = (if ub_active_meta u = 1 then ub_meta_b u else ub_meta_a u)"

definition parse_uber :: "crypto \<Rightarrow> bytes \<Rightarrow> (cow_error, uberblock) res" where
  "parse_uber C b =
     (if length b < SIZE then Err BadUber
      else if from_le (slice 0 8 b) \<noteq> UBER_MAGIC then Err BadUber
      else if blake3 C (slice 0 UBER_CHECKSUM_OFF b) \<noteq> slice UBER_CHECKSUM_OFF (UBER_CHECKSUM_OFF + 32) b
        then Err BadUber
      else Ok \<lparr>ub_magic = UBER_MAGIC,
               ub_seq = from_le (slice 8 16 b),
               ub_block_size = from_le (slice 16 20 b),
               ub_active_meta = b ! 20,
               ub_total_blocks = from_le (slice 24 32 b),
               ub_meta_a = from_le (slice 32 40 b),
               ub_meta_b = from_le (slice 40 48 b),
               ub_meta_blocks = from_le (slice 48 56 b),
               ub_inode_count = from_le (slice 56 64 b),
               ub_data_start = from_le (slice 64 72 b),
               ub_root_inode = from_le (slice 72 80 b),
               ub_next_inode = from_le (slice 80 88 b),
               ub_bitmap_len = from_le (slice 88 92 b),
               ub_ddt_len = from_le (slice 92 96 b),
               ub_inode_len = from_le (slice 96 100 b)\<rparr>)"

text \<open>The three \<open>marshal_into\<close> calls of \<open>write_snapshot\<close>, each into its part of the buffer.\<close>

definition fill_snapshot ::
  "(dedup_table \<Rightarrow> dedup_table) \<Rightarrow> bitmap \<Rightarrow> dedup_table \<Rightarrow> itable \<Rightarrow> bytes \<Rightarrow> bytes" where
  "fill_snapshot iter bm ddt tbl buf =
     (let bm_len = bitmap_marshal_len bm;
          dd_len = dedup_marshal_len ddt;
          in_len = itable_marshal_len tbl;
          buf = copy_at 0 (fst (bitmap_marshal_into bm (slice 0 bm_len buf))) buf;
          buf = copy_at bm_len (fst (dedup_marshal_into iter ddt (slice bm_len (bm_len + dd_len) buf))) buf
      in copy_at (bm_len + dd_len)
           (snd (itable_marshal_into tbl (slice (bm_len + dd_len) (bm_len + dd_len + in_len) buf))) buf)"

fun write_meta :: "'d device \<Rightarrow> u64 \<Rightarrow> nat list \<Rightarrow> bytes \<Rightarrow> 'd \<Rightarrow> (cow_error, unit) res \<times> 'd" where
  "write_meta dv start [] buf d = (Ok (), d)"
| "write_meta dv start (i # is) buf d =
     (let off = i * SIZE in
      if off + SIZE > length buf then (Panic, d)
      else case write_block dv d (start + of_nat i) (slice off (off + SIZE) buf) of
        (Ok u, d') \<Rightarrow> write_meta dv start is buf d'
      | (Err e, d') \<Rightarrow> (Err (CowBlock e), d')
      | (Panic, d') \<Rightarrow> (Panic, d'))"

definition cow_sync :: "'d device \<Rightarrow> 'd \<Rightarrow> (cow_error, unit) res \<times> 'd" where
  "cow_sync dv d = (case sync dv d of (r, d') \<Rightarrow> (map_err CowBlock r, d'))"

text \<open>The scratch buffer is an argument the function writes into when it is large enough; it is
  returned as the function leaves it, and so is the uberblock with its three lengths.\<close>

definition write_snapshot ::
  "(dedup_table \<Rightarrow> dedup_table) \<Rightarrow> 'd device \<Rightarrow> uberblock \<Rightarrow> bitmap \<Rightarrow> dedup_table \<Rightarrow> itable \<Rightarrow> bytes option \<Rightarrow> 'd \<Rightarrow>
     (cow_error, unit) res \<times> 'd \<times> uberblock \<times> bytes option" where
  "write_snapshot iter dv ub bm ddt tbl scratch d =
     (let bm_len = bitmap_marshal_len bm;
          dd_len = dedup_marshal_len ddt;
          in_len = itable_marshal_len tbl;
          need = unat (ub_meta_blocks ub * BLK)
      in if bm_len + dd_len + in_len > need then (Err MetaTooBig, d, ub, scratch)
         else
           let (buf, scratch') = (case scratch of
                 Some s \<Rightarrow>
                   if length s \<ge> need
                   then (fill_snapshot iter bm ddt tbl s, Some (fill_snapshot iter bm ddt tbl s))
                   else (fill_snapshot iter bm ddt tbl (replicate need 0), scratch)
               | None \<Rightarrow> (fill_snapshot iter bm ddt tbl (replicate need 0), scratch));
               ub = ub\<lparr>ub_bitmap_len := of_nat bm_len, ub_ddt_len := of_nat dd_len, ub_inode_len := of_nat in_len\<rparr>
           in (case st_bind (write_meta dv (meta_start ub) [0..<unat (ub_meta_blocks ub)] buf)
                      (\<lambda>_. cow_sync dv) d of
                 (r, d') \<Rightarrow> (r, d', ub, scratch')))"

definition write_uber :: "crypto \<Rightarrow> 'd device \<Rightarrow> uberblock \<Rightarrow> 'd \<Rightarrow> (cow_error, unit) res \<times> 'd" where
  "write_uber C dv ub d =
     (case write_block dv d (ub_seq ub mod 2) (uber_marshal C ub) of
        (Ok u, d') \<Rightarrow> cow_sync dv d'
      | (Err e, d') \<Rightarrow> (Err (CowBlock e), d')
      | (Panic, d') \<Rightarrow> (Panic, d'))"

definition cow_format ::
  "crypto \<Rightarrow> (dedup_table \<Rightarrow> dedup_table) \<Rightarrow> 'd device \<Rightarrow> u64 \<Rightarrow> u64 \<Rightarrow> 'd \<Rightarrow> (cow_error, uberblock) res \<times> 'd" where
  "cow_format C iter dv inode_count ddt_reserve d =
     (let total = blocks dv d;
          inode_count = (if inode_count = 0 then of_nat PER_BLOCK else inode_count);
          bitmap_bytes = 8 + div_ceil total 8;
          inode_reserve = inode_count * of_nat INODE_SIZE;
          meta_blocks = div_ceil (64 + bitmap_bytes + ddt_reserve + inode_reserve) BLK;
          meta_a = 2;
          meta_b = meta_a + meta_blocks;
          data_start = meta_b + meta_blocks
      in if total \<le> data_start then (Err (DeviceTooSmall data_start total), d)
         else
           let bm = bitmap_reserve 0 data_start (bitmap_new total);
               ddt = dedup_new;
               tbl = itable_new inode_count;
               ub = \<lparr>ub_magic = UBER_MAGIC, ub_seq = 1, ub_block_size = of_nat SIZE, ub_active_meta = 0,
                     ub_total_blocks = total, ub_meta_a = meta_a, ub_meta_b = meta_b,
                     ub_meta_blocks = meta_blocks, ub_inode_count = inode_count, ub_data_start = data_start,
                     ub_root_inode = 0, ub_next_inode = 1, ub_bitmap_len = 0, ub_ddt_len = 0, ub_inode_len = 0\<rparr>
           in (case write_snapshot iter dv ub bm ddt tbl None d of
                 (Ok u, d', ub', s) \<Rightarrow>
                   (case write_uber C dv ub' d' of
                      (Ok u, d'') \<Rightarrow> (Ok ub', d'')
                    | (Err e, d'') \<Rightarrow> (Err e, d'')
                    | (Panic, d'') \<Rightarrow> (Panic, d''))
               | (Err e, d', ub', s) \<Rightarrow> (Err e, d')
               | (Panic, d', ub', s) \<Rightarrow> (Panic, d')))"

fun scan_ubers ::
  "crypto \<Rightarrow> 'd device \<Rightarrow> 'd \<Rightarrow> u64 list \<Rightarrow> uberblock option \<Rightarrow> (cow_error, uberblock option) res" where
  "scan_ubers C dv d [] best = Ok best"
| "scan_ubers C dv d (slot # slots) best =
     res_bind (map_err CowBlock (read_block dv d slot)) (\<lambda>raw.
       scan_ubers C dv d slots
         (case parse_uber C raw of
            Ok ub \<Rightarrow> (case best of None \<Rightarrow> Some ub | Some b \<Rightarrow> if ub_seq ub > ub_seq b then Some ub else best)
          | _ \<Rightarrow> best))"

fun read_meta :: "'d device \<Rightarrow> 'd \<Rightarrow> u64 \<Rightarrow> nat list \<Rightarrow> bytes \<Rightarrow> (cow_error, bytes) res" where
  "read_meta dv d start [] buf = Ok buf"
| "read_meta dv d start (i # is) buf =
     res_bind (map_err CowBlock (read_block dv d (start + of_nat i))) (\<lambda>blkdata.
       let off = i * SIZE in
       if off + SIZE > length buf \<or> length blkdata \<noteq> SIZE then Panic
       else read_meta dv d start is (copy_at off blkdata buf))"

type_synonym mounted = "uberblock \<times> bitmap \<times> dedup_table \<times> itable"

definition load_meta :: "uberblock \<Rightarrow> bytes \<Rightarrow> (cow_error, mounted) res" where
  "load_meta best buf =
     (let bm_end = unat (ub_bitmap_len best);
          dd_end = bm_end + unat (ub_ddt_len best);
          in_end = dd_end + unat (ub_inode_len best)
      in if bm_end > length buf then Panic
         else res_bind (map_err CowAlloc (bitmap_unmarshal (slice 0 bm_end buf))) (\<lambda>bm.
           if dd_end > length buf then Panic
           else res_bind (map_err CowDedup (dedup_unmarshal (slice bm_end dd_end buf))) (\<lambda>ddt.
             if in_end > length buf then Panic
             else res_bind (map_err CowInode (unmarshal_table (slice dd_end in_end buf) (ub_inode_count best))) (\<lambda>tbl.
               Ok (best, bm, ddt, tbl)))))"

definition cow_mount :: "crypto \<Rightarrow> 'd device \<Rightarrow> 'd \<Rightarrow> (cow_error, mounted) res" where
  "cow_mount C dv d =
     res_bind (scan_ubers C dv d [UBER_SLOT0, UBER_SLOT1] None) (\<lambda>best.
       case best of
         None \<Rightarrow> Err NotFormatted
       | Some best \<Rightarrow>
         res_bind (read_meta dv d (meta_start best) [0..<unat (ub_meta_blocks best)]
                     (replicate (unat (ub_meta_blocks best * BLK)) 0))
           (load_meta best))"

definition cow_commit ::
  "crypto \<Rightarrow> (dedup_table \<Rightarrow> dedup_table) \<Rightarrow> 'd device \<Rightarrow> uberblock \<Rightarrow> bitmap \<Rightarrow> dedup_table \<Rightarrow> itable \<Rightarrow> u64 \<Rightarrow> u64 \<Rightarrow>
     bytes option \<Rightarrow> 'd \<Rightarrow> (cow_error, uberblock) res \<times> 'd \<times> bitmap \<times> bytes option" where
  "cow_commit C iter dv prev bm ddt tbl root_inode next_inode scratch d =
     (let next = prev\<lparr>ub_seq := ub_seq prev + 1, ub_active_meta := 1 - ub_active_meta prev,
                      ub_root_inode := root_inode, ub_next_inode := next_inode\<rparr>
      in case write_snapshot iter dv next bm ddt tbl scratch d of
           (Ok u, d', next', s) \<Rightarrow>
             (case write_uber C dv next' d' of
                (Ok u, d'') \<Rightarrow> (Ok next', d'', apply_deferred bm, s)
              | (Err e, d'') \<Rightarrow> (Err e, d'', bm, s)
              | (Panic, d'') \<Rightarrow> (Panic, d'', bm, s))
         | (Err e, d', next', s) \<Rightarrow> (Err e, d', bm, s)
         | (Panic, d', next', s) \<Rightarrow> (Panic, d', bm, s))"

section \<open>The uberblock format\<close>

definition uber_head :: "uberblock \<Rightarrow> bytes" where
  "uber_head u = le_bytes 8 (ub_magic u) @ le_bytes 8 (ub_seq u) @ le_bytes 4 (ub_block_size u) @ [ub_active_meta u] @
     [0, 0, 0] @ le_bytes 8 (ub_total_blocks u) @ le_bytes 8 (ub_meta_a u) @ le_bytes 8 (ub_meta_b u) @
     le_bytes 8 (ub_meta_blocks u) @ le_bytes 8 (ub_inode_count u) @ le_bytes 8 (ub_data_start u) @
     le_bytes 8 (ub_root_inode u) @ le_bytes 8 (ub_next_inode u) @ le_bytes 4 (ub_bitmap_len u) @
     le_bytes 4 (ub_ddt_len u) @ le_bytes 4 (ub_inode_len u) @ [0, 0, 0, 0]"

lemma length_uber_head [simp]: "length (uber_head u) = 104"
  by (simp add: uber_head_def)

lemma copy_all_append: "copy_all (xs @ ys) d = copy_all ys (copy_all xs d)"
  by (induction xs arbitrary: d) auto

lemma copy_at_zeros:
  assumes "length a + n + length b \<le> m"
  shows "copy_at (length a + n) b (a @ replicate (m - length a) 0) = a @ replicate n 0 @ b @ replicate (m - (length a + n + length b)) 0"
  using assms by (auto simp: copy_at_def min_def)

lemma uber_marshal_eq:
  assumes "crypto_ok C"
  shows "uber_marshal C u = uber_head u @ blake3 C (uber_head u) @ replicate (SIZE - 136) 0"
proof -
  let ?f1 = "[(0 :: nat, le_bytes 8 (ub_magic u)), (8, le_bytes 8 (ub_seq u)), (16, le_bytes 4 (ub_block_size u)), (20, [ub_active_meta u])]"
  let ?f2 = "[(24 :: nat, le_bytes 8 (ub_total_blocks u)), (32, le_bytes 8 (ub_meta_a u)), (40, le_bytes 8 (ub_meta_b u)),
     (48, le_bytes 8 (ub_meta_blocks u)), (56, le_bytes 8 (ub_inode_count u)), (64, le_bytes 8 (ub_data_start u)),
     (72, le_bytes 8 (ub_root_inode u)), (80, le_bytes 8 (ub_next_inode u)), (88, le_bytes 4 (ub_bitmap_len u)),
     (92, le_bytes 4 (ub_ddt_len u)), (96, le_bytes 4 (ub_inode_len u))]"
  let ?a = "concat (map snd ?f1)" and ?b = "concat (map snd ?f2)"
  have z: "replicate 3 (0 :: u8) = [0, 0, 0]" "replicate 4 (0 :: u8) = [0, 0, 0, 0]"
    "replicate (SIZE - 100) (0 :: u8) = [0, 0, 0, 0] @ replicate (SIZE - 104) 0"
  proof -
    show "replicate 3 (0 :: u8) = [0, 0, 0]" "replicate 4 (0 :: u8) = [0, 0, 0, 0]" by (simp_all add: numeral_eq_Suc)
    have "SIZE - 100 = Suc (Suc (Suc (Suc (SIZE - 104))))" by (simp add: SIZE_def)
    then show "replicate (SIZE - 100) (0 :: u8) = [0, 0, 0, 0] @ replicate (SIZE - 104) 0" by (simp only: replicate_Suc append.simps)
  qed
  have h: "uber_head u = ?a @ replicate 3 0 @ ?b @ replicate 4 0"
    by (simp add: uber_head_def z)
  have la: "length ?a = 21" "length ?b = 76" by simp_all
  have "copy_all ?f1 (replicate SIZE 0) = copy_at 0 ?a (replicate SIZE 0)"
    by (rule copy_all_contig) (simp_all add: SIZE_def)
  also have "\<dots> = ?a @ replicate (SIZE - length ?a) 0"
    by (subst copy_at_prefix) (simp_all add: SIZE_def)
  finally have c1: "copy_all ?f1 (replicate SIZE 0) = ?a @ replicate (SIZE - length ?a) 0" .
  have "copy_all ?f2 (?a @ replicate (SIZE - length ?a) 0) = copy_at (length ?a + 3) ?b (?a @ replicate (SIZE - length ?a) 0)"
    unfolding la by (rule copy_all_contig) (simp_all add: SIZE_def)
  also have "\<dots> = ?a @ replicate 3 0 @ ?b @ replicate (SIZE - 100) 0"
    using copy_at_zeros [of ?a 3 ?b SIZE] la by (simp add: SIZE_def)
  also have "\<dots> = uber_head u @ replicate (SIZE - 104) 0"
    unfolding h z by simp
  finally have c2: "copy_all (?f1 @ ?f2) (replicate SIZE 0) = uber_head u @ replicate (SIZE - 104) 0"
    unfolding copy_all_append c1 .
  have "length (blake3 C b) = 32" for b using assms by (simp add: crypto_ok_def)
  then have "copy_at 104 (blake3 C (uber_head u)) (uber_head u @ replicate (SIZE - 104) 0) =
      uber_head u @ blake3 C (uber_head u) @ replicate (SIZE - 136) 0"
    by (simp add: copy_at_def SIZE_def)
  then show ?thesis
    using c2 by (simp add: uber_marshal_def UBER_CHECKSUM_OFF_def)
qed

lemma length_uber_marshal [simp]: "crypto_ok C \<Longrightarrow> length (uber_marshal C u) = SIZE"
  by (simp add: uber_marshal_eq crypto_ok_def SIZE_def)

lemma parse_uber_marshal:
  assumes "crypto_ok C" "ub_magic u = UBER_MAGIC"
  shows "parse_uber C (uber_marshal C u) = Ok u"
proof -
  define b where "b = uber_head u @ blake3 C (uber_head u) @ replicate (SIZE - 136) 0"
  have l: "length (blake3 C (uber_head u)) = 32" using assms(1) by (simp add: crypto_ok_def)
  have len: "length b = SIZE" using l by (simp add: b_def SIZE_def)
  have sum: "slice 0 104 b = uber_head u" "slice 104 136 b = blake3 C (uber_head u)" using l by (simp_all add: b_def)
  have active: "b ! 20 = ub_active_meta u" by (simp add: b_def uber_head_def nth_append)
  have "slice 0 8 b = le_bytes 8 (ub_magic u)" "slice 8 16 b = le_bytes 8 (ub_seq u)"
    "slice 16 20 b = le_bytes 4 (ub_block_size u)" "slice 24 32 b = le_bytes 8 (ub_total_blocks u)"
    "slice 32 40 b = le_bytes 8 (ub_meta_a u)" "slice 40 48 b = le_bytes 8 (ub_meta_b u)"
    "slice 48 56 b = le_bytes 8 (ub_meta_blocks u)" "slice 56 64 b = le_bytes 8 (ub_inode_count u)"
    "slice 64 72 b = le_bytes 8 (ub_data_start u)" "slice 72 80 b = le_bytes 8 (ub_root_inode u)"
    "slice 80 88 b = le_bytes 8 (ub_next_inode u)" "slice 88 92 b = le_bytes 4 (ub_bitmap_len u)"
    "slice 92 96 b = le_bytes 4 (ub_ddt_len u)" "slice 96 100 b = le_bytes 4 (ub_inode_len u)"
    by (simp_all add: b_def uber_head_def)
  then have "parse_uber C b = Ok u"
    using sum active len assms(2) by (cases u) (simp add: parse_uber_def UBER_CHECKSUM_OFF_def)
  then show ?thesis using assms by (simp add: uber_marshal_eq b_def)
qed

text \<open>Only the first 136 bytes of a block count.\<close>

lemma parse_uber_cong:
  assumes "take 136 b = take 136 b'" "length b = length b'"
  shows "parse_uber C b = parse_uber C b'"
proof -
  have sl: "slice lo hi b = slice lo hi b'" if "hi \<le> 136" for lo hi
  proof -
    have "slice lo hi b = slice lo hi (take 136 b)" "slice lo hi b' = slice lo hi (take 136 b')"
      using that by (simp_all add: slice_def drop_take min_def)
    then show ?thesis using assms(1) by simp
  qed
  have "b ! 20 = b' ! 20" if "\<not> length b < SIZE"
    using nth_take [of 20 136 b] nth_take [of 20 136 b'] assms(1) by simp
  then show ?thesis
    using assms(2) sl by (simp add: parse_uber_def UBER_CHECKSUM_OFF_def)
qed

section \<open>Snapshots\<close>

definition snap_enc :: "(dedup_table \<Rightarrow> dedup_table) \<Rightarrow> bitmap \<Rightarrow> dedup_table \<Rightarrow> itable \<Rightarrow> bytes" where
  "snap_enc iter bm ddt tbl = bitmap_marshal bm @ dedup_marshal iter ddt @ itable_enc tbl"

definition snap_len :: "bitmap \<Rightarrow> dedup_table \<Rightarrow> itable \<Rightarrow> nat" where
  "snap_len bm ddt tbl = bitmap_marshal_len bm + dedup_marshal_len ddt + itable_marshal_len tbl"

definition parts_ok :: "bitmap \<Rightarrow> dedup_table \<Rightarrow> itable \<Rightarrow> bool" where
  "parts_ok bm ddt tbl = (bitmap_ok bm \<and> dedup_ok ddt \<and> itable_ok tbl)"

lemma length_snap_enc:
  assumes "is_iter iter" "parts_ok bm ddt tbl"
  shows "length (snap_enc iter bm ddt tbl) = snap_len bm ddt tbl"
  using assms by (simp add: snap_enc_def snap_len_def parts_ok_def length_dedup_marshal)

lemma fill_snapshot_eq:
  assumes "is_iter iter" "parts_ok bm ddt tbl" "snap_len bm ddt tbl \<le> length buf"
  shows "fill_snapshot iter bm ddt tbl buf = snap_enc iter bm ddt tbl @ drop (snap_len bm ddt tbl) buf"
proof -
  let ?a = "bitmap_marshal bm" and ?b = "dedup_marshal iter ddt" and ?c = "itable_enc tbl"
  have ok: "bitmap_ok bm" "dedup_ok ddt" "itable_ok tbl" using assms(2) by (auto simp: parts_ok_def)
  have l: "length ?a = bitmap_marshal_len bm" "length ?b = dedup_marshal_len ddt" "length ?c = itable_marshal_len tbl"
    using ok assms(1) by (simp_all add: length_dedup_marshal)
  have a: "fst (bitmap_marshal_into bm dst) = ?a" if "length dst = bitmap_marshal_len bm" for dst
    using that by (simp add: bitmap_marshal_into_eq bitmap_marshal_eq)
  have b: "fst (dedup_marshal_into iter ddt dst) = ?b" if "length dst = dedup_marshal_len ddt" for dst
    using that ok assms(1) by (simp add: dedup_marshal_into_eq dedup_marshal_eq)
  have c: "snd (itable_marshal_into tbl dst) = ?c" if "length dst = itable_marshal_len tbl" for dst
    using that ok by (simp add: itable_marshal_into_eq)
  let ?fs = "[(0 :: nat, ?a), (length ?a, ?b), (length ?a + length ?b, ?c)]"
  have "fill_snapshot iter bm ddt tbl buf = copy_all ?fs buf"
    using assms(3) l by (simp add: fill_snapshot_def Let_def a b c snap_len_def)
  also have "\<dots> = copy_at 0 (concat (map snd ?fs)) buf"
    using assms(3) l by (intro copy_all_contig) (simp_all add: snap_len_def)
  also have "concat (map snd ?fs) = snap_enc iter bm ddt tbl" by (simp add: snap_enc_def)
  also have "copy_at 0 (snap_enc iter bm ddt tbl) buf = snap_enc iter bm ddt tbl @ drop (snap_len bm ddt tbl) buf"
    using assms length_snap_enc [OF assms(1,2)] by (simp add: copy_at_prefix)
  finally show ?thesis .
qed

text \<open>The blocks of a metadata slot, as one buffer and as part of the device's contents.\<close>

definition meta_bytes :: "(nat \<Rightarrow> bytes) \<Rightarrow> nat \<Rightarrow> nat \<Rightarrow> bytes" where
  "meta_bytes V s n = concat (map (\<lambda>i. V (s + i)) [0..<n])"

definition put_meta :: "nat \<Rightarrow> nat \<Rightarrow> bytes \<Rightarrow> (nat \<Rightarrow> bytes) \<Rightarrow> nat \<Rightarrow> bytes" where
  "put_meta s n buf V = (\<lambda>m. if s \<le> m \<and> m < s + n then slice ((m - s) * SIZE) ((m - s) * SIZE + SIZE) buf else V m)"

lemma put_meta_0 [simp]: "put_meta s 0 buf V = V"
  by (rule ext) (auto simp: put_meta_def)

lemma put_meta_snoc:
  "put_meta s (Suc n) buf V = (put_meta s n buf V)(s + n := slice (n * SIZE) (n * SIZE + SIZE) buf)"
  by (rule ext) (auto simp: put_meta_def)

lemma meta_bytes_cong: "(\<And>i. i < n \<Longrightarrow> V (s + i) = V' (s + i)) \<Longrightarrow> meta_bytes V s n = meta_bytes V' s n"
  unfolding meta_bytes_def by (intro arg_cong [of _ _ concat] map_cong) auto

lemma meta_bytes_put:
  "n * SIZE \<le> length buf \<Longrightarrow> meta_bytes (put_meta s n buf V) s n = take (n * SIZE) buf"
proof (induction n)
  case 0
  then show ?case by (simp add: meta_bytes_def)
next
  case (Suc n)
  have "meta_bytes (put_meta s (Suc n) buf V) s n = meta_bytes (put_meta s n buf V) s n"
    by (intro meta_bytes_cong) (simp add: put_meta_def)
  then have "meta_bytes (put_meta s (Suc n) buf V) s (Suc n) = take (n * SIZE) buf @ slice (n * SIZE) (n * SIZE + SIZE) buf"
    using Suc by (simp add: meta_bytes_def put_meta_def)
  then show ?case by (simp add: slice_def take_add [symmetric] add.commute)
qed

lemma length_meta_bytes:
  assumes "\<And>i. i < n \<Longrightarrow> length (V (s + i)) = SIZE"
  shows "length (meta_bytes V s n) = n * SIZE"
  unfolding meta_bytes_def using assms length_concat_chunks [of "[0..<n]" "\<lambda>i. V (s + i)" SIZE] by simp

text \<open>What an uberblock's metadata slot decodes to.\<close>

definition loads :: "(nat \<Rightarrow> bytes) \<Rightarrow> uberblock \<Rightarrow> mounted \<Rightarrow> bool" where
  "loads V ub st = (load_meta ub (meta_bytes V (unat (meta_start ub)) (unat (ub_meta_blocks ub))) = Ok st)"

lemma load_meta_snap:
  assumes "is_iter iter" "parts_ok bm ddt tbl" "snap_len bm ddt tbl < 2 ^ 32" "itable_cap tbl = ub_inode_count ub"
    and "ub_bitmap_len ub = of_nat (bitmap_marshal_len bm)" "ub_ddt_len ub = of_nat (dedup_marshal_len ddt)"
      "ub_inode_len ub = of_nat (itable_marshal_len tbl)"
  shows "load_meta ub (snap_enc iter bm ddt tbl @ rest) = Ok (ub, bm\<lparr>bm_deferred := []\<rparr>, iter ddt, tbl)"
proof -
  let ?buf = "snap_enc iter bm ddt tbl @ rest"
  let ?x = "bitmap_marshal_len bm" and ?y = "dedup_marshal_len ddt" and ?z = "itable_marshal_len tbl"
  have ok: "bitmap_ok bm" "dedup_ok ddt" "itable_ok tbl" using assms(2) by (auto simp: parts_ok_def)
  have l: "length (dedup_marshal iter ddt) = ?y" using ok assms(1) by (simp add: length_dedup_marshal)
  have n: "unat (ub_bitmap_len ub) = ?x" "unat (ub_ddt_len ub) = ?y" "unat (ub_inode_len ub) = ?z"
    using assms(3,5-7) by (auto simp: snap_len_def intro!: unat_of_nat_small)
  have s: "slice 0 ?x ?buf = bitmap_marshal bm" "slice ?x (?x + ?y) ?buf = dedup_marshal iter ddt"
    "slice (?x + ?y) (?x + ?y + ?z) ?buf = itable_enc tbl"
    using ok l by (simp_all add: snap_enc_def)
  have "?x + ?y + ?z \<le> length ?buf" using length_snap_enc [OF assms(1,2)] by (simp add: snap_len_def)
  moreover have "length ddt < 2 ^ 64" using assms(3) by (simp add: snap_len_def dedup_marshal_len_def REC_SIZE_def)
  ultimately show ?thesis
    using ok assms(1,4) bitmap_unmarshal_marshal [OF ok(1), of "[]"] dedup_unmarshal_marshal [OF ok(2) assms(1), of "[]"]
      unmarshal_table_enc [OF ok(3)]
    by (simp add: load_meta_def Let_def n s)
qed

section \<open>Geometry and committed states\<close>

abbreviation mblocks :: "uberblock \<Rightarrow> nat" where
  "mblocks ub \<equiv> unat (ub_meta_blocks ub)"

text \<open>The layout \<open>format\<close> computes, on a device of \<open>B\<close> blocks: the uberblocks, metadata slot A,
  metadata slot B, then data.  The metadata slots are below 4 GiB, so that the three lengths fit
  their fields.\<close>

definition geom :: "uberblock \<Rightarrow> nat \<Rightarrow> bool" where
  "geom ub B = (ub_magic ub = UBER_MAGIC \<and> (ub_active_meta ub = 0 \<or> ub_active_meta ub = 1) \<and> unat (ub_meta_a ub) = 2 \<and>
     unat (ub_meta_b ub) = 2 + mblocks ub \<and> unat (ub_data_start ub) = 2 + 2 * mblocks ub \<and>
     unat (ub_data_start ub) < B \<and> B < 2 ^ 64 \<and> mblocks ub * SIZE < 2 ^ 32)"

definition uslot :: "uberblock \<Rightarrow> nat" where
  "uslot ub = unat (ub_seq ub mod 2)"

definition meta_slot :: "uberblock \<Rightarrow> nat set" where
  "meta_slot ub = {unat (meta_start ub) ..< unat (meta_start ub) + mblocks ub}"

text \<open>\<open>ub\<close> is the commit root of the contents \<open>V\<close>: its slot holds it, and the other slot
  holds nothing valid or an older one.\<close>

definition best_uber :: "crypto \<Rightarrow> (nat \<Rightarrow> bytes) \<Rightarrow> uberblock \<Rightarrow> bool" where
  "best_uber C V ub = (parse_uber C (V (uslot ub)) = Ok ub \<and>
     (\<forall>u. parse_uber C (V (1 - uslot ub)) = Ok u \<longrightarrow> ub_seq u < ub_seq ub))"

definition committed :: "crypto \<Rightarrow> (nat \<Rightarrow> bytes) \<Rightarrow> nat \<Rightarrow> mounted \<Rightarrow> bool" where
  "committed C V B st = (geom (fst st) B \<and> best_uber C V (fst st) \<and> loads V (fst st) st)"

lemma uslot_cases: "uslot ub = 0 \<or> uslot ub = 1"
  unfolding uslot_def by (simp add: unat_mod) linarith

lemma meta_slot_range:
  assumes "geom ub B"
  shows "2 \<le> unat (meta_start ub)" "unat (meta_start ub) + mblocks ub \<le> unat (ub_data_start ub)"
    "unat (meta_start ub) + mblocks ub \<le> B" "unat (ub_meta_blocks ub * BLK) = mblocks ub * SIZE"
proof -
  show "2 \<le> unat (meta_start ub)" "unat (meta_start ub) + mblocks ub \<le> unat (ub_data_start ub)"
    "unat (meta_start ub) + mblocks ub \<le> B"
    using assms by (auto simp: geom_def meta_start_def)
  have "mblocks ub * SIZE < 2 ^ 64" using assms by (simp add: geom_def)
  then show "unat (ub_meta_blocks ub * BLK) = mblocks ub * SIZE" by (simp add: unat_word_ariths)
qed

lemma write_meta_append:
  "write_meta dv start is buf d = (Ok (), d') \<Longrightarrow> write_meta dv start (is @ js) buf d = write_meta dv start js buf d'"
  by (induction "is" arbitrary: d) (auto simp: Let_def split: if_splits prod.splits res.splits)

lemma take_copy_at: "off + length b \<le> length d \<Longrightarrow> take (off + length b) (copy_at off b d) = take off d @ b"
  by (simp add: copy_at_def)

context block_device begin

lemma block_addr:
  assumes "dev_ok d" "unat start + n \<le> unat (blocks dv d)" "i < n"
  shows "unat (start + of_nat i) = unat start + i" "start + of_nat i < blocks dv d"
proof -
  show "unat (start + of_nat i) = unat start + i"
    using blocks_bound [of d] assms by (intro unat_add_index) linarith
  then show "start + of_nat i < blocks dv d" using assms by (simp add: word_less_nat_alt)
qed

lemma write_meta_eq:
  assumes "dev_ok d" "unat start + n \<le> unat (blocks dv d)" "n * SIZE \<le> length buf" "j \<le> n"
  shows "\<exists>d'. write_meta dv start [0..<j] buf d = (Ok (), d') \<and> dev_ok d' \<and> blocks dv d' = blocks dv d \<and>
    view d' = put_meta (unat start) j buf (view d)"
  using assms(4)
proof (induction j)
  case 0
  then show ?case using assms(1) by simp
next
  case (Suc j)
  then obtain d1 where d1: "write_meta dv start [0..<j] buf d = (Ok (), d1)" "dev_ok d1" "blocks dv d1 = blocks dv d"
      "view d1 = put_meta (unat start) j buf (view d)" by auto
  have fit: "j * SIZE + SIZE \<le> length buf" using block_end [of j n] Suc.prems assms(3) by simp
  have bl: "unat start + n \<le> unat (blocks dv d1)" using d1(3) assms(2) by simp
  note ba = block_addr [OF d1(2) bl, of j]
  obtain d2 where d2: "write_block dv d1 (start + of_nat j) (slice (j * SIZE) (j * SIZE + SIZE) buf) = (Ok (), d2)" "dev_ok d2"
      "blocks dv d2 = blocks dv d1" "view d2 = (view d1)(unat (start + of_nat j) := slice (j * SIZE) (j * SIZE + SIZE) buf)"
    using write_in [OF d1(2), of "start + of_nat j" "slice (j * SIZE) (j * SIZE + SIZE) buf"] ba Suc.prems fit by auto
  have "write_meta dv start ([0..<j] @ [j]) buf d = (Ok (), d2)"
    using write_meta_append [OF d1(1), of "[j]"] d2(1) fit by (simp add: Let_def)
  then show ?case using d2 d1 ba Suc.prems by (auto simp: put_meta_snoc)
qed

lemma read_meta_eq:
  assumes "dev_ok d" "unat start + n \<le> unat (blocks dv d)"
  shows "j \<le> n \<Longrightarrow> length buf = n * SIZE \<Longrightarrow> take (j * SIZE) buf = meta_bytes (view d) (unat start) j \<Longrightarrow>
    read_meta dv d start [j..<n] buf = Ok (meta_bytes (view d) (unat start) n)"
proof (induction "n - j" arbitrary: j buf)
  case 0
  then show ?case by simp
next
  case (Suc k)
  then have j: "j < n" by simp
  note ba = block_addr [OF assms j]
  let ?b = "view d (unat start + j)"
  have rd: "read_block dv d (start + of_nat j) = Ok ?b" using read_in [OF assms(1) ba(2)] ba(1) by simp
  have lb: "length ?b = SIZE" using view_length [OF assms(1), of "unat start + j"] assms(2) j by simp
  have fit: "j * SIZE + SIZE \<le> length buf" using block_end [OF j] Suc.prems(2) by simp
  have "take (Suc j * SIZE) (copy_at (j * SIZE) ?b buf) = meta_bytes (view d) (unat start) (Suc j)"
    using Suc.prems(3) take_copy_at [of "j * SIZE" ?b buf] fit lb by (simp add: meta_bytes_def add.commute)
  then have "read_meta dv d start [Suc j..<n] (copy_at (j * SIZE) ?b buf) = Ok (meta_bytes (view d) (unat start) n)"
    using Suc.hyps(2) Suc.prems(2) fit lb by (intro Suc.hyps(1)) auto
  then show ?case using rd lb fit j by (simp add: upt_conv_Cons Let_def)
qed

text \<open>Mounting a committed image gives the committed state.\<close>

lemma mount_committed:
  assumes "dev_ok d" "committed C (view d) (unat (blocks dv d)) st"
  shows "cow_mount C dv d = Ok st"
proof -
  let ?ub = "fst st" and ?V = "view d"
  have g: "geom ?ub (unat (blocks dv d))" and bu: "best_uber C ?V ?ub" and ld: "loads ?V ?ub st"
    using assms(2) by (auto simp: committed_def)
  note mr = meta_slot_range [OF g]
  have "2 \<le> unat (blocks dv d)" using g by (simp add: geom_def)
  then have rd: "read_block dv d 0 = Ok (?V 0)" "read_block dv d 1 = Ok (?V 1)"
    using read_in [OF assms(1), of 0] read_in [OF assms(1), of 1] by (simp_all add: word_less_nat_alt)
  have "scan_ubers C dv d [UBER_SLOT0, UBER_SLOT1] None = Ok (Some ?ub)"
    using uslot_cases [of ?ub] bu
    by (auto simp: UBER_SLOT0_def UBER_SLOT1_def rd best_uber_def split: res.splits)
  moreover have "read_meta dv d (meta_start ?ub) [0..<mblocks ?ub] (replicate (mblocks ?ub * SIZE) 0) =
      Ok (meta_bytes ?V (unat (meta_start ?ub)) (mblocks ?ub))"
    using mr(3) by (intro read_meta_eq [OF assms(1)]) (auto simp: meta_bytes_def)
  ultimately show ?thesis using ld mr(4) by (simp add: cow_mount_def loads_def)
qed

end

section \<open>Committing\<close>

text \<open>The uberblock a commit writes.\<close>

definition next_uber :: "uberblock \<Rightarrow> bitmap \<Rightarrow> dedup_table \<Rightarrow> itable \<Rightarrow> u64 \<Rightarrow> u64 \<Rightarrow> uberblock" where
  "next_uber prev bm ddt tbl root_inode next_inode =
     prev\<lparr>ub_seq := ub_seq prev + 1, ub_active_meta := 1 - ub_active_meta prev, ub_root_inode := root_inode,
       ub_next_inode := next_inode, ub_bitmap_len := of_nat (bitmap_marshal_len bm),
       ub_ddt_len := of_nat (dedup_marshal_len ddt), ub_inode_len := of_nat (itable_marshal_len tbl)\<rparr>"

lemma next_uber_geom:
  assumes "geom prev B" "nx = next_uber prev bm ddt tbl ri ni"
  shows "geom nx B" "mblocks nx = mblocks prev" "meta_slot nx \<inter> meta_slot prev = {}"
  using assms by (auto simp: geom_def next_uber_def meta_slot_def meta_start_def)

lemma next_uber_slot:
  assumes "nx = next_uber prev bm ddt tbl ri ni"
  shows "uslot nx = 1 - uslot prev"
proof -
  have "unat (ub_seq prev + 1) mod 2 = (unat (ub_seq prev) + 1) mod 2"
    using mod_mod_cancel [of 2 "2 ^ 64" "unat (ub_seq prev) + 1"] by (simp add: unat_word_ariths)
  then have "unat (ub_seq prev + 1) mod 2 = 1 - unat (ub_seq prev) mod 2" by (simp add: mod_Suc)
  then show ?thesis unfolding uslot_def assms next_uber_def by (simp add: unat_mod)
qed

text \<open>The buffer \<open>write_snapshot\<close> writes, whatever the scratch buffer.\<close>

definition snap_buf ::
  "(dedup_table \<Rightarrow> dedup_table) \<Rightarrow> nat \<Rightarrow> bitmap \<Rightarrow> dedup_table \<Rightarrow> itable \<Rightarrow> bytes option \<Rightarrow> bytes" where
  "snap_buf iter need bm ddt tbl scratch = fill_snapshot iter bm ddt tbl
     (case scratch of Some s \<Rightarrow> if length s \<ge> need then s else replicate need 0 | None \<Rightarrow> replicate need 0)"

lemma snap_buf_eq:
  assumes "is_iter iter" "parts_ok bm ddt tbl" "snap_len bm ddt tbl \<le> need"
  obtains rest where "snap_buf iter need bm ddt tbl scratch = snap_enc iter bm ddt tbl @ rest"
    "need \<le> length (snap_buf iter need bm ddt tbl scratch)"
proof -
  let ?s = "case scratch of Some s \<Rightarrow> if length s \<ge> need then s else replicate need 0 | None \<Rightarrow> replicate need 0"
  have "need \<le> length ?s" by (simp split: option.split)
  then show thesis
    using that fill_snapshot_eq [OF assms(1,2), of ?s] assms(3) length_snap_enc [OF assms(1,2)] by (simp add: snap_buf_def)
qed

definition scratch_after ::
  "(dedup_table \<Rightarrow> dedup_table) \<Rightarrow> nat \<Rightarrow> bitmap \<Rightarrow> dedup_table \<Rightarrow> itable \<Rightarrow> bytes option \<Rightarrow> bytes option" where
  "scratch_after iter need bm ddt tbl scratch =
     (case scratch of Some s \<Rightarrow> if length s \<ge> need then Some (fill_snapshot iter bm ddt tbl s) else scratch | None \<Rightarrow> None)"

lemma write_snapshot_eq:
  assumes "need = unat (ub_meta_blocks ub * BLK)"
  shows "write_snapshot iter dv ub bm ddt tbl scratch d =
    (if snap_len bm ddt tbl > need then (Err MetaTooBig, d, ub, scratch)
     else case st_bind (write_meta dv (meta_start ub) [0..<mblocks ub] (snap_buf iter need bm ddt tbl scratch))
                (\<lambda>_. cow_sync dv) d of
            (r, d') \<Rightarrow> (r, d', ub\<lparr>ub_bitmap_len := of_nat (bitmap_marshal_len bm),
                ub_ddt_len := of_nat (dedup_marshal_len ddt), ub_inode_len := of_nat (itable_marshal_len tbl)\<rparr>,
              scratch_after iter need bm ddt tbl scratch))"
  unfolding write_snapshot_def assms snap_len_def
  by (simp add: Let_def snap_buf_def scratch_after_def meta_start_def split: option.split)

text \<open>A commit in closed form: the metadata blocks, a flush, the uberblock, a flush.\<close>

lemma cow_commit_eq:
  assumes nx: "nx = next_uber prev bm ddt tbl ri ni" and need: "need = unat (ub_meta_blocks prev * BLK)"
  shows "cow_commit C iter dv prev bm ddt tbl ri ni scratch d =
    (if snap_len bm ddt tbl > need then (Err MetaTooBig, d, bm, scratch)
     else case st_bind (write_meta dv (meta_start nx) [0..<mblocks nx] (snap_buf iter need bm ddt tbl scratch))
                (\<lambda>_. cow_sync dv) d of
            (Ok u, d') \<Rightarrow>
              (case write_uber C dv nx d' of
                 (r, d'') \<Rightarrow> (res_bind r (\<lambda>_. Ok nx), d'', if is_ok r then apply_deferred bm else bm,
                               scratch_after iter need bm ddt tbl scratch))
          | (Err e, d') \<Rightarrow> (Err e, d', bm, scratch_after iter need bm ddt tbl scratch)
          | (Panic, d') \<Rightarrow> (Panic, d', bm, scratch_after iter need bm ddt tbl scratch))"
proof -
  let ?n = "prev\<lparr>ub_seq := ub_seq prev + 1, ub_active_meta := 1 - ub_active_meta prev, ub_root_inode := ri, ub_next_inode := ni\<rparr>"
  have n: "need = unat (ub_meta_blocks ?n * BLK)" "meta_start ?n = meta_start nx" "mblocks ?n = mblocks nx"
    "?n\<lparr>ub_bitmap_len := of_nat (bitmap_marshal_len bm), ub_ddt_len := of_nat (dedup_marshal_len ddt),
        ub_inode_len := of_nat (itable_marshal_len tbl)\<rparr> = nx"
    by (simp_all add: nx need next_uber_def meta_start_def)
  show ?thesis
  proof (cases "need < snap_len bm ddt tbl")
    case True
    then show ?thesis by (simp add: cow_commit_def Let_def write_snapshot_eq [OF n(1)])
  next
    case False
    obtain r d1 where w: "st_bind (write_meta dv (meta_start nx) [0..<mblocks nx] (snap_buf iter need bm ddt tbl scratch))
        (\<lambda>_. cow_sync dv) d = (r, d1)" by fastforce
    then have ws: "write_snapshot iter dv ?n bm ddt tbl scratch d = (r, d1, nx, scratch_after iter need bm ddt tbl scratch)"
      unfolding write_snapshot_eq [OF n(1)] n(2-4) w using False by simp
    obtain r' d2 where u: "write_uber C dv nx d1 = (r', d2)" by fastforce
    show ?thesis
      unfolding cow_commit_def Let_def ws w using False u by (cases r; cases r') simp_all
  qed
qed

text \<open>A snapshot that does not fit its slot is refused before anything is written.\<close>

lemma cow_commit_too_big:
  "unat (ub_meta_blocks prev * BLK) < snap_len bm ddt tbl \<Longrightarrow>
   cow_commit C iter dv prev bm ddt tbl ri ni scratch d = (Err MetaTooBig, d, bm, scratch)"
  by (simp add: cow_commit_eq [OF refl refl])

context block_device begin

lemma write_uber_eq:
  assumes "crypto_ok C" "dev_ok d" "2 \<le> unat (blocks dv d)"
  shows "\<exists>d'. write_uber C dv ub d = (Ok (), d') \<and> dev_ok d' \<and> blocks dv d' = blocks dv d \<and>
    view d' = (view d)(uslot ub := uber_marshal C ub)"
proof -
  have "ub_seq ub mod 2 < blocks dv d"
    using assms(3) uslot_cases [of ub] by (auto simp: word_less_nat_alt uslot_def)
  from write_in [OF assms(2) this length_uber_marshal [OF assms(1)]]
  obtain d1 where d1: "write_block dv d (ub_seq ub mod 2) (uber_marshal C ub) = (Ok (), d1)" "dev_ok d1"
      "blocks dv d1 = blocks dv d" "view d1 = (view d)(unat (ub_seq ub mod 2) := uber_marshal C ub)" by blast
  with sync_in [OF d1(2)] show ?thesis by (auto simp: write_uber_def cow_sync_def uslot_def)
qed

lemma commit_view:
  assumes C: "crypto_ok C" and it: "is_iter iter" and ok: "dev_ok d" and g: "geom prev (unat (blocks dv d))"
    and po: "parts_ok bm ddt tbl" and fit: "snap_len bm ddt tbl \<le> mblocks prev * SIZE"
    and nx: "nx = next_uber prev bm ddt tbl ri ni" and buf: "buf = snap_buf iter (mblocks prev * SIZE) bm ddt tbl scratch"
  shows "\<exists>d' s'. cow_commit C iter dv prev bm ddt tbl ri ni scratch d = (Ok nx, d', apply_deferred bm, s') \<and>
    dev_ok d' \<and> blocks dv d' = blocks dv d \<and>
    view d' = (put_meta (unat (meta_start nx)) (mblocks prev) buf (view d))(uslot nx := uber_marshal C nx)"
proof -
  note ng = next_uber_geom [OF g nx]
  have need: "unat (ub_meta_blocks prev * BLK) = mblocks prev * SIZE" by (rule meta_slot_range(4) [OF g])
  have "mblocks nx * SIZE \<le> length buf"
    using snap_buf_eq [OF it po fit, of scratch] ng(2) buf by metis
  then obtain d1 where d1: "write_meta dv (meta_start nx) [0..<mblocks nx] buf d = (Ok (), d1)" "dev_ok d1"
      "blocks dv d1 = blocks dv d" "view d1 = put_meta (unat (meta_start nx)) (mblocks nx) buf (view d)"
    using write_meta_eq [OF ok meta_slot_range(3) [OF ng(1)], of buf "mblocks nx"] by blast
  obtain d2 where d2: "sync dv d1 = (Ok (), d2)" "dev_ok d2" "blocks dv d2 = blocks dv d1" "view d2 = view d1"
    using sync_in [OF d1(2)] by blast
  have "2 \<le> unat (blocks dv d2)" using g d1(3) d2(3) by (simp add: geom_def)
  then obtain d3 where d3: "write_uber C dv nx d2 = (Ok (), d3)" "dev_ok d3" "blocks dv d3 = blocks dv d2"
      "view d3 = (view d2)(uslot nx := uber_marshal C nx)"
    using write_uber_eq [OF C d2(2)] by blast
  have "cow_commit C iter dv prev bm ddt tbl ri ni scratch d =
      (Ok nx, d3, apply_deferred bm, scratch_after iter (mblocks prev * SIZE) bm ddt tbl scratch)"
    using d1(1) d2(1) d3(1) fit
    by (simp add: cow_commit_eq [OF nx refl] need cow_sync_def buf [symmetric])
  then show ?thesis using d1 d2 d3 ng(2) by simp
qed

end

text \<open>Contents whose metadata slot and uberblock slot were written are a committed state.\<close>

lemma committed_snap:
  assumes it: "is_iter iter" and g: "geom nx B" and po: "parts_ok bm ddt tbl" and cap: "itable_cap tbl = ub_inode_count nx"
    and fit: "snap_len bm ddt tbl \<le> mblocks nx * SIZE"
    and lens: "ub_bitmap_len nx = of_nat (bitmap_marshal_len bm)" "ub_ddt_len nx = of_nat (dedup_marshal_len ddt)"
      "ub_inode_len nx = of_nat (itable_marshal_len tbl)"
    and buf: "buf = snap_buf iter (mblocks nx * SIZE) bm ddt tbl scratch"
    and V': "V' = (put_meta (unat (meta_start nx)) (mblocks nx) buf V)(uslot nx := x)" and x: "parse_uber C x = Ok nx"
    and other: "\<forall>u. parse_uber C (V (1 - uslot nx)) = Ok u \<longrightarrow> ub_seq u < ub_seq nx"
  shows "committed C V' B (nx, bm\<lparr>bm_deferred := []\<rparr>, iter ddt, tbl)"
proof -
  note mr = meta_slot_range [OF g]
  obtain rest where rest: "buf = snap_enc iter bm ddt tbl @ rest" and lb: "mblocks nx * SIZE \<le> length buf"
    using snap_buf_eq [OF it po fit, of scratch] buf by metis
  have "meta_bytes V' (unat (meta_start nx)) (mblocks nx) =
      meta_bytes (put_meta (unat (meta_start nx)) (mblocks nx) buf V) (unat (meta_start nx)) (mblocks nx)"
    using mr(1) uslot_cases [of nx] by (intro meta_bytes_cong) (auto simp: V')
  also have "\<dots> = take (mblocks nx * SIZE) buf" by (rule meta_bytes_put [OF lb])
  also have "\<dots> = snap_enc iter bm ddt tbl @ take (mblocks nx * SIZE - snap_len bm ddt tbl) rest"
    using fit length_snap_enc [OF it po] by (simp add: rest)
  finally have mb: "meta_bytes V' (unat (meta_start nx)) (mblocks nx) =
      snap_enc iter bm ddt tbl @ take (mblocks nx * SIZE - snap_len bm ddt tbl) rest" .
  have "snap_len bm ddt tbl < 2 ^ 32" using fit g by (simp add: geom_def)
  from load_meta_snap [OF it po this cap lens] have "loads V' nx (nx, bm\<lparr>bm_deferred := []\<rparr>, iter ddt, tbl)"
    unfolding loads_def mb .
  moreover have "parse_uber C (V' (uslot nx)) = Ok nx" using x by (simp add: V')
  moreover have "V' (1 - uslot nx) = V (1 - uslot nx)"
    using mr(1) uslot_cases [of nx] by (auto simp: V' put_meta_def)
  ultimately show ?thesis using g other by (simp add: committed_def best_uber_def)
qed

lemma committed_next:
  assumes it: "is_iter iter" and g: "geom prev B" and bu: "best_uber C V prev"
    and seq: "unat (ub_seq prev) + 1 < 2 ^ 64" and po: "parts_ok bm ddt tbl" and cap: "itable_cap tbl = ub_inode_count prev"
    and fit: "snap_len bm ddt tbl \<le> mblocks prev * SIZE"
    and nx: "nx = next_uber prev bm ddt tbl ri ni" and buf: "buf = snap_buf iter (mblocks prev * SIZE) bm ddt tbl scratch"
    and V': "V' = (put_meta (unat (meta_start nx)) (mblocks prev) buf V)(uslot nx := x)" and x: "parse_uber C x = Ok nx"
  shows "committed C V' B (nx, bm\<lparr>bm_deferred := []\<rparr>, iter ddt, tbl)"
proof -
  note ng = next_uber_geom [OF g nx]
  have "ub_seq prev < ub_seq nx"
    using seq unat_add_small [of "ub_seq prev" 1] by (simp add: word_less_nat_alt nx next_uber_def)
  moreover have "1 - uslot nx = uslot prev" using uslot_cases [of prev] by (auto simp: next_uber_slot [OF nx])
  ultimately have other: "\<forall>u. parse_uber C (V (1 - uslot nx)) = Ok u \<longrightarrow> ub_seq u < ub_seq nx"
    using bu by (simp add: best_uber_def)
  have lens: "ub_bitmap_len nx = of_nat (bitmap_marshal_len bm)" "ub_ddt_len nx = of_nat (dedup_marshal_len ddt)"
    "ub_inode_len nx = of_nat (itable_marshal_len tbl)" "itable_cap tbl = ub_inode_count nx"
    using cap by (simp_all add: nx next_uber_def)
  note e = ng(2) [symmetric]
  show ?thesis
    by (rule committed_snap [OF it ng(1) po lens(4) fit [unfolded e] lens(1-3) buf [unfolded e] V' [unfolded e] x other])
qed

section \<open>Formatting\<close>

abbreviation fmt_inodes :: "u64 \<Rightarrow> u64" where
  "fmt_inodes inode_count \<equiv> if inode_count = 0 then of_nat PER_BLOCK else inode_count"

definition fmt_blocks :: "u64 \<Rightarrow> u64 \<Rightarrow> u64 \<Rightarrow> u64" where
  "fmt_blocks tot inode_count ddt_reserve =
     div_ceil (64 + (8 + div_ceil tot 8) + ddt_reserve + fmt_inodes inode_count * of_nat INODE_SIZE) BLK"

text \<open>The metadata of the new image is below 4 GiB.\<close>

definition fmt_fits :: "u64 \<Rightarrow> u64 \<Rightarrow> u64 \<Rightarrow> bool" where
  "fmt_fits tot inode_count ddt_reserve =
     (unat tot div 8 + unat ddt_reserve + unat (fmt_inodes inode_count) * INODE_SIZE + 2 * SIZE < 2 ^ 32)"

lemma fmt_blocks_bounds:
  assumes "fmt_fits tot ic dr" "mb = unat (fmt_blocks tot ic dr)"
  shows "64 + 8 + unat tot div 8 + unat dr + unat (fmt_inodes ic) * INODE_SIZE \<le> mb * SIZE" "mb * SIZE < 2 ^ 32"
proof -
  let ?i = "fmt_inodes ic"
  let ?s = "64 + (8 + div_ceil tot 8) + dr + ?i * of_nat INODE_SIZE"
  have d8: "unat tot div 8 \<le> unat (div_ceil tot 8)" "unat (div_ceil tot 8) \<le> unat tot div 8 + 1"
    by (subst unat_div_ceil, simp_all)+
  have lim: "unat tot div 8 + unat dr + unat ?i * INODE_SIZE + 2 * SIZE < 2 ^ 32" using assms(1) by (simp only: fmt_fits_def)
  have a: "unat (?i * of_nat INODE_SIZE) = unat ?i * INODE_SIZE"
    using lim by (subst unat_word_ariths) (simp add: INODE_SIZE_def SIZE_def split del: if_split)
  have b: "unat (8 + div_ceil tot 8) = 8 + unat (div_ceil tot 8)"
    using lim d8 by (subst unat_add_small) (auto simp: SIZE_def split del: if_split)
  have c: "unat (64 + (8 + div_ceil tot 8)) = 72 + unat (div_ceil tot 8)"
    using lim b d8 by (subst unat_add_small) (auto simp: SIZE_def split del: if_split)
  have d: "unat (64 + (8 + div_ceil tot 8) + dr) = 72 + unat (div_ceil tot 8) + unat dr"
    using lim c d8 by (subst unat_add_small) (auto simp: SIZE_def split del: if_split)
  have e: "unat ?s = 72 + unat (div_ceil tot 8) + unat dr + unat ?i * INODE_SIZE"
    using lim d d8 a by (subst unat_add_small) (auto simp: SIZE_def split del: if_split)
  have blk: "1 < unat BLK" by (simp add: SIZE_def)
  note db = div_ceil_bounds [OF blk, of ?s]
  show "64 + 8 + unat tot div 8 + unat dr + unat ?i * INODE_SIZE \<le> mb * SIZE"
    using db(1) d8 unfolding assms(2) fmt_blocks_def e unat_BLK by linarith
  show "mb * SIZE < 2 ^ 32"
    using db(2) d8 lim unfolding assms(2) fmt_blocks_def e unat_BLK by (simp add: SIZE_def split del: if_split)
qed

definition fmt_bitmap :: "u64 \<Rightarrow> u64 \<Rightarrow> u64 \<Rightarrow> bitmap" where
  "fmt_bitmap tot ic dr = bitmap_reserve 0 (2 + fmt_blocks tot ic dr + fmt_blocks tot ic dr) (bitmap_new tot)"

definition fmt_uber :: "u64 \<Rightarrow> u64 \<Rightarrow> u64 \<Rightarrow> uberblock" where
  "fmt_uber tot ic dr = \<lparr>ub_magic = UBER_MAGIC, ub_seq = 1, ub_block_size = of_nat SIZE, ub_active_meta = 0,
     ub_total_blocks = tot, ub_meta_a = 2, ub_meta_b = 2 + fmt_blocks tot ic dr, ub_meta_blocks = fmt_blocks tot ic dr,
     ub_inode_count = fmt_inodes ic, ub_data_start = 2 + fmt_blocks tot ic dr + fmt_blocks tot ic dr,
     ub_root_inode = 0, ub_next_inode = 1, ub_bitmap_len = of_nat (bitmap_marshal_len (fmt_bitmap tot ic dr)),
     ub_ddt_len = of_nat (dedup_marshal_len dedup_new), ub_inode_len = of_nat (itable_marshal_len (itable_new (fmt_inodes ic)))\<rparr>"

lemma fmt_data_start:
  assumes "fmt_fits tot ic dr"
  shows "unat (ub_data_start (fmt_uber tot ic dr)) = 2 + 2 * unat (fmt_blocks tot ic dr)"
proof -
  have mb: "unat (fmt_blocks tot ic dr) < 2 ^ 32"
    using fmt_blocks_bounds(2) [OF assms refl] by (simp add: SIZE_def)
  then have "unat (2 + fmt_blocks tot ic dr) = 2 + unat (fmt_blocks tot ic dr)" by (subst unat_add_small) auto
  then have "unat (2 + fmt_blocks tot ic dr + fmt_blocks tot ic dr) = 2 + 2 * unat (fmt_blocks tot ic dr)"
    using mb by (subst unat_add_small) auto
  then show ?thesis by (simp add: fmt_uber_def)
qed

lemma fmt_geom:
  assumes "fmt_fits tot ic dr" "2 + 2 * unat (fmt_blocks tot ic dr) < unat tot"
  shows "geom (fmt_uber tot ic dr) (unat tot)" "uslot (fmt_uber tot ic dr) = 1" "meta_start (fmt_uber tot ic dr) = 2"
    "unat (2 + fmt_blocks tot ic dr + fmt_blocks tot ic dr) = 2 + 2 * unat (fmt_blocks tot ic dr)"
proof -
  have mb: "unat (fmt_blocks tot ic dr) < 2 ^ 32"
    using fmt_blocks_bounds(2) [OF assms(1) refl] by (simp add: SIZE_def)
  have b: "unat (2 + fmt_blocks tot ic dr) = 2 + unat (fmt_blocks tot ic dr)"
    using mb by (subst unat_add_small) auto
  then show ds: "unat (2 + fmt_blocks tot ic dr + fmt_blocks tot ic dr) = 2 + 2 * unat (fmt_blocks tot ic dr)"
    using mb by (subst unat_add_small) auto
  show "geom (fmt_uber tot ic dr) (unat tot)"
    using b ds assms(2) fmt_blocks_bounds(2) [OF assms(1) refl] unsigned_less [of tot, where ?'a = nat]
    by (simp add: geom_def fmt_uber_def)
  show "uslot (fmt_uber tot ic dr) = 1" "meta_start (fmt_uber tot ic dr) = 2"
    by (simp_all add: uslot_def fmt_uber_def meta_start_def unat_mod)
qed

lemma fmt_parts:
  assumes "fmt_fits tot ic dr" "2 + 2 * unat (fmt_blocks tot ic dr) < unat tot"
  shows "parts_ok (fmt_bitmap tot ic dr) dedup_new (itable_new (fmt_inodes ic))"
    "used_set (fmt_bitmap tot ic dr) = {0 ..< 2 + 2 * unat (fmt_blocks tot ic dr)}"
    "snap_len (fmt_bitmap tot ic dr) dedup_new (itable_new (fmt_inodes ic)) \<le> unat (fmt_blocks tot ic dr) * SIZE"
    "bm_deferred (fmt_bitmap tot ic dr) = []" "bm_total (fmt_bitmap tot ic dr) = tot"
proof -
  note rs = bitmap_reserve_spec [OF bitmap_new_ok(1) [of tot], of 0 "2 + fmt_blocks tot ic dr + fmt_blocks tot ic dr"]
  show po: "parts_ok (fmt_bitmap tot ic dr) dedup_new (itable_new (fmt_inodes ic))"
    using rs(1) itable_new_ok [of "fmt_inodes ic"] by (simp add: parts_ok_def fmt_bitmap_def)
  show "used_set (fmt_bitmap tot ic dr) = {0 ..< 2 + 2 * unat (fmt_blocks tot ic dr)}"
    using rs(2) fmt_geom(4) [OF assms] assms(2) by (auto simp: fmt_bitmap_def run_set_def)
  show tt: "bm_deferred (fmt_bitmap tot ic dr) = []" "bm_total (fmt_bitmap tot ic dr) = tot"
    using rs(3) by (auto simp: fmt_bitmap_def same_frame_def)
  have "length (bm_bits (fmt_bitmap tot ic dr)) = unat (div_ceil tot 64)"
    using po tt by (simp add: parts_ok_def bitmap_ok_def)
  also have "\<dots> \<le> unat tot div 64 + 1" by (subst unat_div_ceil) simp_all
  finally have "bitmap_marshal_len (fmt_bitmap tot ic dr) \<le> 16 + unat tot div 8" by (simp add: bitmap_marshal_len_def)
  moreover have "dedup_marshal_len dedup_new = 8" "itable_marshal_len (itable_new (fmt_inodes ic)) = 0"
    by (simp_all add: dedup_marshal_len_def dedup_new_def itable_marshal_len_def itable_new_def)
  ultimately show "snap_len (fmt_bitmap tot ic dr) dedup_new (itable_new (fmt_inodes ic)) \<le> unat (fmt_blocks tot ic dr) * SIZE"
    using fmt_blocks_bounds(1) [OF assms(1) refl] by (simp add: snap_len_def split del: if_split)
qed

lemma cow_format_eq:
  assumes tot: "tot = blocks dv d"
    and u0: "u0 = (fmt_uber tot ic dr)\<lparr>ub_bitmap_len := 0, ub_ddt_len := 0, ub_inode_len := 0\<rparr>"
  shows "cow_format C iter dv ic dr d =
    (if tot \<le> ub_data_start u0 then (Err (DeviceTooSmall (ub_data_start u0) tot), d)
     else case write_snapshot iter dv u0 (fmt_bitmap tot ic dr) dedup_new (itable_new (fmt_inodes ic)) None d of
            (Ok u, d', ub', s) \<Rightarrow>
              (case write_uber C dv ub' d' of
                 (Ok u, d'') \<Rightarrow> (Ok ub', d'')
               | (Err e, d'') \<Rightarrow> (Err e, d'')
               | (Panic, d'') \<Rightarrow> (Panic, d''))
          | (Err e, d', ub', s) \<Rightarrow> (Err e, d')
          | (Panic, d', ub', s) \<Rightarrow> (Panic, d'))"
proof -
  have u: "u0 = \<lparr>ub_magic = UBER_MAGIC, ub_seq = 1, ub_block_size = of_nat SIZE, ub_active_meta = 0,
     ub_total_blocks = tot, ub_meta_a = 2, ub_meta_b = 2 + fmt_blocks tot ic dr, ub_meta_blocks = fmt_blocks tot ic dr,
     ub_inode_count = fmt_inodes ic, ub_data_start = 2 + fmt_blocks tot ic dr + fmt_blocks tot ic dr,
     ub_root_inode = 0, ub_next_inode = 1, ub_bitmap_len = 0, ub_ddt_len = 0, ub_inode_len = 0\<rparr>"
    unfolding u0 fmt_uber_def by simp
  have ds: "ub_data_start u0 = 2 + fmt_blocks tot ic dr + fmt_blocks tot ic dr" unfolding u by simp
  show ?thesis unfolding ds unfolding cow_format_def Let_def fmt_bitmap_def u fmt_blocks_def tot by (rule refl)
qed

context block_device begin

lemma format_view:
  assumes C: "crypto_ok C" and it: "is_iter iter" and ok: "dev_ok d" and tot: "tot = blocks dv d"
    and fits: "fmt_fits tot ic dr" and room: "2 + 2 * unat (fmt_blocks tot ic dr) < unat tot"
    and ub: "ub = fmt_uber tot ic dr"
    and buf: "buf = snap_buf iter (mblocks ub * SIZE) (fmt_bitmap tot ic dr) dedup_new (itable_new (fmt_inodes ic)) None"
  shows "\<exists>d'. cow_format C iter dv ic dr d = (Ok ub, d') \<and> dev_ok d' \<and> blocks dv d' = blocks dv d \<and>
    view d' = (put_meta 2 (mblocks ub) buf (view d))(1 := uber_marshal C ub)"
proof -
  let ?bm = "fmt_bitmap tot ic dr" and ?tbl = "itable_new (fmt_inodes ic)"
  define u0 where "u0 = ub\<lparr>ub_bitmap_len := 0, ub_ddt_len := 0, ub_inode_len := 0\<rparr>"
  have g: "geom ub (unat (blocks dv d))" and sl: "uslot ub = 1" and ms: "meta_start ub = 2" and ds: "ub_data_start ub < tot"
    using fmt_geom [OF fits room] room unfolding ub tot by (simp_all add: fmt_uber_def word_less_nat_alt)
  have mbu: "ub_meta_blocks ub = fmt_blocks tot ic dr" by (simp add: ub fmt_uber_def)
  note fp = fmt_parts [OF fits room]
  have u0: "meta_start u0 = 2" "mblocks u0 = mblocks ub" "unat (ub_meta_blocks u0 * BLK) = mblocks ub * SIZE"
    "u0\<lparr>ub_bitmap_len := of_nat (bitmap_marshal_len ?bm), ub_ddt_len := of_nat (dedup_marshal_len dedup_new),
       ub_inode_len := of_nat (itable_marshal_len ?tbl)\<rparr> = ub"
    using meta_slot_range(4) [OF g] ms by (simp_all add: u0_def meta_start_def ub fmt_uber_def)
  have len: "mblocks ub * SIZE \<le> length buf"
    using snap_buf_eq [OF it fp(1) fp(3) [folded mbu], of None] buf by metis
  obtain d1 where d1: "write_meta dv 2 [0..<mblocks ub] buf d = (Ok (), d1)" "dev_ok d1"
      "blocks dv d1 = blocks dv d" "view d1 = put_meta 2 (mblocks ub) buf (view d)"
    using write_meta_eq [OF ok meta_slot_range(3) [OF g] len order_refl] ms by auto
  obtain d2 where d2: "sync dv d1 = (Ok (), d2)" "dev_ok d2" "blocks dv d2 = blocks dv d1" "view d2 = view d1"
    using sync_in [OF d1(2)] by blast
  have "2 \<le> unat (blocks dv d2)" using g d1(3) d2(3) by (simp add: geom_def)
  then obtain d3 where d3: "write_uber C dv ub d2 = (Ok (), d3)" "dev_ok d3" "blocks dv d3 = blocks dv d2"
      "view d3 = (view d2)(1 := uber_marshal C ub)"
    using write_uber_eq [OF C d2(2), of ub] sl by auto
  have ws: "write_snapshot iter dv u0 ?bm dedup_new ?tbl None d = (Ok (), d2, ub, None)"
    unfolding write_snapshot_eq [OF refl] u0 buf [symmetric] using d1(1) d2(1) fp(3)
    by (simp add: cow_sync_def mbu scratch_after_def)
  have "\<not> tot \<le> ub_data_start u0" using ds by (simp add: u0_def not_le)
  then have "cow_format C iter dv ic dr d = (Ok ub, d3)"
    unfolding cow_format_eq [OF tot u0_def [unfolded ub]] using ws d3(1) by simp
  then show ?thesis using d1 d2 d3 by simp
qed

text \<open>A formatted device is mounted with empty tables and only the reserved blocks in use, unless slot
  0 held a valid uberblock before.\<close>

lemma format_committed:
  assumes C: "crypto_ok C" and it: "is_iter iter" and ok: "dev_ok d" and tot: "tot = blocks dv d"
    and fits: "fmt_fits tot ic dr" and room: "2 + 2 * unat (fmt_blocks tot ic dr) < unat tot"
    and ub: "ub = fmt_uber tot ic dr" and other: "\<forall>u. parse_uber C (view d 0) = Ok u \<longrightarrow> ub_seq u < 1"
  shows "\<exists>d'. cow_format C iter dv ic dr d = (Ok ub, d') \<and> dev_ok d' \<and> blocks dv d' = blocks dv d \<and>
    committed C (view d') (unat tot) (ub, fmt_bitmap tot ic dr, [], itable_new (fmt_inodes ic))"
proof -
  let ?bm = "fmt_bitmap tot ic dr" and ?tbl = "itable_new (fmt_inodes ic)"
  define buf where "buf = snap_buf iter (mblocks ub * SIZE) ?bm dedup_new ?tbl None"
  obtain d' where d': "cow_format C iter dv ic dr d = (Ok ub, d')" "dev_ok d'" "blocks dv d' = blocks dv d"
      "view d' = (put_meta 2 (mblocks ub) buf (view d))(1 := uber_marshal C ub)"
    using format_view [OF C it ok tot fits room ub buf_def] by blast
  note fg = fmt_geom [OF fits room, folded ub] and fp = fmt_parts [OF fits room]
  have f: "ub_bitmap_len ub = of_nat (bitmap_marshal_len ?bm)" "ub_ddt_len ub = of_nat (dedup_marshal_len dedup_new)"
    "ub_inode_len ub = of_nat (itable_marshal_len ?tbl)" "itable_cap ?tbl = ub_inode_count ub"
    "snap_len ?bm dedup_new ?tbl \<le> mblocks ub * SIZE" "ub_magic ub = UBER_MAGIC" "ub_seq ub = 1"
    using fp(3) by (simp_all add: ub fmt_uber_def itable_cap_def itable_new_def)
  have V': "view d' = (put_meta (unat (meta_start ub)) (mblocks ub) buf (view d))(uslot ub := uber_marshal C ub)"
    using d'(4) fg(2,3) by simp
  have "committed C (view d') (unat tot) (ub, ?bm\<lparr>bm_deferred := []\<rparr>, iter dedup_new, ?tbl)"
    by (rule committed_snap [OF it fg(1) fp(1) f(4,5) f(1-3) buf_def V' parse_uber_marshal [OF C f(6)]])
      (use other fg(2) f(7) in simp)
  moreover have "iter dedup_new = []" using is_iter_D(2) [OF it, of dedup_new] by (simp add: dedup_new_def)
  moreover have "?bm\<lparr>bm_deferred := []\<rparr> = ?bm" using fp(4) by simp
  ultimately show ?thesis using d' by simp
qed

text \<open>A commit makes its state the committed one.\<close>

lemma commit_committed:
  assumes C: "crypto_ok C" and it: "is_iter iter" and ok: "dev_ok d" and st: "committed C (view d) (unat (blocks dv d)) st"
    and prev: "prev = fst st" and seq: "unat (ub_seq prev) + 1 < 2 ^ 64" and po: "parts_ok bm ddt tbl"
    and cap: "itable_cap tbl = ub_inode_count prev" and fit: "snap_len bm ddt tbl \<le> mblocks prev * SIZE"
    and nx: "nx = next_uber prev bm ddt tbl ri ni"
  shows "\<exists>d' s'. cow_commit C iter dv prev bm ddt tbl ri ni scratch d = (Ok nx, d', apply_deferred bm, s') \<and>
    dev_ok d' \<and> blocks dv d' = blocks dv d \<and>
    committed C (view d') (unat (blocks dv d)) (nx, bm\<lparr>bm_deferred := []\<rparr>, iter ddt, tbl)"
proof -
  define buf where "buf = snap_buf iter (mblocks prev * SIZE) bm ddt tbl scratch"
  have g: "geom prev (unat (blocks dv d))" and bu: "best_uber C (view d) prev" using st prev by (auto simp: committed_def)
  obtain d' s' where d': "cow_commit C iter dv prev bm ddt tbl ri ni scratch d = (Ok nx, d', apply_deferred bm, s')"
      "dev_ok d'" "blocks dv d' = blocks dv d"
      "view d' = (put_meta (unat (meta_start nx)) (mblocks prev) buf (view d))(uslot nx := uber_marshal C nx)"
    using commit_view [OF C it ok g po fit nx buf_def] by blast
  have mg: "ub_magic nx = UBER_MAGIC" using next_uber_geom(1) [OF g nx] by (simp add: geom_def)
  from committed_next [OF it g bu seq po cap fit nx buf_def d'(4) parse_uber_marshal [OF C mg]] d'(1-3)
  show ?thesis by blast
qed

end

section \<open>Properties\<close>


text \<open>An image of 100 blocks, for concrete inputs.\<close>

abbreviation image100 :: "bytes \<Rightarrow> file_device" where
  "image100 b \<equiv> \<lparr>fd_f = \<lparr>fl_bytes = b @ replicate (99 * SIZE) 0, fl_faults = []\<rparr>, fd_blocks = 100\<rparr>"

lemma image100_facts:
  assumes "length b = SIZE"
  shows "file_healthy (fd_f (image100 b)) 100" "file_view (image100 b) 0 = b" "fmt_fits 100 32 0"
    "2 + 2 * unat (fmt_blocks 100 32 0) < unat (100 :: u64)" "\<not> ub_data_start (fmt_uber 100 32 0) \<ge> 100"
proof -
  show "file_healthy (fd_f (image100 b)) 100" using assms by (simp add: file_healthy_def file_fits_def SIZE_def)
  show "file_view (image100 b) 0 = b" using assms by (simp add: block_view_def)
  show "fmt_fits 100 32 0" by (simp add: fmt_fits_def SIZE_def INODE_SIZE_def)
  have "fmt_blocks 100 32 0 = 2" by code_simp
  then show "2 + 2 * unat (fmt_blocks 100 32 0) < unat (100 :: u64)" "\<not> ub_data_start (fmt_uber 100 32 0) \<ge> 100"
    by (simp_all add: fmt_uber_def word_le_nat_alt)
qed

lemma zero_block_no_uber: "parse_uber C (replicate SIZE 0) = Err BadUber"
proof -
  have "slice 0 8 (replicate SIZE (0 :: u8)) = [0, 0, 0, 0, 0, 0, 0, 0]"
    by (simp add: slice_def SIZE_def min_def) (simp add: numeral_eq_Suc)
  then show ?thesis by (simp add: parse_uber_def UBER_MAGIC_def)
qed


text \<open>C19. Formatting does not invalidate uberblock slot 0: when that slot holds a valid uberblock from
  an earlier file system, \<open>format\<close> reports success, but a mount never returns the new file system;
  if it succeeds at all, it returns the old root.\<close>

theorem reformat_mounts_stale:
  assumes "crypto_ok C" "is_iter iter" "file_healthy (fd_f d) (fd_blocks d)" "fmt_fits (fd_blocks d) ic dr"
    and "parse_uber C (file_view d 0) = Ok u0" "1 \<le> ub_seq u0" "cow_format C iter file_dev ic dr d = (Ok ub, d')"
  shows "ub_seq ub = 1 \<and> (\<forall>st. cow_mount C file_dev d' = Ok st \<longrightarrow> fst st = u0)"
proof -
  let ?ub = "fmt_uber (fd_blocks d) ic dr"
  have "\<not> fd_blocks d \<le> ub_data_start ?ub"
    using assms(7) cow_format_eq [of "fd_blocks d" file_dev d, OF _ refl, of C iter ic dr] by (auto simp: blocks_file_dev)
  then have room: "2 + 2 * unat (fmt_blocks (fd_blocks d) ic dr) < unat (fd_blocks d)"
    using fmt_data_start [OF assms(4)] by (simp add: word_le_nat_alt)
  define buf where "buf = snap_buf iter (mblocks ?ub * SIZE) (fmt_bitmap (fd_blocks d) ic dr) dedup_new (itable_new (fmt_inodes ic)) None"
  obtain d1 where d1: "cow_format C iter file_dev ic dr d = (Ok ?ub, d1)" "file_healthy (fd_f d1) (fd_blocks d1)"
      "fd_blocks d1 = fd_blocks d" "file_view d1 = (put_meta 2 (mblocks ?ub) buf (file_view d))(1 := uber_marshal C ?ub)"
    using fil.format_view [unfolded blocks_file_dev, OF assms(1-3) refl assms(4) room refl buf_def] by blast
  have s1: "ub_seq ?ub = 1" "ub_magic ?ub = UBER_MAGIC" by (simp_all add: fmt_uber_def)
  have "file_view d1 0 = file_view d 0" unfolding d1(4) by (simp add: put_meta_def)
  then have v: "parse_uber C (file_view d1 0) = Ok u0" "parse_uber C (file_view d1 1) = Ok ?ub"
    using assms(5) unfolding d1(4) by (simp_all add: parse_uber_marshal [OF assms(1) s1(2)])
  have "2 \<le> unat (fd_blocks d1)" using room d1(3) by simp
  then have rd: "read_block file_dev d1 0 = Ok (file_view d1 0)" "read_block file_dev d1 1 = Ok (file_view d1 1)"
    using fil.read_in [OF d1(2), of 0] fil.read_in [OF d1(2), of 1] by (simp_all add: blocks_file_dev word_less_nat_alt)
  have "ub_seq u0 \<noteq> 0" using assms(6) by auto
  then have "scan_ubers C file_dev d1 [UBER_SLOT0, UBER_SLOT1] None = Ok (Some u0)"
    using v s1(1) by (simp add: UBER_SLOT0_def UBER_SLOT1_def rd)
  then have "fst st = u0" if "cow_mount C file_dev d1 = Ok st" for st
    using that by (auto simp: cow_mount_def load_meta_def res_bind_eq_Ok Let_def split: if_splits)
  then show ?thesis using d1(1) assms(7) s1(1) by auto
qed

theorem reformat_mounts_stale_witness:
  "\<exists>d'. cow_format plain_crypto id file_dev 32 0 (image100 (uber_marshal plain_crypto ((fmt_uber 100 32 0)\<lparr>ub_seq := 8\<rparr>))) =
       (Ok (fmt_uber 100 32 0), d') \<and>
     (\<forall>st. cow_mount plain_crypto file_dev d' = Ok st \<longrightarrow> ub_seq (fst st) = 8)"
proof -
  let ?u = "(fmt_uber 100 32 0)\<lparr>ub_seq := 8\<rparr>" and ?d = "\<lambda>u. image100 (uber_marshal plain_crypto u)"
  have i: "is_iter id" by (simp add: is_iter_def)
  have m: "ub_magic ?u = UBER_MAGIC" by (simp add: fmt_uber_def)
  note f = image100_facts [OF length_uber_marshal [OF plain_crypto_ok, of ?u]]
  obtain d' where w: "cow_format plain_crypto id file_dev 32 0 (?d ?u) = (Ok (fmt_uber 100 32 0), d')"
    using fil.format_view [unfolded blocks_file_dev, OF plain_crypto_ok i _ _ f(3,4) refl refl, of "?d ?u"] f(1) by auto
  have "parse_uber plain_crypto (file_view (?d ?u) 0) = Ok ?u"
    unfolding f(2) by (rule parse_uber_marshal [OF plain_crypto_ok m])
  from reformat_mounts_stale [OF plain_crypto_ok i _ _ this _ w] f(1,3) w
  show ?thesis by (auto simp: word_le_nat_alt)
qed

text \<open>C17. A commit is what the next mount sees: after a successful \<open>commit\<close> on an image that does
  not fail, a mount returns the next sequence number, the given root and next inode, the bitmap
  without its deferred list, a dedup table with the same entries and the same inode table; in memory
  the deferred clusters are released.\<close>

theorem commit_mount:
  assumes "crypto_ok C" "is_iter iter" "file_healthy (fd_f d) (fd_blocks d)"
    and "committed C (file_view d) (unat (fd_blocks d)) st" "unat (ub_seq (fst st)) + 1 < 2 ^ 64"
    and "parts_ok bm ddt tbl" "itable_cap tbl = ub_inode_count (fst st)" "snap_len bm ddt tbl \<le> mblocks (fst st) * SIZE"
    and "cow_commit C iter file_dev (fst st) bm ddt tbl ri ni scratch d = (r, d', bm', s')"
  shows "bm' = apply_deferred bm \<and> (\<exists>nx ddt'. r = Ok nx \<and> ub_seq nx = ub_seq (fst st) + 1 \<and> ub_root_inode nx = ri \<and>
    ub_next_inode nx = ni \<and> cow_mount C file_dev d' = Ok (nx, bm\<lparr>bm_deferred := []\<rparr>, ddt', tbl) \<and>
    dedup_lookup ddt' = dedup_lookup ddt)"
proof -
  define nx where "nx = next_uber (fst st) bm ddt tbl ri ni"
  obtain d1 s1 where d1: "cow_commit C iter file_dev (fst st) bm ddt tbl ri ni scratch d = (Ok nx, d1, apply_deferred bm, s1)"
      "file_healthy (fd_f d1) (fd_blocks d1)" "fd_blocks d1 = fd_blocks d"
      "committed C (file_view d1) (unat (fd_blocks d)) (nx, bm\<lparr>bm_deferred := []\<rparr>, iter ddt, tbl)"
    using fil.commit_committed [unfolded blocks_file_dev, OF assms(1-4) refl assms(5-8) nx_def] by blast
  have "cow_mount C file_dev d1 = Ok (nx, bm\<lparr>bm_deferred := []\<rparr>, iter ddt, tbl)"
    using fil.mount_committed [unfolded blocks_file_dev, OF d1(2)] d1(3,4) by simp
  moreover have "dedup_lookup (iter ddt) = dedup_lookup ddt"
    using is_iter_D(4) [OF assms(2), of ddt] assms(6) by (simp add: dedup_lookup_eq parts_ok_def dedup_ok_def)
  moreover have "ub_seq nx = ub_seq (fst st) + 1" "ub_root_inode nx = ri" "ub_next_inode nx = ni"
    by (simp_all add: nx_def next_uber_def)
  ultimately show ?thesis using d1(1) assms(9) by auto
qed

theorem commit_mount_witness:
  "\<exists>d1 d2 nx ddt' bm' s'. cow_format plain_crypto id file_dev 32 0 (image100 (replicate SIZE 0)) = (Ok (fmt_uber 100 32 0), d1) \<and>
     cow_commit plain_crypto id file_dev (fmt_uber 100 32 0) (fmt_bitmap 100 32 0) [] (itable_new 32) 0 5 None d1 = (Ok nx, d2, bm', s') \<and>
     cow_mount plain_crypto file_dev d2 = Ok (nx, fmt_bitmap 100 32 0, ddt', itable_new 32)"
proof -
  let ?ub = "fmt_uber 100 32 0" and ?bm = "fmt_bitmap 100 32 0"
  have i: "is_iter id" by (simp add: is_iter_def)
  note f = image100_facts [OF length_replicate [of SIZE 0]]
  obtain d1 where d1: "cow_format plain_crypto id file_dev 32 0 (image100 (replicate SIZE 0)) = (Ok ?ub, d1)"
      "file_healthy (fd_f d1) (fd_blocks d1)" "fd_blocks d1 = 100" "committed plain_crypto (file_view d1) (unat (100 :: u64)) (?ub, ?bm, [], itable_new 32)"
    using fil.format_committed [unfolded blocks_file_dev, OF plain_crypto_ok i _ _ f(3,4) refl, of "image100 (replicate SIZE 0)"] f(1,2)
    by (auto simp: zero_block_no_uber)
  note fp = fmt_parts [OF f(3,4)]
  obtain r d2 bm' s' where w: "cow_commit plain_crypto id file_dev ?ub ?bm [] (itable_new 32) 0 5 None d1 = (r, d2, bm', s')"
    by (metis prod_cases4)
  have st: "committed plain_crypto (file_view d1) (unat (fd_blocks d1)) (?ub, ?bm, [], itable_new 32)" using d1(3,4) by simp
  have "unat (ub_seq (fst (?ub, ?bm, [], itable_new 32))) + 1 < 2 ^ 64"
    "parts_ok ?bm [] (itable_new 32)" "itable_cap (itable_new 32) = ub_inode_count (fst (?ub, ?bm, [], itable_new 32))"
    "snap_len ?bm [] (itable_new 32) \<le> mblocks (fst (?ub, ?bm, [], itable_new 32)) * SIZE"
    using fp(1,3) by (simp_all add: fmt_uber_def dedup_new_def itable_cap_def itable_new_def)
  from commit_mount [OF plain_crypto_ok i d1(2) st this, of 0 5 None r d2 bm' s'] w d1(1) fp(4)
  show ?thesis by fastforce
qed

end
