(* ===== verification/Crash.thy ===== *)
theory Crash
  imports Cow
begin

text \<open>
  The commit protocol under a power failure.  A \<open>log_device\<close> remembers the writes since it was
  opened and where they were flushed; \<open>crash_image\<close> says what a disk may hold when the power fails:
  every flushed write, and of the others any part that the locale \<open>torn_writes\<close> allows.  The locale
  is interpreted for disks that write whole sectors, and for disks that may mix the bytes of the old
  and the new block, where the checksum of the uberblock is what detects the mixture.

  The lemmas show that a mount after a crash at any point of a transaction and its commit returns the
  state before it or the state after it.
\<close>

section \<open>Power failures\<close>

text \<open>A device that remembers the writes and flushes since it was opened, over the contents it had
  then.  A read sees the latest write.\<close>

datatype io = WriteIo nat bytes | SyncIo

record log_device =
  ld_base :: "nat \<Rightarrow> bytes"
  ld_blocks :: u64
  ld_log :: "io list"

fun play :: "io list \<Rightarrow> (nat \<Rightarrow> bytes) \<Rightarrow> nat \<Rightarrow> bytes" where
  "play [] V = V"
| "play (WriteIo n b # l) V = play l (V(n := b))"
| "play (SyncIo # l) V = play l V"

definition log_view :: "log_device \<Rightarrow> nat \<Rightarrow> bytes" where
  "log_view d = play (ld_log d) (ld_base d)"

definition log_dev :: "log_device device" where
  "log_dev =
     \<lparr>read_block = (\<lambda>d num. if num \<ge> ld_blocks d then Err OutOfRange else Ok (log_view d (unat num))),
      write_block = (\<lambda>d num data. if num \<ge> ld_blocks d then (Err OutOfRange, d)
        else if length data \<noteq> SIZE then (Err ShortData, d)
        else (Ok (), d\<lparr>ld_log := ld_log d @ [WriteIo (unat num) data]\<rparr>)),
      blocks = ld_blocks,
      sync = (\<lambda>d. (Ok (), d\<lparr>ld_log := ld_log d @ [SyncIo]\<rparr>))\<rparr>"

definition log_ok :: "log_device \<Rightarrow> bool" where
  "log_ok d = ((\<forall>n < unat (ld_blocks d). length (ld_base d n) = SIZE) \<and> (\<forall>n b. WriteIo n b \<in> set (ld_log d) \<longrightarrow> length b = SIZE))"

text \<open>\<open>touched l\<close>: the blocks the writes of a log go to.\<close>

definition touched :: "io list \<Rightarrow> nat set" where
  "touched l = {n. \<exists>b. WriteIo n b \<in> set l}"

lemma touched_simps [simp]: "touched [] = {}" "touched (WriteIo n b # l) = insert n (touched l)" "touched (SyncIo # l) = touched l"
  by (auto simp: touched_def)

lemma touched_append [simp]: "touched (l @ l') = touched l \<union> touched l'"
  by (auto simp: touched_def)

lemma play_append [simp]: "play (l @ l') V = play l' (play l V)"
proof (induction l arbitrary: V)
  case (Cons a l)
  then show ?case by (cases a) (simp_all only: append_Cons play.simps)
qed simp

lemma play_untouched: "n \<notin> touched l \<Longrightarrow> play l V n = V n"
  by (induction l V rule: play.induct) (auto simp: touched_def)

lemma play_length:
  "length (V n) = SIZE \<Longrightarrow> \<forall>m b. WriteIo m b \<in> set l \<longrightarrow> length b = SIZE \<Longrightarrow> length (play l V n) = SIZE"
  by (induction l V rule: play.induct) auto

lemma log_view_length: "log_ok d \<Longrightarrow> n < unat (ld_blocks d) \<Longrightarrow> length (log_view d n) = SIZE"
  by (simp add: log_ok_def log_view_def play_length)

interpretation lg: block_device log_dev log_ok log_view
proof (unfold_locales, goal_cases)
  case (1 d n)
  then show ?case by (simp add: log_dev_def log_view_length)
qed (auto simp: log_dev_def log_ok_def log_view_def not_le [symmetric])

lemma blocks_log_dev [simp]: "blocks log_dev = ld_blocks"
  by (simp add: log_dev_def)

text \<open>What the disk may hold after a power failure at some point of the log: everything up to a
  flush, and of each later write the part \<open>tear\<close> allows.  \<open>tear old new x\<close>: a block that held
  \<open>old\<close> may hold \<open>x\<close> after an interrupted write of \<open>new\<close>.\<close>

inductive crash_apply :: "(bytes \<Rightarrow> bytes \<Rightarrow> bytes \<Rightarrow> bool) \<Rightarrow> io list \<Rightarrow> (nat \<Rightarrow> bytes) \<Rightarrow> (nat \<Rightarrow> bytes) \<Rightarrow> bool"
  for tear where
  crash_done: "crash_apply tear [] V V"
| crash_write: "tear (V n) b x \<Longrightarrow> crash_apply tear l (V(n := x)) V' \<Longrightarrow> crash_apply tear (WriteIo n b # l) V V'"

inductive_cases crash_apply_NilE: "crash_apply tear [] V V'"
inductive_cases crash_apply_WriteE: "crash_apply tear (WriteIo n b # l) V V'"
inductive_cases crash_apply_SyncE: "crash_apply tear (SyncIo # l) V V'"

definition crash_image :: "(bytes \<Rightarrow> bytes \<Rightarrow> bytes \<Rightarrow> bool) \<Rightarrow> log_device \<Rightarrow> (nat \<Rightarrow> bytes) \<Rightarrow> bool" where
  "crash_image tear d V' = (\<exists>flushed pend rest. ld_log d = flushed @ pend @ rest \<and>
     (flushed = [] \<or> last flushed = SyncIo) \<and> crash_apply tear pend (play flushed (ld_base d)) V')"

definition reboot :: "(nat \<Rightarrow> bytes) \<Rightarrow> u64 \<Rightarrow> log_device" where
  "reboot V n = \<lparr>ld_base = V, ld_blocks = n, ld_log = []\<rparr>"

lemma reboot_simps [simp]: "log_view (reboot V n) = V" "ld_blocks (reboot V n) = n"
  by (simp_all add: reboot_def log_view_def)

lemma crash_apply_untouched: "crash_apply tear l V V' \<Longrightarrow> n \<notin> touched l \<Longrightarrow> V' n = V n"
  by (induction rule: crash_apply.induct) (auto simp: touched_def)

lemma crash_apply_no_sync: "crash_apply tear l V V' \<Longrightarrow> SyncIo \<notin> set l"
  by (induction rule: crash_apply.induct) auto

lemma crash_untouched:
  assumes "crash_apply tear pend (play flushed V) V'" "n \<notin> touched (flushed @ pend)"
  shows "V' n = V n"
  using crash_apply_untouched [OF assms(1)] play_untouched [of n flushed V] assms(2) by simp

text \<open>Splitting a log at its flushes.\<close>

lemma split_at_sync:
  assumes "flushed @ pend = l @ SyncIo # t" "SyncIo \<notin> set pend"
  obtains f where "flushed = l @ SyncIo # f" "f @ pend = t"
  using assms by (auto simp: append_eq_append_conv2 append_eq_Cons_conv Cons_eq_append_conv)

lemma crash_points:
  assumes "crash_apply tear pend V V'" "flushed @ pend @ rest = l @ [SyncIo, WriteIo n b, SyncIo]"
    and "flushed = [] \<or> last flushed = SyncIo"
  obtains (early) ex where "flushed @ pend = ex" "\<exists>r. ex @ r = l"
    | (pending) "flushed = l @ [SyncIo]" "pend = [] \<or> pend = [WriteIo n b]"
    | (complete) "flushed = l @ [SyncIo, WriteIo n b, SyncIo]" "pend = []"
proof -
  have ns: "SyncIo \<notin> set pend" by (rule crash_apply_no_sync [OF assms(1)])
  consider r where "(flushed @ pend) @ r = l" | t where "flushed @ pend = l @ SyncIo # t" "t @ rest = [WriteIo n b, SyncIo]"
    using assms(2) by (fastforce simp: append_eq_append_conv2 append_eq_Cons_conv Cons_eq_append_conv)
  then show thesis
  proof cases
    case 1
    then show ?thesis using early by blast
  next
    case (2 t)
    obtain f where f: "flushed = l @ SyncIo # f" "f @ pend = t" by (rule split_at_sync [OF 2(1) ns])
    have "t = [] \<or> t = [WriteIo n b] \<or> t = [WriteIo n b, SyncIo]"
      using 2(2) by (auto simp: append_eq_Cons_conv)
    then show ?thesis
      using f ns assms(3) pending complete by (auto simp: append_eq_Cons_conv)
  qed
qed

text \<open>The contract of interrupted block writes that the protocol relies on: a block keeps its length,
  and a block that may be read as an uberblock reads as the old or the new one or as no uberblock.\<close>

locale torn_writes =
  fixes C :: crypto
    and tear :: "bytes \<Rightarrow> bytes \<Rightarrow> bytes \<Rightarrow> bool"
  assumes tear_length: "tear old new x \<Longrightarrow> length new = SIZE \<Longrightarrow> length x = SIZE"
    and tear_uber: "tear old new x \<Longrightarrow> length old = SIZE \<Longrightarrow> length new = SIZE \<Longrightarrow>
      parse_uber C x = Err BadUber \<or> parse_uber C x = parse_uber C old \<or> parse_uber C x = parse_uber C new"

lemma committed_frame:
  assumes st: "committed C V B st" and ub: "ub = fst st"
    and same: "V' (uslot ub) = V (uslot ub)" "\<And>n. n \<in> meta_slot ub \<Longrightarrow> V' n = V n"
    and other: "parse_uber C (V' (1 - uslot ub)) = Err BadUber \<or> parse_uber C (V' (1 - uslot ub)) = parse_uber C (V (1 - uslot ub))"
  shows "committed C V' B st"
proof -
  have "meta_bytes V' (unat (meta_start ub)) (mblocks ub) = meta_bytes V (unat (meta_start ub)) (mblocks ub)"
    using same(2) by (intro meta_bytes_cong) (simp add: meta_slot_def)
  then show ?thesis
    using st same(1) other by (auto simp: committed_def best_uber_def loads_def ub)
qed

text \<open>The log of a commit.\<close>

definition meta_log :: "nat \<Rightarrow> nat \<Rightarrow> bytes \<Rightarrow> io list" where
  "meta_log s n buf = map (\<lambda>i. WriteIo (s + i) (slice (i * SIZE) (i * SIZE + SIZE) buf)) [0..<n]"

lemma play_meta_log: "play (meta_log s n buf) V = put_meta s n buf V"
  by (induction n) (simp_all add: meta_log_def put_meta_snoc)

lemma touched_meta_log: "touched (meta_log s n buf) = {s ..< s + n}"
  by (induction n) (auto simp: meta_log_def)

lemma write_meta_log:
  assumes "unat start + n \<le> unat (ld_blocks d)" "n * SIZE \<le> length buf" "j \<le> n"
  shows "write_meta log_dev start [0..<j] buf d = (Ok (), d\<lparr>ld_log := ld_log d @ meta_log (unat start) j buf\<rparr>)"
  using assms(3)
proof (induction j)
  case 0
  then show ?case by (simp add: meta_log_def)
next
  case (Suc j)
  have fit: "j * SIZE + SIZE \<le> length buf" using block_end [of j n] Suc.prems assms(2) by simp
  have "unat (start + of_nat j) = unat start + j"
    using lg.blocks_bound [of d] assms(1) Suc.prems by (intro unat_add_index) simp
  then have "write_block log_dev (d\<lparr>ld_log := l\<rparr>) (start + of_nat j) (slice (j * SIZE) (j * SIZE + SIZE) buf) =
      (Ok (), d\<lparr>ld_log := l @ [WriteIo (unat start + j) (slice (j * SIZE) (j * SIZE + SIZE) buf)]\<rparr>)" for l
    using assms(1) Suc.prems fit by (simp add: log_dev_def word_le_nat_alt)
  moreover have "write_meta log_dev start [0..<j] buf d = (Ok (), d\<lparr>ld_log := ld_log d @ meta_log (unat start) j buf\<rparr>)"
    using Suc by simp
  ultimately show ?case
    using write_meta_append [of log_dev start "[0..<j]" buf d _ "[j]"] fit by (simp add: meta_log_def Let_def)
qed

lemma commit_log:
  assumes C: "crypto_ok C" and it: "is_iter iter" and g: "geom prev (unat (ld_blocks d))"
    and po: "parts_ok bm ddt tbl" and fit: "snap_len bm ddt tbl \<le> mblocks prev * SIZE"
    and nx: "nx = next_uber prev bm ddt tbl ri ni" and buf: "buf = snap_buf iter (mblocks prev * SIZE) bm ddt tbl scratch"
  shows "\<exists>s'. cow_commit C iter log_dev prev bm ddt tbl ri ni scratch d =
    (Ok nx, d\<lparr>ld_log := ld_log d @ meta_log (unat (meta_start nx)) (mblocks prev) buf @
       [SyncIo, WriteIo (uslot nx) (uber_marshal C nx), SyncIo]\<rparr>, apply_deferred bm, s')"
proof -
  note ng = next_uber_geom [OF g nx]
  have need: "unat (ub_meta_blocks prev * BLK) = mblocks prev * SIZE" by (rule meta_slot_range(4) [OF g])
  have "mblocks prev * SIZE \<le> length buf" using snap_buf_eq [OF it po fit, of scratch] buf by metis
  then have wm: "write_meta log_dev (meta_start nx) [0..<mblocks nx] buf d =
      (Ok (), d\<lparr>ld_log := ld_log d @ meta_log (unat (meta_start nx)) (mblocks nx) buf\<rparr>)"
    using meta_slot_range(3) [OF ng(1)] ng(2) by (intro write_meta_log) auto
  have "2 \<le> unat (ld_blocks d)" using g by (simp add: geom_def)
  then have "\<not> ld_blocks d \<le> ub_seq nx mod 2"
    using uslot_cases [of nx] by (auto simp: uslot_def word_le_nat_alt)
  then have "write_uber C log_dev nx (d\<lparr>ld_log := l\<rparr>) =
      (Ok (), d\<lparr>ld_log := l @ [WriteIo (uslot nx) (uber_marshal C nx), SyncIo]\<rparr>)" for l
    using C by (simp add: write_uber_def cow_sync_def log_dev_def uslot_def)
  moreover have "cow_sync log_dev (d\<lparr>ld_log := l\<rparr>) = (Ok (), d\<lparr>ld_log := l @ [SyncIo]\<rparr>)" for l
    by (simp add: cow_sync_def log_dev_def)
  ultimately show ?thesis
    using wm fit ng(2) by (simp add: cow_commit_eq [OF nx refl] need buf [symmetric])
qed

context torn_writes begin

lemma crash_apply_length:
  "crash_apply tear l V V' \<Longrightarrow> \<forall>m b. WriteIo m b \<in> set l \<longrightarrow> length b = SIZE \<Longrightarrow> length (V n) = SIZE \<Longrightarrow> length (V' n) = SIZE"
proof (induction rule: crash_apply.induct)
  case (crash_write V m b x l V')
  have "length x = SIZE" using tear_length [OF crash_write.hyps(1)] crash_write.prems(1) by simp
  then have "length ((V(m := x)) n) = SIZE" using crash_write.prems(2) by simp
  then show ?case using crash_write.IH crash_write.prems(1) by simp
qed simp

lemma reboot_ok:
  assumes "log_ok d" "crash_image tear d V'"
  shows "log_ok (reboot V' (ld_blocks d))"
proof -
  obtain flushed pend rest where c: "ld_log d = flushed @ pend @ rest" "crash_apply tear pend (play flushed (ld_base d)) V'"
    using assms(2) by (auto simp: crash_image_def)
  have "length (V' n) = SIZE" if "n < unat (ld_blocks d)" for n
    using crash_apply_length [OF c(2)] play_length [of "ld_base d" n flushed] assms(1) c(1) that by (simp add: log_ok_def)
  then show ?thesis by (simp add: log_ok_def reboot_def)
qed

text \<open>A power failure during a transaction and its commit.  The log up to the commit wrote only
  outside \<open>U\<close>, which contains the uberblocks and the metadata slots.\<close>

lemma commit_crash_points:
  assumes C: "crypto_ok C" and it: "is_iter iter" and g: "geom prev (unat (ld_blocks d))"
    and po: "parts_ok bm ddt tbl" and fit: "snap_len bm ddt tbl \<le> mblocks prev * SIZE"
    and nx: "nx = next_uber prev bm ddt tbl ri ni" and buf: "buf = snap_buf iter (mblocks prev * SIZE) bm ddt tbl scratch"
    and cm: "cow_commit C iter log_dev prev bm ddt tbl ri ni scratch d = (r, d', bm', s')"
    and cr: "crash_image tear d' V'"
    and V1: "V1 = put_meta (unat (meta_start nx)) (mblocks prev) buf (log_view d)"
  obtains (before) "\<And>n. n \<notin> touched (ld_log d) \<union> meta_slot nx \<Longrightarrow> V' n = ld_base d n"
    | (torn) x where "tear (V1 (uslot nx)) (uber_marshal C nx) x" "V' = V1(uslot nx := x)"
    | (after) "V' = V1(uslot nx := uber_marshal C nx)"
proof -
  define M where "M = meta_log (unat (meta_start nx)) (mblocks prev) buf"
  note ng = next_uber_geom [OF g nx]
  have tM: "touched (ld_log d @ M) = touched (ld_log d) \<union> meta_slot nx"
    using ng(2) by (simp add: M_def touched_meta_log meta_slot_def)
  have V1': "play (ld_log d @ M) (ld_base d) = V1"
    by (simp add: V1 M_def play_meta_log log_view_def)
  have lg': "ld_log d' = (ld_log d @ M) @ [SyncIo, WriteIo (uslot nx) (uber_marshal C nx), SyncIo]" "ld_base d' = ld_base d"
    using commit_log [OF C it g po fit nx buf] cm by (auto simp: M_def)
  obtain flushed pend rest where cl: "ld_log d' = flushed @ pend @ rest"
      and c: "flushed = [] \<or> last flushed = SyncIo" "crash_apply tear pend (play flushed (ld_base d)) V'"
    using cr lg'(2) unfolding crash_image_def by metis
  from c(2) cl [symmetric, unfolded lg'(1)] c(1) show thesis
  proof (cases rule: crash_points)
    case (early ex)
    then obtain r where "ld_log d @ M = (flushed @ pend) @ r" by metis
    then have "touched (flushed @ pend) \<subseteq> touched (ld_log d @ M)" by (simp only: touched_append Un_upper1)
    then show ?thesis using before crash_untouched [OF c(2)] tM by blast
  next
    case pending
    then have ca: "crash_apply tear pend V1 V'" using c(2) V1' by simp
    from pending(2) show ?thesis
    proof
      assume "pend = []"
      then have "V' = V1" using ca by (auto elim: crash_apply_NilE)
      then have "V' n = ld_base d n" if "n \<notin> touched (ld_log d) \<union> meta_slot nx" for n
        using play_untouched [of n "ld_log d @ M" "ld_base d", unfolded tM V1'] that by simp
      then show ?thesis by (rule before)
    next
      assume "pend = [WriteIo (uslot nx) (uber_marshal C nx)]"
      then show ?thesis using ca torn by (auto elim!: crash_apply_WriteE crash_apply_NilE)
    qed
  next
    case complete
    have "play flushed (ld_base d) = V1(uslot nx := uber_marshal C nx)"
      unfolding complete(1) play_append [of "ld_log d @ M"] V1' by simp
    then show ?thesis using after c(2) complete(2) by (auto elim: crash_apply_NilE)
  qed
qed

lemma crash_commit:
  assumes C: "crypto_ok C" and it: "is_iter iter" and ok: "log_ok d"
    and st: "committed C (ld_base d) (unat (ld_blocks d)) st0" and prev: "prev = fst st0"
    and U: "touched (ld_log d) \<inter> U = {}" "{0 ..< unat (ub_data_start prev)} \<subseteq> U"
    and seq: "unat (ub_seq prev) + 1 < 2 ^ 64" and po: "parts_ok bm ddt tbl" and cap: "itable_cap tbl = ub_inode_count prev"
    and fit: "snap_len bm ddt tbl \<le> mblocks prev * SIZE" and nx: "nx = next_uber prev bm ddt tbl ri ni"
    and cm: "cow_commit C iter log_dev prev bm ddt tbl ri ni scratch d = (r, d', bm', s')"
    and cr: "crash_image tear d' V'"
  shows "committed C V' (unat (ld_blocks d)) st0 \<and> (\<forall>n \<in> U. unat (ub_data_start prev) \<le> n \<longrightarrow> V' n = ld_base d n) \<or>
    committed C V' (unat (ld_blocks d)) (nx, bm\<lparr>bm_deferred := []\<rparr>, iter ddt, tbl) \<and>
      (\<forall>n \<ge> unat (ub_data_start prev). V' n = log_view d n)"
    (is "?old \<or> ?new")
proof -
  let ?B = "unat (ld_blocks d)" and ?V = "ld_base d" and ?ds = "unat (ub_data_start prev)"
  define buf where "buf = snap_buf iter (mblocks prev * SIZE) bm ddt tbl scratch"
  define V1 where "V1 = put_meta (unat (meta_start nx)) (mblocks prev) buf (log_view d)"
  have g: "geom prev ?B" and bu: "best_uber C ?V prev" using st prev by (auto simp: committed_def)
  note ng = next_uber_geom [OF g nx] and ns = next_uber_slot [OF nx]
  note mr = meta_slot_range [OF ng(1)] and mrp = meta_slot_range [OF g]
  have ds: "ub_data_start nx = ub_data_start prev" by (simp add: nx next_uber_def)
  have mg: "ub_magic nx = UBER_MAGIC" using ng(1) by (simp add: geom_def)
  have sl: "uslot prev < 2" "uslot nx < 2" "uslot prev \<noteq> uslot nx" using ns uslot_cases [of prev] by auto
  have inU: "n \<in> U" if "n < 2 \<or> n \<in> meta_slot prev" for n
    using that U(2) mrp(2) g by (auto simp: meta_slot_def geom_def)
  have out: "n \<notin> touched (ld_log d) \<union> meta_slot nx" if "n < 2 \<or> n \<in> meta_slot prev \<or> n \<in> U \<and> ?ds \<le> n" for n
  proof -
    have "n \<in> U" using that inU by blast
    moreover have "n \<notin> meta_slot nx" using that ng(3) mr(1,2) ds by (auto simp: meta_slot_def)
    ultimately show ?thesis using U(1) by auto
  qed
  have frame: ?old
    if "\<And>n. n = uslot prev \<or> n \<in> meta_slot prev \<or> n \<in> U \<and> ?ds \<le> n \<Longrightarrow> V' n = ?V n"
      "parse_uber C (V' (uslot nx)) = Err BadUber \<or> parse_uber C (V' (uslot nx)) = parse_uber C (?V (uslot nx))"
    using committed_frame [OF st prev, of V'] that ns by simp
  have lv: "log_view d n = ?V n" if "n \<in> U" for n
    using play_untouched [of n "ld_log d" ?V] that U(1) by (auto simp: log_view_def)
  have V1_out: "V1 n = log_view d n" if "n \<notin> meta_slot nx" for n
    using that ng(2) by (auto simp: V1_def put_meta_def meta_slot_def)
  have new: ?new if x: "V' = V1(uslot nx := x)" "parse_uber C x = Ok nx" for x
  proof -
    have "1 - uslot prev < 2" by linarith
    then have "best_uber C (log_view d) prev"
      using bu lv [OF inU, of "uslot prev"] lv [OF inU, of "1 - uslot prev"] sl(1) unfolding best_uber_def by simp
    from committed_next [OF it g this seq po cap fit nx buf_def x(1) [unfolded V1_def] x(2)]
    have "committed C V' ?B (nx, bm\<lparr>bm_deferred := []\<rparr>, iter ddt, tbl)" .
    moreover have "V' n = log_view d n" if "?ds \<le> n" for n
    proof -
      have "n \<notin> meta_slot nx" "n \<noteq> uslot nx" using that mr(1,2) ds sl(2) by (auto simp: meta_slot_def)
      then show ?thesis using x(1) V1_out by simp
    qed
    ultimately show ?thesis by blast
  qed
  from C it g po fit nx buf_def cm cr V1_def show ?thesis
  proof (cases rule: commit_crash_points)
    case before
    have "V' n = ?V n" if "n < 2 \<or> n \<in> meta_slot prev \<or> n \<in> U \<and> ?ds \<le> n" for n using before out [OF that] .
    then have ?old using sl by (intro frame) auto
    then show ?thesis ..
  next
    case (torn x)
    have s: "V1 (uslot nx) = ?V (uslot nx)"
      using V1_out [of "uslot nx"] lv [OF inU, of "uslot nx"] sl(2) mr(1) by (simp add: meta_slot_def)
    have "length (?V (uslot nx)) = SIZE" using ok g sl(2) by (simp add: log_ok_def geom_def)
    then have px: "parse_uber C x = Err BadUber \<or> parse_uber C x = parse_uber C (?V (uslot nx)) \<or> parse_uber C x = Ok nx"
      using tear_uber [OF torn(1)] C by (simp add: s parse_uber_marshal [OF C mg])
    have eq: "V' n = ?V n" if "n = uslot prev \<or> n \<in> meta_slot prev \<or> n \<in> U \<and> ?ds \<le> n" for n
    proof -
      have "n \<in> U" "n \<noteq> uslot nx" "n \<notin> meta_slot nx"
        using that inU [of n] out [of n] sl mrp(1) g by (auto simp: meta_slot_def geom_def)
      then show ?thesis using torn(2) V1_out lv by simp
    qed
    show ?thesis
    proof (cases "parse_uber C x = Ok nx")
      case True
      then show ?thesis using new [OF torn(2)] by blast
    next
      case False
      have ?old by (rule frame, erule eq) (use px False torn(2) in simp)
      then show ?thesis ..
    qed
  next
    case after
    from new [OF this parse_uber_marshal [OF C mg]] show ?thesis ..
  qed
qed

end

text \<open>Disks write 512-byte sectors whole.  All that \<open>parse_uber\<close> reads lies in the first.\<close>

definition sector_tear :: "bytes \<Rightarrow> bytes \<Rightarrow> bytes \<Rightarrow> bool" where
  "sector_tear old new x = (length x = SIZE \<and> (\<forall>k < 8. slice (k * 512) (k * 512 + 512) x = slice (k * 512) (k * 512 + 512) old \<or>
     slice (k * 512) (k * 512 + 512) x = slice (k * 512) (k * 512 + 512) new))"

text \<open>Any mixture of the bytes of the two blocks, provided the checksum does its work: a mixture whose
  checksum is right has the checksummed bytes and the checksum of one of the two.\<close>

definition byte_tear :: "crypto \<Rightarrow> bytes \<Rightarrow> bytes \<Rightarrow> bytes \<Rightarrow> bool" where
  "byte_tear C old new x = (length x = SIZE \<and> (\<forall>i < SIZE. x ! i = old ! i \<or> x ! i = new ! i) \<and>
     (blake3 C (take 104 x) = slice 104 136 x \<longrightarrow> take 136 x = take 136 old \<or> take 136 x = take 136 new))"

interpretation sect: torn_writes C sector_tear for C
proof
  fix old new x
  assume t: "sector_tear old new x" and l: "length old = SIZE" "length new = SIZE"
  have "slice (0 * 512) (0 * 512 + 512) x = slice (0 * 512) (0 * 512 + 512) old \<or>
      slice (0 * 512) (0 * 512 + 512) x = slice (0 * 512) (0 * 512 + 512) new"
    using t unfolding sector_tear_def by (metis zero_less_numeral)
  then have "take 512 x = take 512 old \<or> take 512 x = take 512 new" by (simp add: slice_def)
  then have "take 136 (take 512 x) = take 136 (take 512 old) \<or> take 136 (take 512 x) = take 136 (take 512 new)" by metis
  then have "take 136 x = take 136 old \<or> take 136 x = take 136 new" by simp
  then show "parse_uber C x = Err BadUber \<or> parse_uber C x = parse_uber C old \<or> parse_uber C x = parse_uber C new"
    using parse_uber_cong [of x old] parse_uber_cong [of x new] t l by (auto simp: sector_tear_def)
qed (simp add: sector_tear_def)

interpretation byte: torn_writes C "byte_tear C" for C
proof
  fix old new x
  assume t: "byte_tear C old new x" and l: "length old = SIZE" "length new = SIZE"
  show "parse_uber C x = Err BadUber \<or> parse_uber C x = parse_uber C old \<or> parse_uber C x = parse_uber C new"
  proof (cases "blake3 C (take 104 x) = slice 104 136 x")
    case True
    then have "take 136 x = take 136 old \<or> take 136 x = take 136 new" using t by (simp add: byte_tear_def)
    then show ?thesis using parse_uber_cong [of x old] parse_uber_cong [of x new] t l by (auto simp: byte_tear_def)
  next
    case False
    then show ?thesis by (simp add: parse_uber_def UBER_CHECKSUM_OFF_def slice_def)
  qed
qed (simp add: byte_tear_def)


end
