(* ===== verification/Txn.thy ===== *)
theory Txn
  imports Crash
begin

text \<open>
  Transactions: the store operations of \<^verbatim>\<open>rust/bloomfs-store\<close> on a device, followed by a commit of
  \<^verbatim>\<open>rust/bloomfs-cow\<close>, with a power failure at any point, and histories of such transactions from
  a freshly formatted device on.  \<open>mounted_pool\<close> is the invariant of a running file system with
  respect to its last commit.
\<close>

section \<open>One transaction\<close>

text \<open>The bytes a log writes to a block; the device contract \<open>isolated_writes\<close> for them says which
  blocks a sequence of store operations leaves alone.\<close>

definition logged :: "log_device \<Rightarrow> nat \<Rightarrow> bytes" where
  "logged d n = concat (map (\<lambda>x. case x of WriteIo m b \<Rightarrow> if m = n then b else [] | SyncIo \<Rightarrow> []) (ld_log d))"

lemma logged_Nil: "log_ok d \<Longrightarrow> logged d n = [] \<Longrightarrow> n \<notin> touched (ld_log d)"
proof
  assume ok: "log_ok d" and l: "logged d n = []" and t: "n \<in> touched (ld_log d)"
  obtain b where b: "WriteIo n b \<in> set (ld_log d)" using t by (auto simp: touched_def)
  then have "b = []" using l by (auto simp: logged_def)
  moreover have "length b = SIZE" using ok b unfolding log_ok_def by blast
  ultimately show False by (simp add: SIZE_def)
qed

interpretation lgw: isolated_writes log_dev "\<lambda>d. log_ok d \<and> ld_base d = V \<and> ld_blocks d = B" logged for V B
  by unfold_locales (auto simp: log_dev_def log_ok_def logged_def split: if_splits)

text \<open>\<open>mounted_pool C bs st p ct\<close>: the state \<open>p\<close> of a mounted file system whose last commit, now
  on disk, is \<open>st\<close>; \<open>ct\<close> are the stored contents.  The bitmap in memory may have fewer clusters
  in use than the one on disk: those the last commit released.\<close>

definition mounted_pool :: "crypto \<Rightarrow> block_store \<Rightarrow> mounted \<Rightarrow> log_device pool \<Rightarrow> (key \<rightharpoonup> bytes) \<Rightarrow> bool" where
  "mounted_pool C bs st p ct = (case st of (ub, bm, ddt, tbl) \<Rightarrow>
     log_ok (po_dev p) \<and> ld_log (po_dev p) = [] \<and>
     committed C (ld_base (po_dev p)) (unat (ld_blocks (po_dev p))) st \<and>
     pool_inv C bs (ld_base (po_dev p)) (unat (ld_blocks (po_dev p))) (po_bm p) (po_ddt p) ct \<and>
     {0 ..< unat (ub_data_start ub)} \<subseteq> used_set (po_bm p) \<and> avoids {0 ..< unat (ub_data_start ub)} (po_ddt p) \<and>
     bm_deferred (po_bm p) = [] \<and> map_of ddt = map_of (po_ddt p) \<and> bm_deferred bm = [] \<and>
     pool_inv C bs (ld_base (po_dev p)) (unat (ld_blocks (po_dev p))) bm ddt ct \<and>
     {0 ..< unat (ub_data_start ub)} \<subseteq> used_set bm \<and> avoids {0 ..< unat (ub_data_start ub)} ddt)"

text \<open>What the operations of a transaction leave behind.\<close>

definition txn_ok :: "crypto \<Rightarrow> (key \<rightharpoonup> bytes) \<Rightarrow> store_op list \<Rightarrow> dedup_table \<Rightarrow> bool" where
  "txn_ok C ct ops ddt = (refs_below ddt (length ops) \<and> length ops < 2 ^ 32 \<and>
     (\<forall>pt \<in> puts ops. length pt < 2 ^ 32) \<and> inj_on (blake3 C) (ran ct \<union> puts ops))"

lemma txn_run:
  assumes C: "crypto_ok C" and mp: "mounted_pool C bs st p ct" and tx: "txn_ok C ct ops (po_ddt p)"
    and p1: "p1 = store_run C log_dev bs ops p" and ds: "ds = unat (ub_data_start (fst st))"
  obtains ct1 where "pool_inv C bs (log_view (po_dev p1)) (unat (ld_blocks (po_dev p))) (po_bm p1) (po_ddt p1) ct1"
    "ran ct1 \<subseteq> ran ct \<union> puts ops" "log_ok (po_dev p1)" "ld_base (po_dev p1) = ld_base (po_dev p)"
    "ld_blocks (po_dev p1) = ld_blocks (po_dev p)" "touched (ld_log (po_dev p1)) \<inter> used_set (po_bm p) = {}"
    "used_set (po_bm p) \<subseteq> used_set (po_bm p1)" "avoids {0 ..< ds} (po_ddt p1)" "deferred_set (po_bm p1) \<inter> {0 ..< ds} = {}"
proof -
  let ?d = "po_dev p" and ?d1 = "po_dev p1"
  have m: "log_ok ?d" "ld_log ?d = []" "pool_inv C bs (ld_base ?d) (unat (ld_blocks ?d)) (po_bm p) (po_ddt p) ct"
      "{0 ..< ds} \<subseteq> used_set (po_bm p)" "avoids {0 ..< ds} (po_ddt p)" "deferred_set (po_bm p) \<inter> {0 ..< ds} = {}"
    using mp unfolding mounted_pool_def ds by (auto simp: deferred_set_def split: prod.splits)
  have bm: "bitmap_ok (po_bm p)" by (rule pool_inv_facts(1) [OF m(3)])
  have lv: "log_view ?d = ld_base ?d" using m(2) by (simp add: log_view_def)
  have inv: "pool_inv C bs (log_view ?d) (unat (blocks log_dev ?d)) (po_bm p) (po_ddt p) ct" using m(3) lv by simp
  obtain ct1 where c: "pool_inv C bs (log_view ?d1) (unat (blocks log_dev ?d1)) (po_bm p1) (po_ddt p1) ct1"
      "log_ok ?d1" "keeps log_view log_dev p p1" "ran ct1 \<subseteq> ran ct \<union> puts ops"
    using lg.store_run_inv [OF C m(1) inv _ _ _ _ p1] tx by (auto simp: txn_ok_def)
  have iu: "log_ok ?d1 \<and> ld_base ?d1 = ld_base ?d \<and> ld_blocks ?d1 = ld_blocks ?d" "\<forall>n \<in> used_set (po_bm p). logged ?d1 n = logged ?d n"
    using lgw.store_run_in_use [OF _ bm p1, of "ld_base ?d" "ld_blocks ?d"] m(1) by auto
  have "touched (ld_log ?d1) \<inter> used_set (po_bm p) = {}"
    using iu(2) logged_Nil [OF c(2)] m(2) by (auto simp: logged_def)
  moreover note store_run_avoids [OF bm m(4-6) p1]
  ultimately show thesis using that c iu(1) by simp
qed

text \<open>Every entry that held its content before a power failure or a commit holds it after, when its
  blocks are unchanged.\<close>

lemma entries_survive:
  assumes inv: "pool_inv C bs V B bm ddt ct" and av: "avoids {0 ..< ds} ddt"
    and same: "\<And>k e n. map_of ddt k = Some e \<Longrightarrow> n \<in> entry_run e \<Longrightarrow> ds \<le> n \<Longrightarrow> V' n = V n"
  shows "pool_inv C bs V' B bm ddt ct"
proof -
  have "entry_inv C bs V' B bm k e pt" if e: "map_of ddt k = Some e" "entry_inv C bs V B bm k e pt" for k e pt
  proof -
    have "ds \<le> n" if "n \<in> entry_run e" for n
      using that av e(1) by (force simp: avoids_def)
    then have "V' n = V n" if "n \<in> entry_run e" for n
      using that same e(1) by blast
    then show ?thesis using e(2) holds_cong [of C bs V B e pt V'] by (simp add: entry_inv_def)
  qed
  then show ?thesis using inv unfolding pool_inv_def by blast
qed

lemma entry_run_used:
  assumes "pool_inv C bs V B bm ddt ct" "map_of ddt k = Some e"
  shows "entry_run e \<subseteq> used_set bm"
proof -
  obtain pt where "entry_inv C bs V B bm k e pt" by (rule pool_inv_entry [OF assms])
  then show ?thesis by (simp add: entry_inv_def)
qed

text \<open>What \<open>mounted_pool\<close> says of the disk alone, and the pool a mount builds from it.\<close>

definition disk_ok :: "crypto \<Rightarrow> block_store \<Rightarrow> mounted \<Rightarrow> (nat \<Rightarrow> bytes) \<Rightarrow> u64 \<Rightarrow> (key \<rightharpoonup> bytes) \<Rightarrow> bool" where
  "disk_ok C bs st V B ct = (case st of (ub, bm, ddt, tbl) \<Rightarrow>
     log_ok (reboot V B) \<and> committed C V (unat B) st \<and> pool_inv C bs V (unat B) bm ddt ct \<and>
     bm_deferred bm = [] \<and> {0 ..< unat (ub_data_start ub)} \<subseteq> used_set bm \<and> avoids {0 ..< unat (ub_data_start ub)} ddt)"

definition mount_pool :: "mounted \<Rightarrow> (nat \<Rightarrow> bytes) \<Rightarrow> u64 \<Rightarrow> log_device pool" where
  "mount_pool st V B = (case st of (ub, bm, ddt, tbl) \<Rightarrow> \<lparr>po_dev = reboot V B, po_bm = bm, po_ddt = ddt\<rparr>)"

lemma mount_pool_mounted: "disk_ok C bs st V B ct \<Longrightarrow> mounted_pool C bs st (mount_pool st V B) ct"
  by (auto simp: disk_ok_def mounted_pool_def mount_pool_def reboot_def split: prod.splits)

lemma mounted_pool_disk: "mounted_pool C bs st p ct \<Longrightarrow> disk_ok C bs st (ld_base (po_dev p)) (ld_blocks (po_dev p)) ct"
  by (auto simp: disk_ok_def mounted_pool_def reboot_def log_ok_def split: prod.splits)

lemma disk_ok_mount: "disk_ok C bs st V B ct \<Longrightarrow> cow_mount C log_dev (reboot V B) = Ok st"
  using lg.mount_committed [of "reboot V B" C st] by (auto simp: disk_ok_def split: prod.splits)

lemma disk_ok_reads:
  assumes "crypto_ok C" "disk_ok C bs (ub, bm, ddt, tbl) V B ct" "map_of ddt k = Some e"
  obtains q where "ct k = Some q" "blake3 C q = k" "store_read C log_dev bs (reboot V B) (ref_from k e) = Ok q"
proof -
  let ?p = "mount_pool (ub, bm, ddt, tbl) V B"
  have d: "log_ok (reboot V B)" "pool_inv C bs V (unat B) bm ddt ct" using assms(2) by (auto simp: disk_ok_def)
  obtain q where q: "ct k = Some q" by (rule pool_inv_entry [OF d(2) assms(3)])
  have "store_read C log_dev bs (po_dev ?p) (ref_from k e) = Ok q"
    using lg.kept_reads [OF assms(1) _ keeps_refl, of bs ?p ct k e q] d assms(3) q by (simp add: mount_pool_def)
  then show thesis using that q pool_inv_content [OF d(2) q] by (simp add: mount_pool_def)
qed

lemma iter_map_of: "is_iter iter \<Longrightarrow> dedup_ok ddt \<Longrightarrow> map_of (iter ddt) = map_of ddt"
  using is_iter_D(4) [of iter ddt] by (simp add: dedup_ok_def)

lemma used_set_deferred [simp]: "used_set (bm\<lparr>bm_deferred := x\<rparr>) = used_set bm"
  by (simp add: used_set_def bm_get_def)

lemma pool_inv_iter:
  assumes "is_iter iter" "pool_inv C bs V B bm ddt ct"
  shows "pool_inv C bs V B (bm\<lparr>bm_deferred := []\<rparr>) (iter ddt) ct"
proof -
  have dd: "dedup_ok ddt" by (rule pool_inv_facts(3) [OF assms(2)])
  then have "distinct (map fst ddt)" by (simp add: dedup_ok_def)
  note il = is_iter_D [OF assms(1) this]
  have "dedup_ok (iter ddt)" using dd il by (simp add: dedup_ok_def)
  moreover have "bitmap_ok (bm\<lparr>bm_deferred := []\<rparr>)" "used_set (bm\<lparr>bm_deferred := []\<rparr>) = used_set bm"
    "deferred_set (bm\<lparr>bm_deferred := []\<rparr>) = {}"
    using pool_inv_facts(1) [OF assms(2)] by (simp_all add: bitmap_ok_def used_set_def deferred_set_def bm_get_def)
  ultimately show ?thesis using assms(2) unfolding pool_inv_def il(4) by (auto simp: entry_inv_def)
qed

context torn_writes begin

text \<open>A power failure at any point of a transaction and its commit: the next mount finds the state
  before the transaction or the state after it, each with all its blocks.\<close>

lemma txn_crash:
  assumes C: "crypto_ok C" and it: "is_iter iter" and mp: "mounted_pool C bs st p ct" and tx: "txn_ok C ct ops (po_ddt p)"
    and p1: "p1 = store_run C log_dev bs ops p" and ub: "ub = fst st" and B: "B = ld_blocks (po_dev p)"
    and seq: "unat (ub_seq ub) + 1 < 2 ^ 64" and tbl: "itable_ok tbl" "itable_cap tbl = ub_inode_count ub"
    and fit: "snap_len (po_bm p1) (po_ddt p1) tbl \<le> mblocks ub * SIZE"
    and cm: "cow_commit C iter log_dev ub (po_bm p1) (po_ddt p1) tbl ri ni scratch (po_dev p1) = (r, d', bm', s')"
    and cr: "crash_image tear d' V'" and nx: "nx = next_uber ub (po_bm p1) (po_ddt p1) tbl ri ni"
  shows "ld_blocks d' = B \<and> (disk_ok C bs st V' B ct \<or>
    (\<exists>ct1. ran ct1 \<subseteq> ran ct \<union> puts ops \<and>
       disk_ok C bs (nx, (po_bm p1)\<lparr>bm_deferred := []\<rparr>, iter (po_ddt p1), tbl) V' B ct1))"
proof -
  let ?d = "po_dev p" and ?d1 = "po_dev p1" and ?ds = "unat (ub_data_start ub)"
  obtain ub0 bm0 ddt0 tbl0 where s: "st = (ub0, bm0, ddt0, tbl0)" by (cases st)
  have m: "committed C (ld_base ?d) (unat B) st" "pool_inv C bs (ld_base ?d) (unat B) (po_bm p) (po_ddt p) ct"
      "{0 ..< ?ds} \<subseteq> used_set (po_bm p)" "map_of ddt0 = map_of (po_ddt p)"
      "pool_inv C bs (ld_base ?d) (unat B) bm0 ddt0 ct" "avoids {0 ..< ?ds} ddt0" "{0 ..< ?ds} \<subseteq> used_set bm0"
      "bm_deferred bm0 = []"
    using mp unfolding mounted_pool_def ub B s by auto
  obtain ct1 where r: "pool_inv C bs (log_view ?d1) (unat B) (po_bm p1) (po_ddt p1) ct1"
      "ran ct1 \<subseteq> ran ct \<union> puts ops" "log_ok ?d1" "ld_base ?d1 = ld_base ?d" "ld_blocks ?d1 = B"
      "touched (ld_log ?d1) \<inter> used_set (po_bm p) = {}" "used_set (po_bm p) \<subseteq> used_set (po_bm p1)" "avoids {0 ..< ?ds} (po_ddt p1)"
    using txn_run [OF C mp tx p1 refl] unfolding ub B by metis
  have po: "parts_ok (po_bm p1) (po_ddt p1) tbl" using pool_inv_facts(1,3) [OF r(1)] tbl(1) by (simp add: parts_ok_def)
  have st: "committed C (ld_base ?d1) (unat (ld_blocks ?d1)) st" using m(1) r(4,5) by simp
  note cc = crash_commit [OF C it r(3) st ub r(6) m(3) seq po tbl(2) fit nx cm cr, unfolded r(4,5)]
  have bl: "ld_blocks d' = B" and lk: "log_ok d'"
  proof -
    have g: "geom ub (unat (blocks log_dev ?d1))" using st ub by (simp add: committed_def)
    from lg.commit_view [OF C it r(3) g po fit nx refl, of scratch] cm r(5)
    show "ld_blocks d' = B" "log_ok d'" by auto
  qed
  have ok: "log_ok (reboot V' B)" using reboot_ok [OF lk cr] bl by simp
  from cc show ?thesis
  proof
    assume a: "committed C V' (unat B) st \<and> (\<forall>n \<in> used_set (po_bm p). ?ds \<le> n \<longrightarrow> V' n = ld_base ?d n)"
    have "pool_inv C bs V' (unat B) bm0 ddt0 ct"
      using a entry_run_used [OF m(2)] m(4) by (intro entries_survive [OF m(5,6)]) auto
    then show ?thesis using a ok bl m(6-8) by (simp add: disk_ok_def s ub)
  next
    assume a: "committed C V' (unat B) (nx, (po_bm p1)\<lparr>bm_deferred := []\<rparr>, iter (po_ddt p1), tbl) \<and>
      (\<forall>n \<ge> ?ds. V' n = log_view ?d1 n)"
    have "pool_inv C bs V' (unat B) (po_bm p1) (po_ddt p1) ct1"
      using a by (intro entries_survive [OF r(1,8)]) auto
    then have "disk_ok C bs (nx, (po_bm p1)\<lparr>bm_deferred := []\<rparr>, iter (po_ddt p1), tbl) V' B ct1"
      using a ok m(3) r(7,8) pool_inv_iter [OF it] nx iter_map_of [OF it pool_inv_facts(3) [OF r(1)]]
      by (auto simp: disk_ok_def next_uber_def avoids_def)
    then show ?thesis using r(2) bl by blast
  qed
qed

end

text \<open>The same transaction without a power failure: the commit succeeds, and the file system runs on with
  the deferred clusters released.\<close>

lemma txn_commit:
  assumes C: "crypto_ok C" and it: "is_iter iter" and mp: "mounted_pool C bs st p ct" and tx: "txn_ok C ct ops (po_ddt p)"
    and p1: "p1 = store_run C log_dev bs ops p" and ub: "ub = fst st" and B: "B = ld_blocks (po_dev p)"
    and seq: "unat (ub_seq ub) + 1 < 2 ^ 64" and tbl: "itable_ok tbl" "itable_cap tbl = ub_inode_count ub"
    and fit: "snap_len (po_bm p1) (po_ddt p1) tbl \<le> mblocks ub * SIZE"
    and cm: "cow_commit C iter log_dev ub (po_bm p1) (po_ddt p1) tbl ri ni scratch (po_dev p1) = (r, d', bm', s')"
    and nx: "nx = next_uber ub (po_bm p1) (po_ddt p1) tbl ri ni"
  shows "r = Ok nx \<and> ld_blocks d' = B \<and> bm' = apply_deferred (po_bm p1) \<and> (\<exists>ct1. ran ct1 \<subseteq> ran ct \<union> puts ops \<and>
    mounted_pool C bs (nx, (po_bm p1)\<lparr>bm_deferred := []\<rparr>, iter (po_ddt p1), tbl)
      \<lparr>po_dev = reboot (log_view d') B, po_bm = bm', po_ddt = po_ddt p1\<rparr> ct1)"
proof -
  let ?d = "po_dev p" and ?d1 = "po_dev p1" and ?ds = "unat (ub_data_start ub)"
  have m: "committed C (ld_base ?d) (unat B) st" "{0 ..< ?ds} \<subseteq> used_set (po_bm p)"
    using mp unfolding mounted_pool_def ub B by (auto split: prod.splits)
  obtain ct1 where r: "pool_inv C bs (log_view ?d1) (unat B) (po_bm p1) (po_ddt p1) ct1"
      "ran ct1 \<subseteq> ran ct \<union> puts ops" "log_ok ?d1" "ld_base ?d1 = ld_base ?d" "ld_blocks ?d1 = B"
      "touched (ld_log ?d1) \<inter> used_set (po_bm p) = {}" "used_set (po_bm p) \<subseteq> used_set (po_bm p1)" "avoids {0 ..< ?ds} (po_ddt p1)"
      "deferred_set (po_bm p1) \<inter> {0 ..< ?ds} = {}"
    using txn_run [OF C mp tx p1 refl] unfolding ub B by metis
  have po: "parts_ok (po_bm p1) (po_ddt p1) tbl" using pool_inv_facts(1,3) [OF r(1)] tbl(1) by (simp add: parts_ok_def)
  have "log_view ?d1 n = ld_base ?d1 n" if "n \<in> used_set (po_bm p)" for n
    using play_untouched [of n "ld_log ?d1" "ld_base ?d1"] that r(6) by (auto simp: log_view_def)
  then have same: "log_view ?d1 n = ld_base ?d n" if "n < ?ds" for n using that m(2) r(4) by auto
  have g: "geom ub (unat B)" using m(1) ub by (simp add: committed_def)
  have st: "committed C (log_view ?d1) (unat (blocks log_dev ?d1)) st"
  proof -
    note mr = meta_slot_range [OF g]
    have "2 \<le> ?ds" using mr(1,2) by simp
    then have "log_view ?d1 n = ld_base ?d n" if "n < 2 \<or> n \<in> meta_slot ub" for n
      using same that mr(2) by (auto simp: meta_slot_def)
    then show ?thesis using committed_frame [OF m(1) ub, of "log_view ?d1"] uslot_cases [of ub] r(5) by auto
  qed
  obtain s1 d2 where cc: "cow_commit C iter log_dev ub (po_bm p1) (po_ddt p1) tbl ri ni scratch ?d1 = (Ok nx, d2, apply_deferred (po_bm p1), s1)"
      "log_ok d2" "ld_blocks d2 = B" "committed C (log_view d2) (unat B) (nx, (po_bm p1)\<lparr>bm_deferred := []\<rparr>, iter (po_ddt p1), tbl)"
    using lg.commit_committed [OF C it r(3) st ub seq po tbl(2) fit nx, of scratch] r(5) by auto
  then have eq: "r = Ok nx" "d' = d2" "bm' = apply_deferred (po_bm p1)" using cm by auto
  have vw: "log_view d2 n = log_view ?d1 n" if "?ds \<le> n" for n
  proof -
    note ng = next_uber_geom [OF g nx] and mr = meta_slot_range [OF next_uber_geom(1) [OF g nx]]
    have "ub_data_start nx = ub_data_start ub" by (simp add: nx next_uber_def)
    then show ?thesis
      using lg.commit_view [OF C it r(3) _ po fit nx refl, of scratch] g r(5) cc(1) that mr(1,2) uslot_cases [of nx] ng(2)
      by (auto simp: put_meta_def)
  qed
  have inv: "pool_inv C bs (log_view d2) (unat B) (po_bm p1) (po_ddt p1) ct1"
    using vw by (intro entries_survive [OF r(1,8)]) auto
  have "mounted_pool C bs (nx, (po_bm p1)\<lparr>bm_deferred := []\<rparr>, iter (po_ddt p1), tbl)
      \<lparr>po_dev = reboot (log_view d2) B, po_bm = apply_deferred (po_bm p1), po_ddt = po_ddt p1\<rparr> ct1"
    unfolding mounted_pool_def
    using cc(2-4) pool_inv_iter [OF it inv] pool_inv_apply_deferred [OF inv] r(7-9) m(2) nx
      apply_deferred_spec [OF pool_inv_facts(1) [OF inv]] iter_map_of [OF it pool_inv_facts(3) [OF inv]] log_view_length [OF cc(2)]
    by (auto simp: next_uber_def avoids_def reboot_def log_ok_def)
  then show ?thesis using cc(3) eq r(2) by blast
qed

section \<open>Histories\<close>

text \<open>What a transaction may do: blocks from \<open>S\<close> of less than 4 GiB each, reference counts below
  \<open>2 ^ 32\<close>, an inode table of the mounted capacity, and a snapshot that fits the metadata slot.\<close>

definition txn_guard :: "bytes set \<Rightarrow> mounted \<Rightarrow> log_device pool \<Rightarrow> store_op list \<Rightarrow> log_device pool \<Rightarrow> itable \<Rightarrow> bool" where
  "txn_guard S st p ops p1 tbl =
     (refs_below (po_ddt p) (length ops) \<and> length ops < 2 ^ 32 \<and> puts ops \<subseteq> S \<and> (\<forall>pt \<in> puts ops. length pt < 2 ^ 32) \<and>
      unat (ub_seq (fst st)) + 1 < 2 ^ 64 \<and> itable_ok tbl \<and> itable_cap tbl = ub_inode_count (fst st) \<and>
      snap_len (po_bm p1) (po_ddt p1) tbl \<le> mblocks (fst st) * SIZE)"

inductive history ::
  "crypto \<Rightarrow> (dedup_table \<Rightarrow> dedup_table) \<Rightarrow> block_store \<Rightarrow> (bytes \<Rightarrow> bytes \<Rightarrow> bytes \<Rightarrow> bool) \<Rightarrow> bytes set \<Rightarrow>
     mounted \<Rightarrow> log_device pool \<Rightarrow> bool"
  for C iter bs tear S where
  h_format: "log_ok d \<Longrightarrow> fmt_fits (ld_blocks d) ic dr \<Longrightarrow> \<forall>u. parse_uber C (log_view d 0) = Ok u \<longrightarrow> ub_seq u < 1 \<Longrightarrow>
    cow_format C iter log_dev ic dr d = (Ok ub, d1) \<Longrightarrow> cow_mount C log_dev d1 = Ok st \<Longrightarrow>
    history C iter bs tear S st (mount_pool st (log_view d1) (ld_blocks d1))"
| h_commit: "history C iter bs tear S st p \<Longrightarrow> p1 = store_run C log_dev bs ops p \<Longrightarrow> txn_guard S st p ops p1 tbl \<Longrightarrow>
    cow_commit C iter log_dev (fst st) (po_bm p1) (po_ddt p1) tbl ri ni scratch (po_dev p1) = (Ok nx, d', bm', s') \<Longrightarrow>
    history C iter bs tear S (nx, (po_bm p1)\<lparr>bm_deferred := []\<rparr>, iter (po_ddt p1), tbl)
      \<lparr>po_dev = reboot (log_view d') (ld_blocks d'), po_bm = bm', po_ddt = po_ddt p1\<rparr>"
| h_crash: "history C iter bs tear S st p \<Longrightarrow> p1 = store_run C log_dev bs ops p \<Longrightarrow> txn_guard S st p ops p1 tbl \<Longrightarrow>
    cow_commit C iter log_dev (fst st) (po_bm p1) (po_ddt p1) tbl ri ni scratch (po_dev p1) = (r, d', bm', s') \<Longrightarrow>
    crash_image tear d' V' \<Longrightarrow> cow_mount C log_dev (reboot V' (ld_blocks d')) = Ok st' \<Longrightarrow>
    history C iter bs tear S st' (mount_pool st' V' (ld_blocks d'))"

lemma txn_guard_ok:
  assumes "txn_guard S st p ops p1 tbl" "inj_on (blake3 C) S" "ran ct \<subseteq> S"
  shows "txn_ok C ct ops (po_ddt p)"
  using assms inj_on_subset [OF assms(2), of "ran ct \<union> puts ops"] by (simp add: txn_guard_def txn_ok_def)

lemma format_disk_ok:
  assumes C: "crypto_ok C" and it: "is_iter iter" and d: "log_ok d" "fmt_fits (ld_blocks d) ic dr"
    and o: "\<forall>u. parse_uber C (log_view d 0) = Ok u \<longrightarrow> ub_seq u < 1" and f: "cow_format C iter log_dev ic dr d = (Ok ub, d1)"
  shows "disk_ok C bs (ub, fmt_bitmap (ld_blocks d) ic dr, [], itable_new (fmt_inodes ic)) (log_view d1) (ld_blocks d) Map.empty"
    "ld_blocks d1 = ld_blocks d" "log_ok d1"
proof -
  let ?B = "ld_blocks d" and ?bm = "fmt_bitmap (ld_blocks d) ic dr"
  have "\<not> ?B \<le> ub_data_start (fmt_uber ?B ic dr)"
    using f cow_format_eq [of ?B log_dev d, OF _ refl, of C iter ic dr] by auto
  then have room: "2 + 2 * unat (fmt_blocks ?B ic dr) < unat ?B"
    using fmt_data_start [OF d(2)] by (simp add: word_le_nat_alt)
  obtain d2 where d2: "cow_format C iter log_dev ic dr d = (Ok (fmt_uber ?B ic dr), d2)" "log_ok d2" "ld_blocks d2 = ?B"
      "committed C (log_view d2) (unat ?B) (fmt_uber ?B ic dr, ?bm, [], itable_new (fmt_inodes ic))"
    using lg.format_committed [OF C it d(1) _ d(2) room refl o] by auto
  have eq: "ub = fmt_uber ?B ic dr" "d1 = d2" using f d2(1) by auto
  note fp = fmt_parts [OF d(2) room]
  have "used_set ?bm = {0 ..< unat (ub_data_start ub)}" unfolding eq(1) fmt_data_start [OF d(2)] by (rule fp(2))
  then show "disk_ok C bs (ub, ?bm, [], itable_new (fmt_inodes ic)) (log_view d1) ?B Map.empty"
    using fp(1,4,5) d2(2-4) log_view_length [OF d2(2)]
    by (auto simp: disk_ok_def eq pool_inv_def parts_ok_def dedup_ok_def runs_disjoint_def deferred_set_def avoids_def
        log_ok_def reboot_def)
  show "ld_blocks d1 = ld_blocks d" "log_ok d1" using d2(2,3) eq by auto
qed

context torn_writes begin

lemma guarded_crash:
  assumes C: "crypto_ok C" and it: "is_iter iter" and S: "inj_on (blake3 C) S" and ct: "mounted_pool C bs st p ct" "ran ct \<subseteq> S"
    and p1: "p1 = store_run C log_dev bs ops p" and g: "txn_guard S st p ops p1 tbl"
    and cm: "cow_commit C iter log_dev (fst st) (po_bm p1) (po_ddt p1) tbl ri ni scratch (po_dev p1) = (r, d', bm', s')"
    and cr: "crash_image tear d' V'" and nx: "nx = next_uber (fst st) (po_bm p1) (po_ddt p1) tbl ri ni"
  obtains st1 ct1 where "st1 = st \<or> st1 = (nx, (po_bm p1)\<lparr>bm_deferred := []\<rparr>, iter (po_ddt p1), tbl)" "ran ct1 \<subseteq> S"
    "disk_ok C bs st1 V' (ld_blocks d') ct1"
proof -
  have q: "unat (ub_seq (fst st)) + 1 < 2 ^ 64" "itable_ok tbl" "itable_cap tbl = ub_inode_count (fst st)" "puts ops \<subseteq> S"
    "snap_len (po_bm p1) (po_ddt p1) tbl \<le> mblocks (fst st) * SIZE"
    using g unfolding txn_guard_def by simp_all
  note tc = txn_crash [OF C it ct(1) txn_guard_ok [OF g S ct(2)] p1 refl refl q(1-3,5) cm cr nx]
  from tc have bl: "ld_blocks (po_dev p) = ld_blocks d'" by simp
  from tc [unfolded bl] consider "disk_ok C bs st V' (ld_blocks d') ct"
    | ct1 where "ran ct1 \<subseteq> ran ct \<union> puts ops"
        "disk_ok C bs (nx, (po_bm p1)\<lparr>bm_deferred := []\<rparr>, iter (po_ddt p1), tbl) V' (ld_blocks d') ct1" by blast
  then show thesis using that ct(2) q(4) by cases blast+
qed

lemma history_mounted:
  assumes "history C iter bs tear S st p" and C: "crypto_ok C" and it: "is_iter iter" and S: "inj_on (blake3 C) S"
  shows "\<exists>ct. mounted_pool C bs st p ct \<and> ran ct \<subseteq> S"
  using assms(1)
proof induction
  case (h_format d ic dr ub d1 st)
  note fd = format_disk_ok(1) [OF C it h_format(1-4), of bs] format_disk_ok(2,3) [OF C it h_format(1-4)]
  let ?st = "(ub, fmt_bitmap (ld_blocks d) ic dr, [], itable_new (fmt_inodes ic))"
  have "committed C (log_view d1) (unat (blocks log_dev d1)) ?st" using fd(1,2) unfolding disk_ok_def by simp
  then have "st = ?st" using h_format(5) lg.mount_committed [OF fd(3)] by fastforce
  then show ?case using mount_pool_mounted [OF fd(1)] fd(2) by (intro exI [of _ Map.empty]) auto
next
  case (h_commit st p p1 ops tbl ri ni scratch nx d' bm' s')
  then obtain ct where ct: "mounted_pool C bs st p ct" "ran ct \<subseteq> S" by blast
  note g = h_commit(3) [unfolded txn_guard_def]
  from txn_commit [OF C it ct(1) txn_guard_ok [OF h_commit(3) S ct(2)] h_commit(2) refl refl _ _ _ _ h_commit(4) refl] g
  obtain ct1 where "nx = next_uber (fst st) (po_bm p1) (po_ddt p1) tbl ri ni" "ran ct1 \<subseteq> ran ct \<union> puts ops"
    "mounted_pool C bs (nx, (po_bm p1)\<lparr>bm_deferred := []\<rparr>, iter (po_ddt p1), tbl)
      \<lparr>po_dev = reboot (log_view d') (ld_blocks (po_dev p)), po_bm = bm', po_ddt = po_ddt p1\<rparr> ct1" "ld_blocks d' = ld_blocks (po_dev p)"
    by auto
  then show ?case using ct(2) g by auto
next
  case (h_crash st p p1 ops tbl ri ni scratch r d' bm' s' V' st')
  then obtain ct where ct: "mounted_pool C bs st p ct" "ran ct \<subseteq> S" by blast
  obtain st1 ct1 where "disk_ok C bs st1 V' (ld_blocks d') ct1" "ran ct1 \<subseteq> S"
    by (rule guarded_crash [OF C it S ct h_crash(2-5) refl])
  moreover from this h_crash(6) have "st' = st1" using disk_ok_mount by fastforce
  ultimately show ?case using mount_pool_mounted by blast
qed

end

text \<open>A history and a transaction for concrete inputs: a zeroed device of 100 blocks, formatted, then one
  block written.\<close>

abbreviation blank100 :: log_device where
  "blank100 \<equiv> \<lparr>ld_base = \<lambda>_. replicate SIZE 0, ld_blocks = 100, ld_log = []\<rparr>"

abbreviation fresh100 :: mounted where
  "fresh100 \<equiv> (fmt_uber 100 32 0, fmt_bitmap 100 32 0, [], itable_new 32)"

lemma blank_history:
  assumes "crypto_ok C" "is_iter iter"
  obtains V where "history C iter bs tear S fresh100 (mount_pool fresh100 V 100)"
proof -
  note f = image100_facts(3,4) [OF length_replicate [of SIZE 0]]
  have b: "log_ok blank100" "log_view blank100 0 = replicate SIZE 0" by (simp_all add: log_ok_def log_view_def)
  have o: "\<forall>u. parse_uber C (log_view blank100 0) = Ok u \<longrightarrow> ub_seq u < 1" by (simp add: b(2) zero_block_no_uber)
  obtain d1 where d1: "cow_format C iter log_dev 32 0 blank100 = (Ok (fmt_uber 100 32 0), d1)" "log_ok d1" "ld_blocks d1 = 100"
      "committed C (log_view d1) (unat (100 :: u64)) fresh100"
    using lg.format_committed [OF assms b(1) _ f refl o] by auto
  have "cow_mount C log_dev d1 = Ok fresh100" using lg.mount_committed [OF d1(2), of C fresh100] d1(3,4) by simp
  from h_format [OF b(1) _ o d1(1) this, of bs tear S] f(1) d1(3) show thesis by (intro that) simp
qed

lemma length_update_le: "length (AList.update k v al) \<le> Suc (length al)"
  by (induction al) auto

lemma store_write_entries: "length (po_ddt (snd (store_write C dv bs pt p))) \<le> Suc (length (po_ddt p))"
  by (auto simp: store_write_def dedup_incr_def dedup_add_def Let_def length_update_le split: option.splits prod.splits res.splits)

lemma blank_guard:
  assumes h: "history C iter bs sector_tear S fresh100 p" and C: "crypto_ok C" and it: "is_iter iter" and S: "inj_on (blake3 C) S"
    and p: "po_ddt p = []" and pt: "pt \<in> S" "length pt < 2 ^ 32" and p1: "p1 = store_run C log_dev bs [PutOp pt] p"
  shows "txn_guard S fresh100 p [PutOp pt] p1 (itable_new 32)"
proof -
  obtain ct where ct: "mounted_pool C bs fresh100 p ct" "ran ct \<subseteq> S" using sect.history_mounted [OF h C it S] by blast
  have pp: "puts [PutOp pt] = {pt}" by (auto simp: puts_def)
  have "inj_on (blake3 C) (ran ct \<union> {pt})" by (rule inj_on_subset [OF S]) (use pt(1) ct(2) in auto)
  then have tx: "txn_ok C ct [PutOp pt] (po_ddt p)" using pt(2) unfolding txn_ok_def pp by (simp add: p refs_below_def)
  have "pool_inv C bs (ld_base (po_dev p)) (unat (ld_blocks (po_dev p))) (fmt_bitmap 100 32 0) [] ct"
    using ct(1) by (simp add: mounted_pool_def)
  then have tot: "unat (ld_blocks (po_dev p)) = 100"
    using pool_inv_facts(2) fmt_parts(5) [OF image100_facts(3,4) [OF length_replicate [of SIZE 0]]] by fastforce
  obtain ct1 where pi: "pool_inv C bs (log_view (po_dev p1)) (unat (ld_blocks (po_dev p))) (po_bm p1) (po_ddt p1) ct1"
    by (rule txn_run [OF C ct(1) tx p1 refl])
  then have "bitmap_ok (po_bm p1)" "bm_total (po_bm p1) = 100" using pool_inv_facts(1,2) [OF pi] tot by (simp_all add: word_unat_eq_iff)
  moreover have "unat (div_ceil (100 :: u64) 64) = 2" by code_simp
  ultimately have "bitmap_marshal_len (po_bm p1) = 24" by (simp add: bitmap_ok_def bitmap_marshal_len_def)
  moreover have "length (po_ddt p1) \<le> 1" using store_write_entries [of C log_dev bs pt p] by (simp add: p1 store_run_def p)
  ultimately have "snap_len (po_bm p1) (po_ddt p1) (itable_new 32) \<le> 1000"
    by (simp add: snap_len_def dedup_marshal_len_def REC_SIZE_def itable_marshal_len_def itable_new_def)
  moreover have "fmt_blocks 100 32 0 = 2" by code_simp
  ultimately show ?thesis using pt itable_new_ok [of 32]
    by (simp add: txn_guard_def p pp refs_below_def fmt_uber_def itable_cap_def itable_new_def SIZE_def)
qed

text \<open>C1. Crash recovery. Take any state a history reaches, run any guarded sequence of store writes and
  releases on it and then \<^verbatim>\<open>commit\<close>, and cut the power at any point of the recorded device
  operations: writes not yet synced may be lost or torn, at sector granularity or (with a checksum
  that tells) at byte granularity. Then \<^verbatim>\<open>mount\<close> succeeds on what is left; it loads either the state
  of the last commit or the complete state of the new one; and every entry of the deduplication
  table it loads reads back as the content it is the hash of.\<close>

theorem crash_recovers:
  assumes "crypto_ok C" "is_iter iter" "inj_on (blake3 C) S" "tear = sector_tear \<or> tear = byte_tear C"
    and "history C iter bs tear S st p" "p1 = store_run C log_dev bs ops p" "txn_guard S st p ops p1 tbl"
    and "cow_commit C iter log_dev (fst st) (po_bm p1) (po_ddt p1) tbl ri ni scratch (po_dev p1) = (r, d', bm', s')"
    and "crash_image tear d' V'"
  shows "\<exists>ub bm ddt itab. cow_mount C log_dev (reboot V' (ld_blocks d')) = Ok (ub, bm, ddt, itab) \<and>
    ((ub, bm, ddt, itab) = st \<or>
     (ub, bm, ddt, itab) = (next_uber (fst st) (po_bm p1) (po_ddt p1) tbl ri ni, (po_bm p1)\<lparr>bm_deferred := []\<rparr>, iter (po_ddt p1), tbl)) \<and>
    (\<forall>k e. map_of ddt k = Some e \<longrightarrow>
       (\<exists>q \<in> S. blake3 C q = k \<and> store_read C log_dev bs (reboot V' (ld_blocks d')) (ref_from k e) = Ok q))"
proof -
  have tw: "torn_writes C tear" using assms(4) sect.torn_writes_axioms byte.torn_writes_axioms by auto
  obtain ct where ct: "mounted_pool C bs st p ct" "ran ct \<subseteq> S"
    using torn_writes.history_mounted [OF tw assms(5,1-3)] by blast
  obtain ub bm ddt itab ct1 where s: "(ub, bm, ddt, itab) = st \<or> (ub, bm, ddt, itab) =
      (next_uber (fst st) (po_bm p1) (po_ddt p1) tbl ri ni, (po_bm p1)\<lparr>bm_deferred := []\<rparr>, iter (po_ddt p1), tbl)"
      "ran ct1 \<subseteq> S" "disk_ok C bs (ub, bm, ddt, itab) V' (ld_blocks d') ct1"
    by (rule torn_writes.guarded_crash [OF tw assms(1-3) ct assms(6-9) refl]) (metis prod_cases4)
  have "\<exists>q \<in> S. blake3 C q = k \<and> store_read C log_dev bs (reboot V' (ld_blocks d')) (ref_from k e) = Ok q"
    if "map_of ddt k = Some e" for k e
    using disk_ok_reads [OF assms(1) s(3) that] s(2) by (metis ranI subsetD)
  then show ?thesis using s(1) disk_ok_mount [OF s(3)] by blast
qed

theorem crash_recovers_witness:
  "\<exists>p r d' bm' s' ub bm ddt itab. history plain_crypto id \<lparr>bs_cipher = None\<rparr> sector_tear {[1, 2, 3]} fresh100 p \<and>
     cow_commit plain_crypto id log_dev (fmt_uber 100 32 0) (po_bm (store_run plain_crypto log_dev \<lparr>bs_cipher = None\<rparr> [PutOp [1, 2, 3]] p))
       (po_ddt (store_run plain_crypto log_dev \<lparr>bs_cipher = None\<rparr> [PutOp [1, 2, 3]] p)) (itable_new 32) 0 5 None
       (po_dev (store_run plain_crypto log_dev \<lparr>bs_cipher = None\<rparr> [PutOp [1, 2, 3]] p)) = (r, d', bm', s') \<and>
     crash_image sector_tear d' (ld_base d') \<and>
     cow_mount plain_crypto log_dev (reboot (ld_base d') (ld_blocks d')) = Ok (ub, bm, ddt, itab)"
proof -
  let ?bs = "\<lparr>bs_cipher = None\<rparr>" and ?S = "{[1, 2, 3 :: u8]}" and ?C = plain_crypto
  have i: "is_iter id" by (simp add: is_iter_def)
  obtain V where h: "history ?C id ?bs sector_tear ?S fresh100 (mount_pool fresh100 V 100)" by (rule blank_history [OF plain_crypto_ok i])
  let ?p = "mount_pool fresh100 V 100" and ?p1 = "store_run ?C log_dev ?bs [PutOp [1, 2, 3]] (mount_pool fresh100 V 100)"
  have g: "txn_guard ?S fresh100 ?p [PutOp [1, 2, 3]] ?p1 (itable_new 32)"
    by (rule blank_guard [OF h plain_crypto_ok i]) (simp_all add: mount_pool_def)
  obtain r d' bm' s' where w: "cow_commit ?C id log_dev (fst fresh100) (po_bm ?p1) (po_ddt ?p1) (itable_new 32) 0 5 None (po_dev ?p1) = (r, d', bm', s')"
    by (metis prod_cases4)
  have c: "crash_image sector_tear d' (ld_base d')" 
    using crash_done unfolding crash_image_def by (metis append_Nil play.simps(1))
  from crash_recovers [OF plain_crypto_ok i _ disjI1 [OF refl] h refl g w c] h w c show ?thesis by fastforce
qed

text \<open>C2. Histories: on a device whose slot 0 held no valid uberblock when it was formatted, whatever
  transactions, commits, power failures and remounts followed, the device always mounts to the last committed state, every live entry of the deduplication table reads
  back as the content it is the hash of, its clusters are marked used in the allocation bitmap, and
  no two entries share a cluster.\<close>

theorem history_consistent:
  assumes "crypto_ok C" "is_iter iter" "inj_on (blake3 C) S" "tear = sector_tear \<or> tear = byte_tear C"
    and "history C iter bs tear S st p"
  shows "cow_mount C log_dev (po_dev p) = Ok st \<and>
    (\<forall>k e. map_of (po_ddt p) k = Some e \<longrightarrow>
       (\<exists>q \<in> S. blake3 C q = k \<and> store_read C log_dev bs (po_dev p) (ref_from k e) = Ok q) \<and>
       entry_run e \<subseteq> used_set (po_bm p)) \<and>
    runs_disjoint (map_of (po_ddt p))"
proof -
  have tw: "torn_writes C tear" using assms(4) sect.torn_writes_axioms byte.torn_writes_axioms by auto
  obtain ct where ct: "mounted_pool C bs st p ct" "ran ct \<subseteq> S"
    using torn_writes.history_mounted [OF tw assms(5,1-3)] by blast
  have inv: "log_ok (po_dev p)" "pool_inv C bs (log_view (po_dev p)) (unat (blocks log_dev (po_dev p))) (po_bm p) (po_ddt p) ct"
      "po_dev p = reboot (ld_base (po_dev p)) (ld_blocks (po_dev p))"
    using ct(1) by (auto simp: mounted_pool_def log_view_def reboot_def split: prod.splits)
  have "\<exists>q \<in> S. blake3 C q = k \<and> store_read C log_dev bs (po_dev p) (ref_from k e) = Ok q" if e: "map_of (po_ddt p) k = Some e" for k e
  proof -
    obtain q where q: "ct k = Some q" by (rule pool_inv_entry [OF inv(2) e])
    have "store_read C log_dev bs (po_dev p) (ref_from k e) = Ok q"
      using lg.kept_reads [OF assms(1) inv(2) keeps_refl inv(1) e q] by simp
    then show ?thesis using pool_inv_content [OF inv(2) q] q ct(2) by (auto intro: ranI)
  qed
  moreover have "cow_mount C log_dev (po_dev p) = Ok st" using disk_ok_mount [OF mounted_pool_disk [OF ct(1)]] inv(3) by metis
  ultimately show ?thesis using entry_run_used [OF inv(2)] pool_inv_facts(5) [OF inv(2)] by blast
qed

theorem history_consistent_witness:
  "\<exists>p. history plain_crypto id \<lparr>bs_cipher = None\<rparr> sector_tear {[1, 2, 3]} fresh100 p \<and>
     cow_mount plain_crypto log_dev (po_dev p) = Ok fresh100"
proof -
  have i: "is_iter id" by (simp add: is_iter_def)
  obtain V where h: "history plain_crypto id \<lparr>bs_cipher = None\<rparr> sector_tear {[1, 2, 3]} fresh100 (mount_pool fresh100 V 100)"
    by (rule blank_history [OF plain_crypto_ok i])
  from history_consistent [OF plain_crypto_ok i _ disjI1 [OF refl] h] h show ?thesis by auto
qed

text \<open>C3. In every state a history reaches, a guarded transaction can be committed: \<^verbatim>\<open>commit\<close> returns the
  new uberblock, the deferred clusters are released in memory, and the next mount loads exactly the
  committed bitmap, deduplication table and inode table, with the root and next inode numbers given.\<close>

theorem history_commits:
  assumes "crypto_ok C" "is_iter iter" "inj_on (blake3 C) S" "tear = sector_tear \<or> tear = byte_tear C"
    and "history C iter bs tear S st p" "p1 = store_run C log_dev bs ops p" "txn_guard S st p ops p1 tbl"
  shows "\<exists>nx d' s'. cow_commit C iter log_dev (fst st) (po_bm p1) (po_ddt p1) tbl ri ni scratch (po_dev p1) =
      (Ok nx, d', apply_deferred (po_bm p1), s') \<and>
    cow_mount C log_dev (reboot (log_view d') (ld_blocks d')) = Ok (nx, (po_bm p1)\<lparr>bm_deferred := []\<rparr>, iter (po_ddt p1), tbl) \<and>
    ub_root_inode nx = ri \<and> ub_next_inode nx = ni"
proof -
  let ?nx = "next_uber (fst st) (po_bm p1) (po_ddt p1) tbl ri ni"
  have tw: "torn_writes C tear" using assms(4) sect.torn_writes_axioms byte.torn_writes_axioms by auto
  obtain ct where ct: "mounted_pool C bs st p ct" "ran ct \<subseteq> S"
    using torn_writes.history_mounted [OF tw assms(5,1-3)] by blast
  obtain r d' bm' s' where w: "cow_commit C iter log_dev (fst st) (po_bm p1) (po_ddt p1) tbl ri ni scratch (po_dev p1) = (r, d', bm', s')"
    by (metis prod_cases4)
  have q: "unat (ub_seq (fst st)) + 1 < 2 ^ 64" "itable_ok tbl" "itable_cap tbl = ub_inode_count (fst st)"
    "snap_len (po_bm p1) (po_ddt p1) tbl \<le> mblocks (fst st) * SIZE"
    using assms(7) unfolding txn_guard_def by simp_all
  from txn_commit [OF assms(1,2) ct(1) txn_guard_ok [OF assms(7,3) ct(2)] assms(6) refl refl q w refl]
  obtain ct1 where c: "r = Ok ?nx" "ld_blocks d' = ld_blocks (po_dev p)" "bm' = apply_deferred (po_bm p1)"
      "mounted_pool C bs (?nx, (po_bm p1)\<lparr>bm_deferred := []\<rparr>, iter (po_ddt p1), tbl)
        \<lparr>po_dev = reboot (log_view d') (ld_blocks (po_dev p)), po_bm = bm', po_ddt = po_ddt p1\<rparr> ct1"
    by auto
  have "cow_mount C log_dev (reboot (log_view d') (ld_blocks d')) = Ok (?nx, (po_bm p1)\<lparr>bm_deferred := []\<rparr>, iter (po_ddt p1), tbl)"
    using disk_ok_mount [OF mounted_pool_disk [OF c(4)]] c(2) by (simp add: reboot_def)
  then show ?thesis using w c(1,3) by (auto simp: next_uber_def)
qed

theorem history_commits_witness:
  "\<exists>p nx d' s' bm' st'. history plain_crypto id \<lparr>bs_cipher = None\<rparr> sector_tear {[1, 2, 3]} fresh100 p \<and>
     cow_commit plain_crypto id log_dev (fmt_uber 100 32 0) (po_bm (store_run plain_crypto log_dev \<lparr>bs_cipher = None\<rparr> [PutOp [1, 2, 3]] p))
       (po_ddt (store_run plain_crypto log_dev \<lparr>bs_cipher = None\<rparr> [PutOp [1, 2, 3]] p)) (itable_new 32) 0 5 None
       (po_dev (store_run plain_crypto log_dev \<lparr>bs_cipher = None\<rparr> [PutOp [1, 2, 3]] p)) = (Ok nx, d', bm', s') \<and>
     cow_mount plain_crypto log_dev (reboot (log_view d') (ld_blocks d')) = Ok st' \<and> fst st' = nx \<and> ub_next_inode nx = 5"
proof -
  let ?bs = "\<lparr>bs_cipher = None\<rparr>" and ?S = "{[1, 2, 3 :: u8]}" and ?C = plain_crypto
  have i: "is_iter id" by (simp add: is_iter_def)
  obtain V where h: "history ?C id ?bs sector_tear ?S fresh100 (mount_pool fresh100 V 100)" by (rule blank_history [OF plain_crypto_ok i])
  let ?p = "mount_pool fresh100 V 100" and ?p1 = "store_run ?C log_dev ?bs [PutOp [1, 2, 3]] (mount_pool fresh100 V 100)"
  have g: "txn_guard ?S fresh100 ?p [PutOp [1, 2, 3]] ?p1 (itable_new 32)"
    by (rule blank_guard [OF h plain_crypto_ok i]) (simp_all add: mount_pool_def)
  from history_commits [OF plain_crypto_ok i _ disjI1 [OF refl] h refl g, of 0 5 None] h show ?thesis by fastforce
qed

end
