(* ===== verification/Records.thy ===== *)
theory Records
  imports Dir Store Cow
begin

text \<open>
  The pure part of \<^verbatim>\<open>rust/bloomfs-fs\<close>: its errors, the record-size policy, the cutting of file
  contents into records, the block-map blob that lists the records of a file, and the directory
  pages.  \<open>String::from_utf8_lossy\<close>, which the page decoder applies to names, is written out.

  The lemmas show that the records of a file are its contents, that reference lists and pages read
  back as they were written, and when writing a page panics.
\<close>

section \<open>Errors and constants\<close>

datatype fs_error = NotDir | NotFile | FsExists | NotFound | FsCorrupt | NoInodes | IsDir | NotEmpty
  | Invalid | Permission | FsNoSpace | FsCow cow_error | FsStore store_error | FsInode inode_error

definition DEFAULT_INODE_COUNT :: u64 where
  "DEFAULT_INODE_COUNT = 4096"

definition DEFAULT_DDT_RESERVE :: u64 where
  "DEFAULT_DDT_RESERVE = 256 * 1024"

definition DIR_PAGE_SIZE :: nat where
  "DIR_PAGE_SIZE = 4096"

section \<open>Records\<close>

definition record_size_for :: "u64 \<Rightarrow> u64 \<times> u8" where
  "record_size_for sz =
     (if sz < 32 * 1024 then (4 * 1024, 12)
      else if sz < 256 * 1024 then (8 * 1024, 13)
      else if sz < 2 * 1024 * 1024 then (16 * 1024, 14)
      else (32 * 1024, 15))"

text \<open>The loop of \<open>split_records\<close> from offset \<open>off\<close> on.  Its caller passes a size of
  \<open>record_size_for\<close>, which is not zero; with a record size of zero the loop would not end, and
  the model stops there.\<close>

function split_loop :: "bytes \<Rightarrow> nat \<Rightarrow> nat \<Rightarrow> bytes list" where
  "split_loop blob rs off =
     (if off < length blob \<and> 0 < rs
      then let e = min (off + rs) (length blob) in slice off e blob # split_loop blob rs e
      else [])"
  by pat_completeness auto
termination by (relation "measure (\<lambda>(blob, rs, off). length blob - off)") auto

declare split_loop.simps [simp del]

definition split_records :: "bytes \<Rightarrow> u64 \<Rightarrow> bytes list" where
  "split_records blob rs = split_loop blob (unat rs) 0"

section \<open>Reference lists\<close>

definition encode_refs :: "ref list \<Rightarrow> bytes" where
  "encode_refs refs =
     copy_all ((0, le_bytes 4 (of_nat (length refs) :: u32)) #
       map (\<lambda>(i, r). (4 + i * REF_SIZE, ref_marshal r)) (enumerate 0 refs))
       (replicate (4 + length refs * REF_SIZE) 0)"

definition decode_refs :: "bytes \<Rightarrow> (fs_error, ref list) res" where
  "decode_refs b =
     (if length b < 4 then Err FsCorrupt
      else let n = unat (from_le (slice 0 4 b) :: u32) in
        if length b < 4 + n * REF_SIZE then Err FsCorrupt
        else Ok (map (\<lambda>i. ref_unmarshal (drop (4 + i * REF_SIZE) b)) [0..<n]))"

section \<open>Lossy decoding of UTF-8\<close>

text \<open>\<open>String::from_utf8_lossy\<close>: every maximal ill-formed sequence becomes one U+FFFD.  \<open>utf8_scan b bs\<close>
  says for the first byte \<open>b\<close> and the bytes after it whether a character starts there and how many
  bytes it, or the ill-formed sequence, has.\<close>

definition byte_at :: "bytes \<Rightarrow> nat \<Rightarrow> u8" where
  "byte_at bs i = (if i < length bs then bs ! i else 0)"

definition is_cont :: "u8 \<Rightarrow> bool" where
  "is_cont b = (b AND 192 = 128)"

definition second_of_3 :: "u8 \<Rightarrow> u8 \<Rightarrow> bool" where
  "second_of_3 b c =
     (if b = 0xE0 then 0xA0 \<le> c \<and> c \<le> 0xBF
      else if b = 0xED then 0x80 \<le> c \<and> c \<le> 0x9F
      else 0x80 \<le> c \<and> c \<le> 0xBF)"

definition second_of_4 :: "u8 \<Rightarrow> u8 \<Rightarrow> bool" where
  "second_of_4 b c =
     (if b = 0xF0 then 0x90 \<le> c \<and> c \<le> 0xBF
      else if b = 0xF4 then 0x80 \<le> c \<and> c \<le> 0x8F
      else 0x80 \<le> c \<and> c \<le> 0xBF)"

definition utf8_scan :: "u8 \<Rightarrow> bytes \<Rightarrow> bool \<times> nat" where
  "utf8_scan b bs =
     (if b < 128 then (True, 1)
      else if 0xC2 \<le> b \<and> b \<le> 0xDF then (if is_cont (byte_at bs 0) then (True, 2) else (False, 1))
      else if 0xE0 \<le> b \<and> b \<le> 0xEF then
        (if \<not> second_of_3 b (byte_at bs 0) then (False, 1)
         else if \<not> is_cont (byte_at bs 1) then (False, 2) else (True, 3))
      else if 0xF0 \<le> b \<and> b \<le> 0xF4 then
        (if \<not> second_of_4 b (byte_at bs 0) then (False, 1)
         else if \<not> is_cont (byte_at bs 1) then (False, 2)
         else if \<not> is_cont (byte_at bs 2) then (False, 3) else (True, 4))
      else (False, 1))"

fun from_utf8_lossy :: "bytes \<Rightarrow> bytes" where
  "from_utf8_lossy [] = []"
| "from_utf8_lossy (b # bs) =
     (case utf8_scan b bs of (ok, n) \<Rightarrow>
        (if ok then b # take (n - 1) bs else [0xEF, 0xBF, 0xBD]) @ from_utf8_lossy (drop (n - 1) bs))"

text \<open>The invariant of Rust's string types.\<close>

fun is_utf8 :: "bytes \<Rightarrow> bool" where
  "is_utf8 [] = True"
| "is_utf8 (b # bs) = (case utf8_scan b bs of (ok, n) \<Rightarrow> ok \<and> is_utf8 (drop (n - 1) bs))"

lemma from_utf8_lossy_valid: "is_utf8 b \<Longrightarrow> from_utf8_lossy b = b"
  by (induction b rule: from_utf8_lossy.induct) (auto split: prod.splits)

section \<open>Directory pages\<close>

fun encode_entries :: "dir_entry list \<Rightarrow> nat \<Rightarrow> bytes \<Rightarrow> (fs_error, bytes) res" where
  "encode_entries [] off buf = Ok buf"
| "encode_entries (e # es) off buf =
     (if off + 10 > length buf then Panic
      else
        let buf = copy_at off (le_bytes 2 (of_nat (length (dent_name e)) :: u16)) buf;
            buf = copy_at (off + 2) (le_bytes 8 (dent_inode e)) buf;
            off = off + 10
        in if off + length (dent_name e) > length buf then Panic
           else encode_entries es (off + length (dent_name e)) (copy_at off (dent_name e) buf))"

definition encode_dir_page :: "dir_entry list \<Rightarrow> (fs_error, bytes) res" where
  "encode_dir_page entries =
     encode_entries entries 4 (copy_at 0 (le_bytes 4 (of_nat (length entries) :: u32)) (replicate DIR_PAGE_SIZE 0))"

fun decode_entries :: "nat \<Rightarrow> bytes \<Rightarrow> nat \<Rightarrow> dir_entry list \<Rightarrow> (fs_error, dir_entry list \<times> nat) res" where
  "decode_entries 0 b off out = Ok (out, off)"
| "decode_entries (Suc n) b off out =
     (if off + 10 > length b then Err FsCorrupt
      else
        let nl = unat (from_le (slice off (off + 2) b) :: u16);
            ino = from_le (slice (off + 2) (off + 10) b);
            off = off + 10
        in if off + nl > length b then Err FsCorrupt
           else decode_entries n b (off + nl)
                  (out @ [\<lparr>dent_name = from_utf8_lossy (slice off (off + nl) b), dent_inode = ino\<rparr>]))"

definition decode_dir_page :: "bytes \<Rightarrow> (fs_error, dir_entry list \<times> nat) res" where
  "decode_dir_page b =
     (if length b < 4 then Err FsCorrupt
      else decode_entries (unat (from_le (slice 0 4 b) :: u32)) b 4 [])"

section \<open>Records are the contents\<close>

lemma record_size_for_pos:
  "0 < unat (fst (record_size_for sz))" "fst (record_size_for sz) = push_bit (unat (snd (record_size_for sz))) 1"
  "unat (fst (record_size_for sz)) \<le> 32768"
  by (simp_all add: record_size_for_def push_bit_eq_mult)

text \<open>The contents cut into pieces of \<open>rs\<close> bytes, the last one possibly shorter.\<close>

definition nchunks :: "nat \<Rightarrow> nat \<Rightarrow> nat" where
  "nchunks rs n = (n + rs - 1) div rs"

definition chunk :: "nat \<Rightarrow> bytes \<Rightarrow> nat \<Rightarrow> bytes" where
  "chunk rs b i = take rs (drop (i * rs) b)"

definition chunks :: "nat \<Rightarrow> bytes \<Rightarrow> bytes list" where
  "chunks rs b = map (chunk rs b) [0..<nchunks rs (length b)]"

lemma nchunks_0 [simp]: "0 < rs \<Longrightarrow> nchunks rs 0 = 0"
  by (simp add: nchunks_def)

lemma nchunks_step:
  assumes "0 < rs" "0 < n"
  shows "nchunks rs n = Suc (nchunks rs (n - rs))"
proof (cases "n \<le> rs")
  case True
  have "n + rs - 1 = rs + (n - 1)" "(n - 1) div rs = 0" using assms True by simp_all
  then have "nchunks rs n = 1" using assms(1) unfolding nchunks_def by (simp only: div_add_self1)
  then show ?thesis using True assms by simp
next
  case False
  then have "n + rs - 1 = rs + (n - rs + rs - 1)" using assms by linarith
  then show ?thesis using assms(1) by (simp only: nchunks_def div_add_self1)
qed

lemma chunk_drop: "chunk rs (drop rs b) i = chunk rs b (Suc i)"
  by (simp add: chunk_def add.commute)

lemma chunks_Nil [simp]: "0 < rs \<Longrightarrow> chunks rs [] = []"
  by (simp add: chunks_def)

lemma chunks_step:
  assumes "0 < rs" "b \<noteq> []"
  shows "chunks rs b = take rs b # chunks rs (drop rs b)"
proof -
  have "[0..<Suc m] = 0 # map Suc [0..<m]" for m by (simp add: map_Suc_upt upt_conv_Cons del: upt_Suc)
  then have "chunks rs b = chunk rs b 0 # map (\<lambda>i. chunk rs b (Suc i)) [0..<nchunks rs (length b - rs)]"
    using assms by (simp add: chunks_def nchunks_step [of rs "length b"] comp_def del: upt_Suc)
  then show ?thesis by (simp add: chunks_def chunk_drop [symmetric]) (simp add: chunk_def)
qed

lemma concat_chunks: "0 < rs \<Longrightarrow> concat (chunks rs b) = b"
proof (induction "length b" arbitrary: b rule: less_induct)
  case less
  show ?case
  proof (cases "b = []")
    case False
    then have "concat (chunks rs (drop rs b)) = drop rs b" using less by simp
    then show ?thesis using less.prems False by (simp add: chunks_step)
  qed (use less in simp)
qed

lemma length_chunks [simp]: "length (chunks rs b) = nchunks rs (length b)"
  by (simp add: chunks_def)

lemma nth_chunks: "i < nchunks rs (length b) \<Longrightarrow> chunks rs b ! i = chunk rs b i"
  by (simp add: chunks_def)

lemma split_loop_eq: "0 < rs \<Longrightarrow> split_loop blob rs off = chunks rs (drop off blob)"
proof (induction blob rs off rule: split_loop.induct)
  case (1 blob rs off)
  show ?case
  proof (cases "off < length blob")
    case True
    define e where "e = min (off + rs) (length blob)"
    have "split_loop blob rs off = slice off e blob # split_loop blob rs e"
      using 1 True by (subst split_loop.simps) (simp add: Let_def e_def)
    also have "split_loop blob rs e = chunks rs (drop e blob)" using 1 True by (simp add: e_def)
    also have "drop e blob = drop rs (drop off blob)" by (auto simp: e_def min_def add.commute)
    also have "slice off e blob = take rs (drop off blob)" by (auto simp: e_def min_def slice_def)
    finally show ?thesis using True 1(2) by (simp add: chunks_step)
  next
    case False
    then show ?thesis using 1(2) by (subst split_loop.simps) simp
  qed
qed

lemma split_records_eq: "0 < unat rs \<Longrightarrow> split_records blob rs = chunks (unat rs) blob"
  by (simp add: split_records_def split_loop_eq)

section \<open>Round trips\<close>

lemma contig_enumerate_refs:
  "(\<And>r. r \<in> set refs \<Longrightarrow> length (f r) = k) \<Longrightarrow>
   contig (off + n * k) (map (\<lambda>(i, r). (off + i * k, f r)) (enumerate n refs))"
proof (induction refs arbitrary: n)
  case (Cons r refs)
  have "contig (off + Suc n * k) (map (\<lambda>(i, r). (off + i * k, f r)) (enumerate (Suc n) refs))"
    using Cons.prems by (intro Cons.IH) simp
  then show ?case using Cons.prems [of r] by (simp add: ac_simps)
qed simp

lemma snd_enumerate_map: "map snd (map (\<lambda>(i, r). (g i, f r)) (enumerate n refs)) = map f refs"
  by (induction refs arbitrary: n) auto

text \<open>References as the store hands them out: with a 32-byte hash.\<close>

definition ref_ok :: "ref \<Rightarrow> bool" where
  "ref_ok r = (length (rf_hash r) = 32)"

lemma length_ref_marshal: "ref_ok r \<Longrightarrow> length (ref_marshal r) = REF_SIZE"
  by (simp add: ref_ok_def ref_marshal_eq ref_enc_def REF_SIZE_def)

lemma encode_refs_eq:
  assumes "\<And>r. r \<in> set refs \<Longrightarrow> ref_ok r"
  shows "encode_refs refs = le_bytes 4 (of_nat (length refs) :: u32) @ concat (map ref_marshal refs)"
proof -
  let ?h = "le_bytes 4 (of_nat (length refs) :: u32)"
  let ?fs = "(0, ?h) # map (\<lambda>(i, r). (4 + i * REF_SIZE, ref_marshal r)) (enumerate 0 refs)"
  have l: "length (ref_marshal r) = REF_SIZE" if "r \<in> set refs" for r using assms that length_ref_marshal by blast
  have s: "concat (map snd ?fs) = ?h @ concat (map ref_marshal refs)"
    using snd_enumerate_map [of "\<lambda>i. 4 + i * REF_SIZE" ref_marshal 0 refs] by simp
  have lc: "length (concat (map snd ?fs)) = 4 + length refs * REF_SIZE"
    unfolding s using length_concat_chunks [of refs ref_marshal REF_SIZE] l by simp
  have "contig 0 ?fs" using contig_enumerate_refs [of refs ref_marshal REF_SIZE 4 0] l by simp
  then have "copy_all ?fs (replicate (4 + length refs * REF_SIZE) 0) = copy_at 0 (concat (map snd ?fs)) (replicate (4 + length refs * REF_SIZE) 0)"
    using lc by (intro copy_all_contig) simp_all
  also have "\<dots> = concat (map snd ?fs)" using lc by (intro copy_at_full) simp
  finally show ?thesis unfolding encode_refs_def s .
qed

lemma ref_unmarshal_marshal: "ref_ok r \<Longrightarrow> ref_unmarshal (ref_marshal r @ rest) = r"
  by (simp add: ref_ok_def ref_marshal_eq ref_unmarshal_enc)

lemma decode_encode_refs:
  assumes "\<And>r. r \<in> set refs \<Longrightarrow> ref_ok r" "length refs < 2 ^ 32"
  shows "decode_refs (encode_refs refs) = Ok refs"
proof -
  let ?c = "concat (map ref_marshal refs)"
  have l: "length (ref_marshal r) = REF_SIZE" if "r \<in> set refs" for r using assms(1) that length_ref_marshal by blast
  have lc: "length ?c = length refs * REF_SIZE" using length_concat_chunks [of refs ref_marshal REF_SIZE] l by simp
  have n: "unat (from_le (le_bytes 4 (of_nat (length refs) :: u32)) :: u32) = length refs"
    using assms(2) by (simp add: codec)
  have "ref_unmarshal (drop (i * REF_SIZE) ?c) = refs ! i" if i: "i < length refs" for i
  proof -
    have "drop (i * REF_SIZE) ?c = concat (map ref_marshal (drop i refs))"
      using drop_concat_chunks [of refs ref_marshal REF_SIZE i] l i by simp
    also have "\<dots> = ref_marshal (refs ! i) @ concat (map ref_marshal (drop (Suc i) refs))"
      using i by (simp add: Cons_nth_drop_Suc [symmetric])
    finally show ?thesis using assms(1) i by (simp add: ref_unmarshal_marshal)
  qed
  then have "map (\<lambda>i. ref_unmarshal (drop (i * REF_SIZE) ?c)) [0..<length refs] = refs"
    by (intro nth_equalityI) auto
  then show ?thesis
    using assms(1) lc n by (simp add: decode_refs_def encode_refs_eq Let_def)
qed

text \<open>The bytes of an entry in a page, and the entries a page of \<open>DIR_PAGE_SIZE\<close> bytes can hold.\<close>

definition entry_enc :: "dir_entry \<Rightarrow> bytes" where
  "entry_enc e = le_bytes 2 (of_nat (length (dent_name e)) :: u16) @ le_bytes 8 (dent_inode e) @ dent_name e"

definition page_used :: "dir_entry list \<Rightarrow> nat" where
  "page_used es = 4 + sum_list (map (\<lambda>e. 10 + length (dent_name e)) es)"

definition page_ok :: "dir_entry list \<Rightarrow> bool" where
  "page_ok es = (page_used es \<le> DIR_PAGE_SIZE \<and> (\<forall>e \<in> set es. is_utf8 (dent_name e)))"

lemma length_entry_enc: "length (entry_enc e) = 10 + length (dent_name e)"
  by (simp add: entry_enc_def)

lemma length_concat_entries: "length (concat (map entry_enc es)) = sum_list (map (\<lambda>e. 10 + length (dent_name e)) es)"
  by (induction es) (simp_all add: length_entry_enc)

lemma encode_entries_eq:
  "encode_entries es off buf =
     (if off + length (concat (map entry_enc es)) \<le> length buf \<or> es = [] then Ok (copy_at off (concat (map entry_enc es)) buf) else Panic)"
proof (induction es arbitrary: off buf)
  case (Cons e es)
  let ?n = "length (dent_name e)"
  show ?case
  proof (cases "off + 10 + ?n \<le> length buf")
    case True
    define a where "a = le_bytes 2 (of_nat ?n :: u16)"
    define b where "b = le_bytes 8 (dent_inode e)"
    have l: "length a = 2" "length b = 8" by (simp_all add: a_def b_def)
    have "copy_at (off + 2) b (copy_at off a buf) = copy_at off (a @ b) buf"
      using copy_at_copy_at [of off a b buf] True l by simp
    moreover have "copy_at (off + 10) (dent_name e) (copy_at off (a @ b) buf) = copy_at off (entry_enc e) buf"
      using copy_at_copy_at [of off "a @ b" "dent_name e" buf] True l by (simp add: entry_enc_def a_def b_def)
    ultimately have "encode_entries (e # es) off buf = encode_entries es (off + 10 + ?n) (copy_at off (entry_enc e) buf)"
      using True l by (simp add: a_def [symmetric] b_def [symmetric] Let_def)
    moreover have "copy_at (off + 10 + ?n) (concat (map entry_enc es)) (copy_at off (entry_enc e) buf) =
        copy_at off (concat (map entry_enc (e # es))) buf"
      if "off + length (concat (map entry_enc (e # es))) \<le> length buf"
      using copy_at_copy_at [of off "entry_enc e" "concat (map entry_enc es)" buf] that by (simp add: length_entry_enc add.assoc)
    ultimately show ?thesis using Cons.IH True by (auto simp: length_entry_enc)
  next
    case False
    then show ?thesis by (auto simp: Let_def length_entry_enc)
  qed
qed simp

lemma encode_dir_page_eq:
  "encode_dir_page es =
     (if page_used es \<le> DIR_PAGE_SIZE then Ok (le_bytes 4 (of_nat (length es) :: u32) @ concat (map entry_enc es) @ replicate (DIR_PAGE_SIZE - page_used es) 0)
      else Panic)"
proof -
  let ?h = "le_bytes 4 (of_nat (length es) :: u32)" and ?z = "replicate DIR_PAGE_SIZE (0 :: u8)"
  have "copy_at 4 (concat (map entry_enc es)) (copy_at 0 ?h ?z) = ?h @ concat (map entry_enc es) @ replicate (DIR_PAGE_SIZE - page_used es) 0"
    if "page_used es \<le> DIR_PAGE_SIZE"
    using that copy_at_copy_at [of 0 ?h "concat (map entry_enc es)" ?z]
    by (simp add: page_used_def length_concat_entries copy_at_prefix)
  then show ?thesis
    by (auto simp: encode_dir_page_def encode_entries_eq length_concat_entries page_used_def DIR_PAGE_SIZE_def)
qed

lemma decode_entries_eq:
  assumes "\<forall>e \<in> set es. is_utf8 (dent_name e) \<and> length (dent_name e) < 2 ^ 16"
  shows "decode_entries (length es) (pre @ concat (map entry_enc es) @ rest) (length pre) out =
    Ok (out @ es, length pre + length (concat (map entry_enc es)))"
  using assms
proof (induction es arbitrary: pre out)
  case (Cons e es)
  let ?n = "length (dent_name e)"
  define b where "b = pre @ concat (map entry_enc (e # es)) @ rest"
  have n: "unat (of_nat ?n :: u16) = ?n" using Cons.prems by simp
  have s: "slice (length pre) (length pre + 2) b = le_bytes 2 (of_nat ?n :: u16)"
    "slice (length pre + 2) (length pre + 10) b = le_bytes 8 (dent_inode e)"
    "slice (length pre + 10) (length pre + 10 + ?n) b = dent_name e"
    by (simp_all add: b_def entry_enc_def)
  have e: "\<lparr>dent_name = dent_name e, dent_inode = dent_inode e\<rparr> = e" by simp
  have l: "length pre + 10 + ?n \<le> length b" by (simp add: b_def length_entry_enc)
  have "decode_entries (length (e # es)) b (length pre) out =
      decode_entries (length es) b (length pre + 10 + ?n) (out @ [\<lparr>dent_name = dent_name e, dent_inode = dent_inode e\<rparr>])"
    using Cons.prems n l by (simp add: s Let_def codec from_utf8_lossy_valid del: add_2_eq_Suc')
  also have "\<dots> = decode_entries (length es) b (length pre + 10 + ?n) (out @ [e])" unfolding e ..
  also have "\<dots> = Ok ((out @ [e]) @ es, length pre + 10 + ?n + length (concat (map entry_enc es)))"
    using Cons.IH [of "pre @ entry_enc e" "out @ [e]"] Cons.prems by (simp add: b_def length_entry_enc ac_simps)
  finally show ?case by (simp add: b_def length_entry_enc)
qed simp

lemma decode_encode_dir_page:
  assumes "page_ok es"
  obtains b where "encode_dir_page es = Ok b" "length b = DIR_PAGE_SIZE" "decode_dir_page b = Ok (es, page_used es)"
proof -
  let ?h = "le_bytes 4 (of_nat (length es) :: u32)"
  let ?b = "?h @ concat (map entry_enc es) @ replicate (DIR_PAGE_SIZE - page_used es) 0"
  have u: "page_used es \<le> DIR_PAGE_SIZE" using assms by (simp add: page_ok_def)
  have "length (dent_name e) < 2 ^ 16" if "e \<in> set es" for e
    using member_le_sum_list [of "10 + length (dent_name e)" "map (\<lambda>e. 10 + length (dent_name e)) es"] that u
    by (simp add: page_used_def DIR_PAGE_SIZE_def)
  then have "\<forall>e \<in> set es. is_utf8 (dent_name e) \<and> length (dent_name e) < 2 ^ 16" using assms by (simp add: page_ok_def)
  note d = decode_entries_eq [OF this, of ?h "replicate (DIR_PAGE_SIZE - page_used es) 0" "[]"]
  have "length es \<le> sum_list (map (\<lambda>e. 10 + length (dent_name e)) es)" by (induction es) auto
  then have "length es < 2 ^ 32" using u by (simp add: page_used_def DIR_PAGE_SIZE_def)
  then have "unat (from_le ?h :: u32) = length es" by (simp add: codec)
  moreover have "length ?b = DIR_PAGE_SIZE" using u by (simp add: length_concat_entries page_used_def)
  ultimately have "decode_dir_page ?b = Ok (es, page_used es)"
    using d by (simp add: decode_dir_page_def length_concat_entries page_used_def)
  then show thesis using that u \<open>length ?b = DIR_PAGE_SIZE\<close> by (simp add: encode_dir_page_eq)
qed

end
