(* ===== verification/Cache.thy ===== *)
theory Cache
  imports Records
begin

text \<open>
  The resident directories of \<^verbatim>\<open>rust/bloomfs-fs\<close>: \<open>CachedDir\<close>, a directory's name index together with the
  pages it is stored in, and \<open>DirCache\<close>, the bounded set of resident directories with
  least-recently-used eviction.

  \<open>cd_ok\<close> says that the index and the pages agree; \<open>add\<close> and \<open>del\<close> keep it and do to the index
  what they do to the pages, one page at a time.  For the cache, eviction removes exactly the entry
  that was used longest ago, whatever order the hash map is iterated in, and its size stays bounded.
\<close>

section \<open>The model\<close>

definition DIR_CACHE_CAP :: nat where
  "DIR_CACHE_CAP = 256"

record cached_dir =
  cd_dir :: directory
  cd_inode :: inode
  cd_pages :: "dir_entry list list"
  cd_used :: "nat list"
  cd_page_of :: "(name \<times> nat) list"
  cd_dirty :: "nat list"
  cd_tick :: u64

record dir_cache =
  dc_entries :: "(u64 \<times> cached_dir) list"
  dc_tick :: u64

definition cache_new :: dir_cache where
  "cache_new = \<lparr>dc_entries = [], dc_tick = 0\<rparr>"

definition cache_touch :: "u64 \<Rightarrow> dir_cache \<Rightarrow> dir_cache" where
  "cache_touch ino c =
     (let t = dc_tick c + 1 in
      case map_of (dc_entries c) ino of
        Some e \<Rightarrow> c\<lparr>dc_tick := t, dc_entries := AList.update ino (e\<lparr>cd_tick := t\<rparr>) (dc_entries c)\<rparr>
      | None \<Rightarrow> c\<lparr>dc_tick := t\<rparr>)"

text \<open>\<open>min_by_key\<close>: the first of the entries with the least tick, in iteration order.\<close>

fun min_tick :: "(u64 \<times> cached_dir) list \<Rightarrow> (u64 \<times> cached_dir) option" where
  "min_tick [] = None"
| "min_tick (x # xs) =
     (case min_tick xs of
        None \<Rightarrow> Some x
      | Some y \<Rightarrow> if cd_tick (snd x) \<le> cd_tick (snd y) then Some x else Some y)"

definition cache_insert ::
  "((u64 \<times> cached_dir) list \<Rightarrow> (u64 \<times> cached_dir) list) \<Rightarrow> u64 \<Rightarrow> cached_dir \<Rightarrow> dir_cache \<Rightarrow> dir_cache" where
  "cache_insert iter ino entry c =
     (let es = (if length (dc_entries c) \<ge> DIR_CACHE_CAP \<and> map_of (dc_entries c) ino = None
                then case min_tick (iter (dc_entries c)) of
                       Some (victim, _) \<Rightarrow> AList.delete victim (dc_entries c)
                     | None \<Rightarrow> dc_entries c
                else dc_entries c);
          t = dc_tick c + 1
      in \<lparr>dc_entries = AList.update ino (entry\<lparr>cd_tick := t\<rparr>) es, dc_tick = t\<rparr>)"

definition entry_bytes :: "name \<Rightarrow> nat" where
  "entry_bytes name = 10 + length name"

text \<open>Sums and differences of \<open>usize\<close> values, which wrap at \<open>2 ^ 64\<close>.\<close>

definition usize_add :: "nat \<Rightarrow> nat \<Rightarrow> nat" where
  "usize_add a b = (a + b) mod 2 ^ 64"

definition usize_sub :: "nat \<Rightarrow> nat \<Rightarrow> nat" where
  "usize_sub a b = (a + 2 ^ 64 - b mod 2 ^ 64) mod 2 ^ 64"

fun find_room :: "nat \<Rightarrow> nat list \<Rightarrow> nat option" where
  "find_room need [] = None"
| "find_room need (u # us) = (if usize_add u need \<le> DIR_PAGE_SIZE then Some 0 else map_option Suc (find_room need us))"

definition cd_add :: "dir_env \<Rightarrow> name \<Rightarrow> inode_id \<Rightarrow> cached_dir \<Rightarrow> (fs_error, bool) res \<times> cached_dir" where
  "cd_add E name ino h =
     (case dir_add E name ino (cd_dir h) of
        (False, d) \<Rightarrow> (Ok False, h\<lparr>cd_dir := d\<rparr>)
      | (True, d) \<Rightarrow>
        let h = h\<lparr>cd_dir := d\<rparr>;
            need = entry_bytes name;
            (p, h) = (case find_room need (cd_used h) of
                Some i \<Rightarrow> (i, h)
              | None \<Rightarrow> (length (cd_pages h), h\<lparr>cd_pages := cd_pages h @ [[]], cd_used := cd_used h @ [4]\<rparr>))
        in if p \<ge> length (cd_pages h) \<or> p \<ge> length (cd_used h) then (Panic, h)
           else (Ok True, h\<lparr>cd_pages := (cd_pages h)[p := cd_pages h ! p @ [\<lparr>dent_name = name, dent_inode = ino\<rparr>]],
                            cd_used := (cd_used h)[p := usize_add (cd_used h ! p) need],
                            cd_page_of := AList.update name p (cd_page_of h),
                            cd_dirty := List.insert p (cd_dirty h)\<rparr>))"

definition cd_del :: "dir_env \<Rightarrow> name \<Rightarrow> cached_dir \<Rightarrow> (fs_error, bool) res \<times> cached_dir" where
  "cd_del E name h =
     (case map_of (cd_page_of h) name of
        None \<Rightarrow> (Ok False, h)
      | Some p \<Rightarrow>
        let h = h\<lparr>cd_dir := snd (dir_delete E name (cd_dir h))\<rparr>
        in if p \<ge> length (cd_pages h) \<or> p \<ge> length (cd_used h) then (Panic, h)
           else
             let page = (case chain_position (cd_pages h ! p) name of
                   Some pos \<Rightarrow> take pos (cd_pages h ! p) @ drop (Suc pos) (cd_pages h ! p)
                 | None \<Rightarrow> cd_pages h ! p)
             in (Ok True, h\<lparr>cd_pages := (cd_pages h)[p := page],
                            cd_used := (cd_used h)[p := usize_sub (cd_used h ! p) (entry_bytes name)],
                            cd_page_of := AList.delete name (cd_page_of h),
                            cd_dirty := List.insert p (cd_dirty h)\<rparr>))"

section \<open>Index and pages agree\<close>

definition cd_map :: "cached_dir \<Rightarrow> name \<rightharpoonup> inode_id" where
  "cd_map h = entry_map (concat (cd_pages h))"

definition cd_ok :: "dir_env \<Rightarrow> cached_dir \<Rightarrow> bool" where
  "cd_ok E h = (dir_ok E (cd_dir h) \<and> is_iter (index_iter E) \<and> dir_map (cd_dir h) = cd_map h \<and>
     cd_used h = map page_used (cd_pages h) \<and> (\<forall>p \<in> set (cd_pages h). page_ok p) \<and>
     distinct (names_of (concat (cd_pages h))) \<and>
     (\<forall>n p. map_of (cd_page_of h) n = Some p \<longleftrightarrow> p < length (cd_pages h) \<and> n \<in> set (names_of (cd_pages h ! p))) \<and>
     distinct (cd_dirty h) \<and> (\<forall>p \<in> set (cd_dirty h). p < length (cd_pages h)))"

lemma cd_ok_facts:
  assumes "cd_ok E h"
  shows "dir_ok E (cd_dir h)" "is_iter (index_iter E)" "dir_map (cd_dir h) = cd_map h" "cd_used h = map page_used (cd_pages h)"
    "\<And>p. p < length (cd_pages h) \<Longrightarrow> page_ok (cd_pages h ! p)" "distinct (names_of (concat (cd_pages h)))"
    "\<And>n p. map_of (cd_page_of h) n = Some p \<longleftrightarrow> p < length (cd_pages h) \<and> n \<in> set (names_of (cd_pages h ! p))"
    "distinct (cd_dirty h)" "\<forall>p \<in> set (cd_dirty h). p < length (cd_pages h)"
  using assms by (auto simp: cd_ok_def)

lemma cd_find: "cd_ok E h \<Longrightarrow> dir_find E (cd_dir h) n = cd_map h n"
  using dir_find_eq cd_ok_facts(1,3) by metis

lemma page_used_snoc: "page_used (es @ [e]) = page_used es + (10 + length (dent_name e))"
  by (simp add: page_used_def)

lemma page_used_le: "page_ok es \<Longrightarrow> page_used es \<le> DIR_PAGE_SIZE"
  by (simp add: page_ok_def)

lemma find_room_spec:
  "find_room need us = Some i \<Longrightarrow> i < length us \<and> usize_add (us ! i) need \<le> DIR_PAGE_SIZE"
  by (induction us arbitrary: i) (auto split: if_splits)

text \<open>Replacing one page of a list of pages.\<close>

lemma concat_split_at:
  "p < length xs \<Longrightarrow> concat xs = concat (take p xs) @ xs ! p @ concat (drop (Suc p) xs)"
  by (subst id_take_nth_drop) simp_all

lemma concat_update_at:
  "p < length xs \<Longrightarrow> concat (xs[p := ys]) = concat (take p xs) @ ys @ concat (drop (Suc p) xs)"
  by (simp add: upd_conv_take_nth_drop)

lemma usize_add_small: "a + b < 2 ^ 64 \<Longrightarrow> usize_add a b = a + b"
  by (simp add: usize_add_def)

lemma usize_sub_small: "b \<le> a \<Longrightarrow> a < 2 ^ 64 \<Longrightarrow> usize_sub a b = a - b"
proof -
  assume ab: "b \<le> a" "a < 2 ^ 64"
  then have "a + 2 ^ 64 - b mod 2 ^ 64 = (a - b) + 2 ^ 64" by simp
  then have "usize_sub a b = (a - b) mod 2 ^ 64" unfolding usize_sub_def by (simp only: mod_add_self2)
  then show ?thesis using ab by simp
qed

text \<open>Linking a new name: one page gets the entry at its end, and that page becomes dirty.\<close>

lemma names_of_nth_concat: "p < length pages \<Longrightarrow> n \<in> set (names_of (pages ! p)) \<Longrightarrow> n \<in> set (names_of (concat pages))"
  using nth_mem [of p pages] by (fastforce simp: names_of_def)

lemma cd_ok_link:
  assumes ok: "cd_ok E h" and n: "cd_map h n = None" "is_utf8 n" and p: "p < length (cd_pages h)"
    and room: "page_used (cd_pages h ! p) + entry_bytes n \<le> DIR_PAGE_SIZE"
    and e: "e = \<lparr>dent_name = n, dent_inode = i\<rparr>" and d: "dir_ok E d" "dir_map d = (cd_map h)(n \<mapsto> i)"
    and h': "h' = h\<lparr>cd_dir := d, cd_pages := (cd_pages h)[p := cd_pages h ! p @ [e]],
      cd_used := (cd_used h)[p := usize_add (cd_used h ! p) (entry_bytes n)],
      cd_page_of := AList.update n p (cd_page_of h), cd_dirty := List.insert p (cd_dirty h)\<rparr>"
  shows "cd_ok E h' \<and> cd_map h' = (cd_map h)(n \<mapsto> i)"
proof -
  note f = cd_ok_facts [OF ok]
  let ?P = "cd_pages h" and ?a = "concat (take p (cd_pages h))" and ?b = "concat (drop (Suc p) (cd_pages h))"
  have fresh: "n \<notin> set (names_of (concat ?P))" using n(1) by (simp add: cd_map_def entry_map_None)
  have c: "concat ?P = ?a @ ?P ! p @ ?b" "concat (cd_pages h') = ?a @ (?P ! p @ [e]) @ ?b"
    using concat_split_at [OF p] concat_update_at [OF p, of "?P ! p @ [e]"] by (simp_all add: h')
  have en: "names_of (e # es) = n # names_of es" "dent_name e = n" "names_of [] = []" for es by (simp_all add: e names_of_def)
  have dis: "distinct (names_of (concat (cd_pages h')))"
    using f(6) fresh unfolding c by (auto simp: en)
  have "set (concat (cd_pages h')) = insert e (set (concat ?P))" unfolding c by auto
  then have m: "cd_map h' = (cd_map h)(n \<mapsto> i)"
    unfolding cd_map_def using fresh dis f(6) by (intro entry_map_insert) (simp_all add: e)
  have "usize_add (cd_used h ! p) (entry_bytes n) = page_used (?P ! p @ [e])"
    using room p f(4) by (simp add: usize_add_small DIR_PAGE_SIZE_def page_used_snoc entry_bytes_def en)
  then have used: "cd_used h' = map page_used (cd_pages h')" using f(4) by (simp add: h' map_update)
  have "page_ok (?P ! p @ [e])"
    using room f(5) [OF p] n(2) by (auto simp: page_ok_def page_used_snoc entry_bytes_def en)
  then have pok: "\<forall>q \<in> set (cd_pages h'). page_ok q"
    using ok by (auto simp: h' cd_ok_def dest: set_update_subset_insert [THEN subsetD])
  have po: "map_of (cd_page_of h') m = Some q \<longleftrightarrow> q < length (cd_pages h') \<and> m \<in> set (names_of (cd_pages h' ! q))" for m q
  proof (cases "m = n")
    case True
    have "n \<notin> set (names_of (?P ! q))" if "q < length ?P" for q
      using fresh names_of_nth_concat [OF that] by blast
    then show ?thesis using True p en by (auto simp: h' update_conv' nth_list_update split: if_splits)
  next
    case False
    then show ?thesis using f(7) [of m q] p en by (auto simp: h' update_conv' nth_list_update split: if_splits)
  qed
  have "distinct (cd_dirty h')" "\<forall>q \<in> set (cd_dirty h'). q < length (cd_pages h')" using f(8,9) p by (auto simp: h')
  then show ?thesis
    using m dis used pok po f(2) d unfolding cd_ok_def by (simp add: h')
qed

text \<open>A fresh page is empty.\<close>

lemma cd_ok_new_page:
  assumes "cd_ok E h" "h' = h\<lparr>cd_pages := cd_pages h @ [[]], cd_used := cd_used h @ [4]\<rparr>"
  shows "cd_ok E h'" "cd_map h' = cd_map h"
proof -
  show m: "cd_map h' = cd_map h" by (simp add: assms(2) cd_map_def)
  have "page_ok []" by (simp add: page_ok_def page_used_def DIR_PAGE_SIZE_def)
  moreover have "p < length (cd_pages h') \<and> n \<in> set (names_of (cd_pages h' ! p)) \<longleftrightarrow>
      p < length (cd_pages h) \<and> n \<in> set (names_of (cd_pages h ! p))" for n p
    by (auto simp: assms(2) nth_append names_of_def)
  ultimately show "cd_ok E h'" using assms(1) m unfolding cd_ok_def by (simp add: assms(2) page_used_def less_Suc_eq)
qed

lemma cd_add_new:
  assumes ok: "cd_ok E h" and n: "cd_map h n = None" "is_utf8 n" "length n \<le> DIR_PAGE_SIZE - 14"
  shows "\<exists>h'. cd_add E n i h = (Ok True, h') \<and> cd_ok E h' \<and> cd_map h' = (cd_map h)(n \<mapsto> i) \<and> cd_inode h' = cd_inode h"
proof -
  note f = cd_ok_facts [OF ok]
  let ?d = "dir_push_unique E n i (cd_dir h)" and ?e = "\<lparr>dent_name = n, dent_inode = i\<rparr>"
  have nd: "dir_map (cd_dir h) n = None" using n(1) f(3) by simp
  have d: "dir_ok E ?d" "dir_map ?d = (cd_map h)(n \<mapsto> i)"
    using dmap.push_new [of E "cd_dir h" n i] f(1-3) nd by auto
  have add: "dir_add E n i (cd_dir h) = (True, ?d)" using dir_add_spec [OF f(1)] nd by simp
  have u: "length (cd_used h) = length (cd_pages h)" using f(4) by simp
  show ?thesis
  proof (cases "find_room (entry_bytes n) (cd_used h)")
    case (Some p)
    have p: "p < length (cd_pages h)" "usize_add (cd_used h ! p) (entry_bytes n) \<le> DIR_PAGE_SIZE"
      using find_room_spec [OF Some] u by auto
    have "page_used (cd_pages h ! p) \<le> DIR_PAGE_SIZE" using page_used_le [OF f(5) [OF p(1)]] .
    then have "page_used (cd_pages h ! p) + entry_bytes n \<le> DIR_PAGE_SIZE"
      using p f(4) n(3) usize_add_small [of "cd_used h ! p" "entry_bytes n"] by (simp add: entry_bytes_def DIR_PAGE_SIZE_def)
    note cd_ok_link [OF ok n(1,2) p(1) this refl d refl]
    then show ?thesis using add Some p u by (simp add: cd_add_def Let_def)
  next
    case None
    let ?h1 = "h\<lparr>cd_pages := cd_pages h @ [[]], cd_used := cd_used h @ [4]\<rparr>"
    note h1 = cd_ok_new_page [OF ok refl]
    have r: "page_used (cd_pages ?h1 ! length (cd_pages h)) + entry_bytes n \<le> DIR_PAGE_SIZE"
      using n(3) by (simp add: entry_bytes_def page_used_def DIR_PAGE_SIZE_def)
    have "cd_map ?h1 n = None" "dir_map ?d = (cd_map ?h1)(n \<mapsto> i)" using n(1) d(2) h1(2) by simp_all
    note cd_ok_link [OF h1(1) this(1) n(2) _ r refl d(1) this(2) refl]
    then show ?thesis using add None u h1(2) by (simp add: cd_add_def Let_def)
  qed
qed

lemma cd_add_dup: "cd_ok E h \<Longrightarrow> cd_map h n \<noteq> None \<Longrightarrow> cd_add E n i h = (Ok False, h)"
  using dir_add_spec [OF cd_ok_facts(1), of E h n i] cd_ok_facts(3) [of E h] by (auto simp: cd_add_def)

text \<open>Unlinking a name: its entry leaves its page.\<close>

lemma take_drop_remove:
  assumes "pos < length c" "distinct (names_of c)"
  shows "set (take pos c @ drop (Suc pos) c) = set c - {c ! pos}" "distinct (names_of (take pos c @ drop (Suc pos) c))"
    "page_used (take pos c @ drop (Suc pos) c) = page_used c - entry_bytes (dent_name (c ! pos))"
    "entry_bytes (dent_name (c ! pos)) + 4 \<le> page_used c"
proof -
  define a b where "a = take pos c" and "b = drop (Suc pos) c"
  have c: "c = a @ c ! pos # b" using assms(1) by (simp add: a_def b_def id_take_nth_drop)
  have d: "distinct (map dent_name (a @ c ! pos # b))" using assms(2) c by (simp add: names_of_def)
  then have "c ! pos \<notin> set a \<union> set b" by auto
  moreover have "set c = insert (c ! pos) (set a \<union> set b)" using arg_cong [OF c, of set] by simp
  ultimately show "set (take pos c @ drop (Suc pos) c) = set c - {c ! pos}" unfolding a_def [symmetric] b_def [symmetric] by auto
  show "distinct (names_of (take pos c @ drop (Suc pos) c))"
    unfolding a_def [symmetric] b_def [symmetric] using d by (auto simp: names_of_def)
  have "page_used c = page_used (a @ b) + entry_bytes (dent_name (c ! pos))"
    using arg_cong [OF c, of page_used] by (simp add: page_used_def entry_bytes_def)
  moreover have "4 \<le> page_used (a @ b)" by (simp add: page_used_def)
  ultimately show "page_used (take pos c @ drop (Suc pos) c) = page_used c - entry_bytes (dent_name (c ! pos))"
    "entry_bytes (dent_name (c ! pos)) + 4 \<le> page_used c"
    unfolding a_def [symmetric] b_def [symmetric] by simp_all
qed

lemma cd_page_unique:
  assumes "cd_ok E h" "p < length (cd_pages h)" "q < length (cd_pages h)" "n \<in> set (names_of (cd_pages h ! p))"
    "n \<in> set (names_of (cd_pages h ! q))"
  shows "p = q"
  using cd_ok_facts(7) [OF assms(1), of n p] cd_ok_facts(7) [OF assms(1), of n q] assms(2-) by simp

lemma cd_ok_unlink:
  assumes ok: "cd_ok E h" and p: "p < length (cd_pages h)" and pos: "pos < length (cd_pages h ! p)"
    and n: "n = dent_name (cd_pages h ! p ! pos)" and d: "dir_ok E d" "dir_map d = (cd_map h)(n := None)"
    and h': "h' = h\<lparr>cd_dir := d, cd_pages := (cd_pages h)[p := take pos (cd_pages h ! p) @ drop (Suc pos) (cd_pages h ! p)],
      cd_used := (cd_used h)[p := usize_sub (cd_used h ! p) (entry_bytes n)],
      cd_page_of := AList.delete n (cd_page_of h), cd_dirty := List.insert p (cd_dirty h)\<rparr>"
  shows "cd_ok E h' \<and> cd_map h' = (cd_map h)(n := None)"
proof -
  note f = cd_ok_facts [OF ok]
  let ?P = "cd_pages h" and ?c = "cd_pages h ! p" and ?e = "cd_pages h ! p ! pos"
  define c' where "c' = take pos ?c @ drop (Suc pos) ?c"
  note h' = h' [folded c'_def]
  let ?a = "concat (take p ?P)" and ?b = "concat (drop (Suc p) ?P)"
  have c: "concat ?P = ?a @ ?c @ ?b" "concat (cd_pages h') = ?a @ c' @ ?b"
    using concat_split_at [OF p] concat_update_at [OF p, of c'] by (simp_all add: h')
  have dc: "distinct (names_of ?c)" using f(6) unfolding c by simp
  note r = take_drop_remove [OF pos dc, folded c'_def]
  have nin: "n \<in> set (names_of ?c)" using nth_mem [OF pos] by (simp add: names_of_def n)
  then have "n \<notin> set (names_of ?a)" "n \<notin> set (names_of ?b)" using f(6) unfolding c by auto
  then have eout: "?e \<notin> set ?a" "?e \<notin> set ?b" "?e \<in> set ?c" using nth_mem [OF pos] unfolding names_of_def n set_map by blast+
  have sub: "set (names_of c') \<subseteq> set (names_of ?c)" using r(1) by (auto simp: names_of_def)
  have dis: "distinct (names_of (concat (cd_pages h')))"
    using f(6) r(2) sub unfolding c by auto
  have "set (concat (cd_pages h')) = set (concat ?P) - {?e}"
    unfolding c using r(1) eout by auto
  then have m: "cd_map h' = (cd_map h)(n := None)"
    unfolding cd_map_def n using dis f(6) eout(3) by (intro entry_map_remove) (simp_all add: c(1))
  have le: "page_used ?c \<le> DIR_PAGE_SIZE" by (rule page_used_le [OF f(5) [OF p]])
  have "usize_sub (cd_used h ! p) (entry_bytes n) = page_used c'"
    using r(3,4) le p f(4) by (simp add: n usize_sub_small DIR_PAGE_SIZE_def)
  then have used: "cd_used h' = map page_used (cd_pages h')" using f(4) by (simp add: h' map_update)
  have "page_ok c'"
    using f(5) [OF p] r(1,3) le unfolding page_ok_def by (auto)
  then have pok: "\<forall>q \<in> set (cd_pages h'). page_ok q"
    using ok by (auto simp: h' cd_ok_def dest: set_update_subset_insert [THEN subsetD])
  have nc: "set (names_of c') = set (names_of ?c) - {n}"
    using r(1) dc pos by (auto simp: names_of_def n distinct_map inj_on_def)
  have po: "map_of (cd_page_of h') m = Some q \<longleftrightarrow> q < length (cd_pages h') \<and> m \<in> set (names_of (cd_pages h' ! q))" for m q
  proof (cases "m = n")
    case True
    have "n \<notin> set (names_of (?P ! q))" if "q < length ?P" "q \<noteq> p" using cd_page_unique [OF ok p that(1) nin] that by blast
    then have "q < length ?P \<Longrightarrow> n \<notin> set (names_of (?P[p := c'] ! q))" using nc p by (cases "q = p") simp_all
    then show ?thesis using True by (auto simp: h' delete_conv')
  next
    case False
    then have "m \<in> set (names_of (?P[p := c'] ! q)) \<longleftrightarrow> m \<in> set (names_of (?P ! q))" using nc p by (cases "q = p") simp_all
    then show ?thesis using False f(7) [of m q] by (simp add: h' delete_conv')
  qed
  have "distinct (cd_dirty h')" "\<forall>q \<in> set (cd_dirty h'). q < length (cd_pages h')" using f(8,9) p by (auto simp: h')
  then show ?thesis
    using m dis used pok po f(2) d unfolding cd_ok_def by (simp add: h')
qed

lemma cd_del_miss: "cd_ok E h \<Longrightarrow> cd_map h n = None \<Longrightarrow> cd_del E n h = (Ok False, h)"
proof -
  assume ok: "cd_ok E h" and n: "cd_map h n = None"
  have "map_of (cd_page_of h) n = None"
    using cd_ok_facts(7) [OF ok, of n] n names_of_nth_concat [of _ "cd_pages h" n]
    by (metis cd_map_def entry_map_None option.exhaust)
  then show ?thesis by (simp add: cd_del_def)
qed

lemma cd_del_hit:
  assumes ok: "cd_ok E h" and n: "cd_map h n = Some i"
  shows "\<exists>h'. cd_del E n h = (Ok True, h') \<and> cd_ok E h' \<and> cd_map h' = (cd_map h)(n := None) \<and> cd_inode h' = cd_inode h"
proof -
  note f = cd_ok_facts [OF ok]
  have "n \<in> set (names_of (concat (cd_pages h)))" using n by (metis cd_map_def entry_map_None option.distinct(1))
  then obtain pg where "pg \<in> set (cd_pages h)" "n \<in> set (names_of pg)" by (auto simp: names_of_def)
  then obtain p where p: "p < length (cd_pages h)" "n \<in> set (names_of (cd_pages h ! p))" by (metis in_set_conv_nth)
  then have po: "map_of (cd_page_of h) n = Some p" using f(7) by blast
  obtain pos where pos: "chain_position (cd_pages h ! p) n = Some pos"
    using p(2) chain_position_None [of "cd_pages h ! p" n] by (cases "chain_position (cd_pages h ! p) n") auto
  note pn = chain_position_Some [OF pos]
  obtain d where d: "dir_delete E n (cd_dir h) = (True, d)" "dir_ok E d" "dir_map d = (cd_map h)(n := None)"
    using dir_delete_spec(2) [OF f(1,2), of n i] f(3) n by auto
  have u: "length (cd_used h) = length (cd_pages h)" using f(4) by simp
  note cd_ok_unlink [OF ok p(1) conjunct1 [OF pn] conjunct2 [OF pn, symmetric] d(2,3) refl]
  then show ?thesis using pn po pos d(1) p(1) u by (simp add: cd_del_def Let_def)
qed

section \<open>Least recently used\<close>

text \<open>The specification: the ids of the resident directories, the most recently used first.\<close>

datatype cache_op = TouchOp u64 | InsertOp u64 cached_dir | RemoveOp u64

fun lru_step :: "cache_op \<Rightarrow> u64 list \<Rightarrow> u64 list" where
  "lru_step (TouchOp i) l = (if i \<in> set l then i # removeAll i l else l)"
| "lru_step (InsertOp i h) l = take DIR_CACHE_CAP (i # removeAll i l)"
| "lru_step (RemoveOp i) l = removeAll i l"

fun cache_step ::
  "((u64 \<times> cached_dir) list \<Rightarrow> (u64 \<times> cached_dir) list) \<Rightarrow> cache_op \<Rightarrow> dir_cache \<Rightarrow> dir_cache" where
  "cache_step iter (TouchOp i) c = cache_touch i c"
| "cache_step iter (InsertOp i h) c = cache_insert iter i h c"
| "cache_step iter (RemoveOp i) c = c\<lparr>dc_entries := AList.delete i (dc_entries c)\<rparr>"

text \<open>\<open>lru_rel m t l\<close>: the entries \<open>m\<close>, none with a tick after \<open>t\<close>, are the ids of \<open>l\<close>, by falling
  tick.\<close>

definition lru_rel :: "(u64 \<rightharpoonup> cached_dir) \<Rightarrow> nat \<Rightarrow> u64 list \<Rightarrow> bool" where
  "lru_rel m t l = (distinct l \<and> set l = dom m \<and> (\<forall>i h. m i = Some h \<longrightarrow> unat (cd_tick h) \<le> t) \<and>
     sorted_wrt (\<lambda>i j. cd_tick (the (m j)) < cd_tick (the (m i))) l)"

lemma lru_rel_remove:
  assumes "lru_rel m t l"
  shows "lru_rel (m(i := None)) t (removeAll i l)"
proof -
  have "sorted_wrt (\<lambda>i j. cd_tick (the (m j)) < cd_tick (the (m i))) (removeAll i l)"
    using assms by (simp add: lru_rel_def removeAll_filter_not_eq sorted_wrt_filter)
  then have "sorted_wrt (\<lambda>a b. cd_tick (the ((m(i := None)) b)) < cd_tick (the ((m(i := None)) a))) (removeAll i l)"
    by (rule sorted_wrt_mono_rel [rotated]) auto
  then show ?thesis using assms by (auto simp: lru_rel_def distinct_removeAll)
qed

lemma lru_rel_put:
  assumes r: "lru_rel m t l" and ti: "unat (cd_tick e) = Suc t"
  shows "lru_rel (m(i \<mapsto> e)) (Suc t) (i # removeAll i l)"
proof -
  let ?l = "removeAll i l" and ?m = "m(i := None)"
  have q: "distinct ?l" "set ?l = dom ?m" "sorted_wrt (\<lambda>i j. cd_tick (the (?m j)) < cd_tick (the (?m i))) ?l"
    using lru_rel_remove [OF r, of i] unfolding lru_rel_def by simp_all
  have b: "unat (cd_tick h) \<le> t" if "m j = Some h" for j h using r that unfolding lru_rel_def by simp
  have "cd_tick (the ((m(i \<mapsto> e)) j)) < cd_tick e" if j: "j \<in> set ?l" for j
  proof -
    have "j \<in> dom ?m" using j unfolding q(2) .
    then obtain h where "m j = Some h" "j \<noteq> i" by (auto split: if_splits)
    then show ?thesis using b [of j h] ti by (simp add: word_less_nat_alt)
  qed
  moreover have "sorted_wrt (\<lambda>a b. cd_tick (the ((m(i \<mapsto> e)) b)) < cd_tick (the ((m(i \<mapsto> e)) a))) ?l"
    by (rule sorted_wrt_mono_rel [OF _ q(3)]) auto
  moreover have "unat (cd_tick h) \<le> Suc t" if "(m(i \<mapsto> e)) j = Some h" for j h
    using that ti b [of j h] by (cases "j = i") auto
  moreover have "set (i # ?l) = dom (m(i \<mapsto> e))"
  proof -
    have "dom (m(i \<mapsto> e)) = insert i (dom ?m)" by auto
    then show ?thesis unfolding q(2) [symmetric] by simp
  qed
  moreover have "distinct (i # ?l)" using q(1) by simp
  ultimately show ?thesis unfolding lru_rel_def by simp
qed

lemma lru_rel_same: "lru_rel m t l \<Longrightarrow> lru_rel m (Suc t) l"
  unfolding lru_rel_def using le_SucI by blast

text \<open>The victim is the last id of the list, in every iteration order.\<close>

lemma min_tick_spec: "xs \<noteq> [] \<Longrightarrow> \<exists>x. min_tick xs = Some x \<and> x \<in> set xs \<and> (\<forall>y \<in> set xs. cd_tick (snd x) \<le> cd_tick (snd y))"
  by (induction xs) (force split: option.splits)+

lemma min_tick_last:
  assumes it: "is_iter iter" and d: "distinct (map fst es)" and r: "lru_rel (map_of es) t l" and ne: "l \<noteq> []"
  shows "\<exists>h. min_tick (iter es) = Some (last l, h)"
proof -
  note is_iter_D [OF it d]
  note i = this
  have "es \<noteq> []" using r ne by (auto simp: lru_rel_def)
  then have "iter es \<noteq> []" using i(3) by auto
  then obtain x where x: "min_tick (iter es) = Some x" "x \<in> set es" "\<forall>y \<in> set es. cd_tick (snd x) \<le> cd_tick (snd y)"
    using min_tick_spec i(2) by metis
  obtain j h where xe: "x = (j, h)" by (cases x)
  have j: "map_of es j = Some h" using x(2) d xe by simp
  have jl: "j \<in> set l" using r j unfolding lru_rel_def by blast
  have "j = last l"
  proof (rule ccontr)
    assume ne': "j \<noteq> last l"
    obtain h' where h': "map_of es (last l) = Some h'" using r ne unfolding lru_rel_def by (metis domD last_in_set)
    have "l = butlast l @ [last l]" using ne by simp
    then have "sorted_wrt (\<lambda>i j. cd_tick (the (map_of es j)) < cd_tick (the (map_of es i))) (butlast l @ [last l])"
      "j \<in> set (butlast l)" using r jl ne' unfolding lru_rel_def by (simp_all add: in_set_butlastD) (metis Un_iff append_butlast_last_id empty_iff empty_set insertE list.simps(15) ne set_append)
    then have "cd_tick h' < cd_tick h" using j h' by (fastforce simp: sorted_wrt_append)
    moreover have "(last l, h') \<in> set es" using h' by (rule map_of_SomeD)
    ultimately show False using x(3) xe by fastforce
  qed
  then show ?thesis using x(1) xe by simp
qed

definition cache_inv :: "dir_cache \<Rightarrow> u64 list \<Rightarrow> bool" where
  "cache_inv c l = (distinct (map fst (dc_entries c)) \<and> lru_rel (map_of (dc_entries c)) (unat (dc_tick c)) l \<and>
     length l \<le> DIR_CACHE_CAP)"

lemma cache_inv_length: "cache_inv c l \<Longrightarrow> length (dc_entries c) = length l"
  unfolding cache_inv_def lru_rel_def by (metis distinct_card dom_map_of_conv_image_fst length_map set_map)

lemma lru_rel_Nil [simp]: "lru_rel Map.empty t []"
  by (simp add: lru_rel_def)

lemma cache_new_inv: "cache_inv cache_new []"
  by (simp add: cache_inv_def cache_new_def)

lemma cache_step_inv:
  assumes inv: "cache_inv c l" and it: "is_iter iter" and t: "unat (dc_tick c) + 1 < 2 ^ 64" and c': "c' = cache_step iter op c"
  shows "cache_inv c' (lru_step op l) \<and> unat (dc_tick c') \<le> unat (dc_tick c) + 1"
proof -
  let ?es = "dc_entries c" and ?t = "dc_tick c + 1"
  have d: "distinct (map fst ?es)" and r: "lru_rel (map_of ?es) (unat (dc_tick c)) l" and len: "length l \<le> DIR_CACHE_CAP"
    using inv by (auto simp: cache_inv_def)
  have ut: "unat ?t = Suc (unat (dc_tick c))" using t unat_add_small [of "dc_tick c" 1] by simp
  have dl: "set l = dom (map_of ?es)" "distinct l" using r by (auto simp: lru_rel_def)
  have lr: "length (removeAll i l) = length l - 1" if "i \<in> set l" for i
    using that dl(2) distinct_remove1_removeAll [of l i] length_remove1 [of i l] by simp
  show ?thesis
  proof (cases op)
    case (TouchOp i)
    show ?thesis
    proof (cases "map_of ?es i")
      case (Some e)
      note lru_rel_put [OF r, of "e\<lparr>cd_tick := ?t\<rparr>" i]
      moreover have "i \<in> set l" using Some dl by blast
      moreover from this have "0 < length l" by auto
      ultimately show ?thesis
        using Some TouchOp c' d ut len lr by (simp add: cache_inv_def cache_touch_def Let_def update_conv' distinct_update)
    next
      case None
      then have "i \<notin> set l" using dl by blast
      then show ?thesis using None TouchOp c' d ut len lru_rel_same [OF r] by (simp add: cache_inv_def cache_touch_def Let_def)
    qed
  next
    case (RemoveOp i)
    note lru_rel_remove [OF r, of i]
    moreover have "length (removeAll i l) \<le> DIR_CACHE_CAP" using length_removeAll_less_eq [of i l] len by linarith
    ultimately show ?thesis
      using RemoveOp c' d len by (simp add: cache_inv_def delete_conv' distinct_delete)
  next
    case (InsertOp i h)
    let ?e = "h\<lparr>cd_tick := ?t\<rparr>"
    show ?thesis
    proof (cases "length ?es \<ge> DIR_CACHE_CAP \<and> map_of ?es i = None")
      case True
      have ll: "length l = DIR_CACHE_CAP" "i \<notin> set l" using True cache_inv_length [OF inv] len dl by auto
      then have ne: "l \<noteq> []" by (auto simp: DIR_CACHE_CAP_def)
      obtain hv where v: "min_tick (iter ?es) = Some (last l, hv)" using min_tick_last [OF it d r ne] by blast
      let ?es' = "AList.delete (last l) ?es"
      have bl: "removeAll (last l) l = butlast l"
        using dl(2) ne by (cases l rule: rev_cases) auto
      have r': "lru_rel (map_of ?es') (unat (dc_tick c)) (butlast l)"
        using lru_rel_remove [OF r, of "last l"] bl by (simp add: delete_conv')
      have "i \<notin> set (butlast l)" using ll(2) by (meson in_set_butlastD)
      then have "lru_rel ((map_of ?es')(i \<mapsto> ?e)) (Suc (unat (dc_tick c))) (i # butlast l)"
        using lru_rel_put [OF r', of ?e i] ut by simp
      moreover have "take DIR_CACHE_CAP (i # removeAll i l) = i # butlast l"
        using ll ne by (cases "DIR_CACHE_CAP") (simp_all add: butlast_conv_take DIR_CACHE_CAP_def)
      moreover have "0 < DIR_CACHE_CAP" by (simp add: DIR_CACHE_CAP_def)
      ultimately show ?thesis
        using InsertOp c' d ut True v ll by (simp add: cache_inv_def cache_insert_def Let_def update_conv' distinct_update distinct_delete)
    next
      case False
      have lc: "length (i # removeAll i l) \<le> DIR_CACHE_CAP"
      proof (cases "i \<in> set l")
        case True
        then show ?thesis using lr [OF True] len by (cases l) auto
      next
        case ni: False
        then have "length l < DIR_CACHE_CAP" using False cache_inv_length [OF inv] dl by fastforce
        then show ?thesis using ni by simp
      qed
      then have "take DIR_CACHE_CAP (i # removeAll i l) = i # removeAll i l" by simp
      then show ?thesis
        using InsertOp c' d ut False lc lru_rel_put [OF r, of ?e i]
        by (auto simp: cache_inv_def cache_insert_def Let_def update_conv' distinct_update)
    qed
  qed
qed

lemma cache_run_inv:
  "cache_inv c l \<Longrightarrow> is_iter iter \<Longrightarrow> unat (dc_tick c) + length ops < 2 ^ 64 \<Longrightarrow>
   cache_inv (fold (cache_step iter) ops c) (fold lru_step ops l)"
proof (induction ops arbitrary: c l)
  case (Cons op ops)
  have "unat (dc_tick c) + 1 < 2 ^ 64" using Cons.prems(3) by simp
  note s = cache_step_inv [OF Cons.prems(1,2) this refl, of op]
  then have "unat (dc_tick (cache_step iter op c)) + length ops < 2 ^ 64" using Cons.prems(3) by simp
  then show ?case using Cons.IH s Cons.prems(2) by simp
qed simp

section \<open>Properties\<close>

text \<open>C36. The directory cache is a bounded least-recently-used cache: after any sequence of lookups of
  resident directories, insertions and removals, the resident directories are those of the reference
  model, a list kept in order of last use whose last element is dropped when it grows beyond
  \<open>DIR_CACHE_CAP\<close>, whatever order the hash map is iterated in.\<close>

theorem dir_cache_is_lru:
  assumes "is_iter iter" "length ops < 2 ^ 64"
  shows "dom (map_of (dc_entries (fold (cache_step iter) ops cache_new))) = set (fold lru_step ops []) \<and>
    length (dc_entries (fold (cache_step iter) ops cache_new)) \<le> DIR_CACHE_CAP"
proof -
  have "cache_inv (fold (cache_step iter) ops cache_new) (fold lru_step ops [])"
    using assms by (intro cache_run_inv cache_new_inv) (simp_all add: cache_new_def)
  then show ?thesis using cache_inv_length by (fastforce simp: cache_inv_def lru_rel_def)
qed

theorem dir_cache_is_lru_witness:
  "\<forall>h. dom (map_of (dc_entries (fold (cache_step id) [InsertOp 1 h, InsertOp 2 h, TouchOp 1, RemoveOp 2] cache_new))) = {1}"
proof
  fix h :: cached_dir
  have "is_iter (id :: (u64 \<times> cached_dir) list \<Rightarrow> _)" by (simp add: is_iter_def)
  from dir_cache_is_lru [OF this, of "[InsertOp 1 h, InsertOp 2 h, TouchOp 1, RemoveOp 2]"]
  show "dom (map_of (dc_entries (fold (cache_step id) [InsertOp 1 h, InsertOp 2 h, TouchOp 1, RemoveOp 2] cache_new))) = {1}"
    by (simp add: DIR_CACHE_CAP_def)
qed

end
