(* ===== verification/Fs.thy ===== *)
theory Fs
  imports Cache
begin

text \<open>
  The file system of \<^verbatim>\<open>rust/bloomfs-fs\<close>: the struct \<open>FS\<close> as the record \<open>fs\<close>, and one definition per
  method, in the order of the source.  The device, the bitmap and the dedup table, which the store
  takes together, are the field \<open>fs_pool\<close>.  A method returns its result and the state it leaves, also
  where the source takes \<open>&self\<close> but fills the directory cache behind its lock.

  Outside the code: the device, the cryptographic libraries, the hash functions of the directory
  index, and the iteration orders of the hash tables are the fields of \<open>fs_env\<close>.  The wall clock is
  the sequence of its readings.  Memory allocation succeeds.
\<close>

section \<open>State\<close>

record 'd fs_env =
  fe_crypto :: crypto
  fe_dev :: "'d device"
  fe_dir :: dir_env
  fe_ddt_iter :: "dedup_table \<Rightarrow> dedup_table"
  fe_dirty_iter :: "nat list \<Rightarrow> nat list"
  fe_cache_iter :: "(u64 \<times> cached_dir) list \<Rightarrow> (u64 \<times> cached_dir) list"

record 'd fs =
  fs_pool :: "'d pool"
  fs_ub :: uberblock
  fs_inodes :: itable
  fs_bs :: block_store
  fs_open :: "(u64 \<times> u32) list"
  fs_free :: "u64 list"
  fs_clock :: "nat \<Rightarrow> u64"
  fs_reads :: nat
  fs_meta_buf :: bytes
  fs_cache :: "dir_cache option"

definition ACCESS_X :: u32 where
  "ACCESS_X = 1"

definition ACCESS_W :: u32 where
  "ACCESS_W = 2"

definition ACCESS_R :: u32 where
  "ACCESS_R = 4"

record fs_stat =
  st_ino :: u64
  st_size :: u64
  st_nlink :: u32
  st_generation :: u32
  st_mode :: u16
  st_kind :: u8
  st_uid :: u32
  st_gid :: u32
  st_atime :: u64
  st_mtime :: u64
  st_ctime :: u64

record fs_statfs =
  sf_block_size :: u64
  sf_blocks :: u64
  sf_blocks_free :: u64
  sf_files :: u64
  sf_files_free :: u64

record dirent =
  dt_name :: name
  dt_ino :: u64
  dt_kind :: u8

record dir_handle =
  dh_entries :: "name list"
  dh_pos :: nat

definition dir_handle_next :: "nat \<Rightarrow> dir_handle \<Rightarrow> name list \<times> dir_handle" where
  "dir_handle_next n h =
     (if dh_pos h \<ge> length (dh_entries h) then ([], h)
      else
        let e = length (dh_entries h);
            e = (if n > 0 \<and> dh_pos h + n < e then dh_pos h + n else e)
        in (slice (dh_pos h) e (dh_entries h), h\<lparr>dh_pos := e\<rparr>))"

record handle =
  hd_id :: u64
  hd_closed :: bool

section \<open>Inodes, clock and commits\<close>

definition get_inode :: "u64 \<Rightarrow> 'd fs \<Rightarrow> (fs_error, inode) res \<times> 'd fs" where
  "get_inode ino s = (map_err FsInode (itable_get (fs_inodes s) ino), s)"

definition put_inode :: "u64 \<Rightarrow> inode \<Rightarrow> 'd fs \<Rightarrow> (fs_error, unit) res \<times> 'd fs" where
  "put_inode ino i s =
     (case itable_put (fs_inodes s) ino i of (r, t) \<Rightarrow> (map_err FsInode r, s\<lparr>fs_inodes := t\<rparr>))"

text \<open>The loop of \<open>rebuild_free_inodes\<close>, which stops at the first id out of range.\<close>

fun free_slots :: "itable \<Rightarrow> nat list \<Rightarrow> u64 list" where
  "free_slots t [] = []"
| "free_slots t (i # is) =
     (case itable_get t (of_nat i) of
        Ok i' \<Rightarrow> (if nlink i' = 0 then of_nat i # free_slots t is else free_slots t is)
      | _ \<Rightarrow> [])"

definition rebuild_free_inodes :: "itable \<Rightarrow> u64 list" where
  "rebuild_free_inodes t = free_slots t [0..<unat (it_count t)]"

definition fs_mount :: "'d fs_env \<Rightarrow> (nat \<Rightarrow> u64) \<Rightarrow> bytes option \<Rightarrow> 'd \<Rightarrow> (fs_error, 'd fs) res" where
  "fs_mount E clock key d =
     res_bind (map_err FsCow (cow_mount (fe_crypto E) (fe_dev E) d)) (\<lambda>(ub, bm, ddt, inodes).
       res_bind (map_err FsStore (store_new (fe_crypto E) key)) (\<lambda>bs.
         Ok \<lparr>fs_pool = \<lparr>po_dev = d, po_bm = bm, po_ddt = ddt\<rparr>, fs_ub = ub, fs_inodes = inodes, fs_bs = bs,
             fs_open = [], fs_free = rebuild_free_inodes inodes, fs_clock = clock, fs_reads = 0,
             fs_meta_buf = replicate (unat (ub_meta_blocks ub * BLK)) 0, fs_cache = Some cache_new\<rparr>))"

definition set_clock :: "(nat \<Rightarrow> u64) \<Rightarrow> 'd fs \<Rightarrow> 'd fs" where
  "set_clock clock s = s\<lparr>fs_clock := clock, fs_reads := 0\<rparr>"

definition set_dir_cache :: "bool \<Rightarrow> 'd fs \<Rightarrow> 'd fs" where
  "set_dir_cache on s = s\<lparr>fs_cache := (if on then Some cache_new else None)\<rparr>"

definition fs_root :: "'d fs \<Rightarrow> u64" where
  "fs_root s = ub_root_inode (fs_ub s)"

definition fs_now :: "'d fs \<Rightarrow> u64 \<times> 'd fs" where
  "fs_now s = (fs_clock s (fs_reads s), s\<lparr>fs_reads := Suc (fs_reads s)\<rparr>)"

definition touch_mod :: "inode \<Rightarrow> 'd fs \<Rightarrow> inode \<times> 'd fs" where
  "touch_mod i s = (case fs_now s of (t, s) \<Rightarrow> (i\<lparr>mtime := t, ctime := t\<rparr>, s))"

definition touch_meta :: "inode \<Rightarrow> 'd fs \<Rightarrow> inode \<times> 'd fs" where
  "touch_meta i s = (case fs_now s of (t, s) \<Rightarrow> (i\<lparr>ctime := t\<rparr>, s))"

definition fs_commit :: "'d fs_env \<Rightarrow> 'd fs \<Rightarrow> (fs_error, unit) res \<times> 'd fs" where
  "fs_commit E s =
     (let root = ub_root_inode (fs_ub s);
          nxt = ub_next_inode (fs_ub s);
          p = fs_pool s
      in case cow_commit (fe_crypto E) (fe_ddt_iter E) (fe_dev E) (fs_ub s) (po_bm p) (po_ddt p) (fs_inodes s)
                root nxt (Some (fs_meta_buf s)) (po_dev p) of
           (r, d, bm, buf) \<Rightarrow>
             let s = s\<lparr>fs_pool := p\<lparr>po_dev := d, po_bm := bm\<rparr>,
                       fs_meta_buf := (case buf of Some b \<Rightarrow> b | None \<Rightarrow> fs_meta_buf s)\<rparr>
             in (case r of
                   Ok new \<Rightarrow> (Ok (), s\<lparr>fs_ub := new\<rparr>)
                 | Err e \<Rightarrow> (Err (FsCow e), s)
                 | Panic \<Rightarrow> (Panic, s)))"

definition fs_fsync :: "'d fs_env \<Rightarrow> 'd fs \<Rightarrow> (fs_error, unit) res \<times> 'd fs" where
  "fs_fsync E s = fs_commit E s"

text \<open>\<open>format\<close> owns the device; the second component is the device as it is left, also on failure.\<close>

definition fs_format :: "'d fs_env \<Rightarrow> (nat \<Rightarrow> u64) \<Rightarrow> bytes option \<Rightarrow> 'd \<Rightarrow> (fs_error, 'd fs) res \<times> 'd" where
  "fs_format E clock key d =
     (case cow_format (fe_crypto E) (fe_ddt_iter E) (fe_dev E) DEFAULT_INODE_COUNT DEFAULT_DDT_RESERVE d of
        (Err e, d) \<Rightarrow> (Err (FsCow e), d)
      | (Panic, d) \<Rightarrow> (Panic, d)
      | (Ok ub, d) \<Rightarrow>
        (case fs_mount E clock key d of
           Err e \<Rightarrow> (Err e, d)
         | Panic \<Rightarrow> (Panic, d)
         | Ok s \<Rightarrow>
           (case fs_now s of (now, s) \<Rightarrow>
              let root = inode_default\<lparr>kind := TYPE_DIR, nlink := 2, mode := 493, atime := now, mtime := now, ctime := now\<rparr>
              in (case st_bind (put_inode (ub_root_inode (fs_ub s)) root) (\<lambda>_. fs_commit E) s of
                    (Ok u, s) \<Rightarrow> (Ok s, po_dev (fs_pool s))
                  | (Err e, s) \<Rightarrow> (Err e, po_dev (fs_pool s))
                  | (Panic, s) \<Rightarrow> (Panic, po_dev (fs_pool s))))))"

section \<open>Blocks and block maps\<close>

definition bs_write :: "'d fs_env \<Rightarrow> bytes \<Rightarrow> 'd fs \<Rightarrow> (fs_error, ref) res \<times> 'd fs" where
  "bs_write E plaintext s =
     (case store_write (fe_crypto E) (fe_dev E) (fs_bs s) plaintext (fs_pool s) of
        (Ok r, p) \<Rightarrow> (Ok r, s\<lparr>fs_pool := p\<rparr>)
      | (Panic, p) \<Rightarrow> (Panic, s\<lparr>fs_pool := p\<rparr>)
      | (Err e, p) \<Rightarrow>
        (if e = StoreAlloc AllocNoSpace \<and> bitmap_pending (po_bm p) > 0
         then st_bind (fs_commit E) (\<lambda>_ s.
                case store_write (fe_crypto E) (fe_dev E) (fs_bs s) plaintext (fs_pool s) of
                  (r, p) \<Rightarrow> (map_err FsStore r, s\<lparr>fs_pool := p\<rparr>)) (s\<lparr>fs_pool := p\<rparr>)
         else (Err (FsStore e), s\<lparr>fs_pool := p\<rparr>)))"

definition bs_read :: "'d fs_env \<Rightarrow> 'd fs \<Rightarrow> ref \<Rightarrow> (fs_error, bytes) res" where
  "bs_read E s r = map_err FsStore (store_read (fe_crypto E) (fe_dev E) (fs_bs s) (po_dev (fs_pool s)) r)"

definition bs_release :: "ref \<Rightarrow> 'd fs \<Rightarrow> 'd fs" where
  "bs_release r s = s\<lparr>fs_pool := store_release r (fs_pool s)\<rparr>"

text \<open>The stack of reusable ids is a \<open>Vec\<close>: its top is the last element.\<close>

definition alloc_inode :: "'d fs \<Rightarrow> (fs_error, u64) res \<times> 'd fs" where
  "alloc_inode s =
     (if fs_free s \<noteq> [] then (Ok (last (fs_free s)), s\<lparr>fs_free := butlast (fs_free s)\<rparr>)
      else if ub_next_inode (fs_ub s) \<ge> itable_cap (fs_inodes s) then (Err NoInodes, s)
      else (Ok (ub_next_inode (fs_ub s)), s\<lparr>fs_ub := (fs_ub s)\<lparr>ub_next_inode := ub_next_inode (fs_ub s) + 1\<rparr>\<rparr>))"

definition open_count_of :: "'d fs \<Rightarrow> u64 \<Rightarrow> u32" where
  "open_count_of s ino = (case map_of (fs_open s) ino of Some c \<Rightarrow> c | None \<Rightarrow> 0)"

definition map_ref :: "inode \<Rightarrow> ref" where
  "map_ref i = ref_unmarshal (take REF_SIZE (block_map i))"

definition load_refs :: "'d fs_env \<Rightarrow> 'd fs \<Rightarrow> inode \<Rightarrow> (fs_error, ref list) res" where
  "load_refs E s i =
     (if in_size i = 0 then Ok []
      else if flags i AND FLAG_INLINE_EXTENTS \<noteq> 0 then Ok [map_ref i]
      else res_bind (bs_read E s (map_ref i)) decode_refs)"

definition store_refs :: "'d fs_env \<Rightarrow> inode \<Rightarrow> ref list \<Rightarrow> u64 \<Rightarrow> u8 \<Rightarrow> 'd fs \<Rightarrow> (fs_error, inode) res \<times> 'd fs" where
  "store_refs E i refs sz log2 s =
     (let i = i\<lparr>block_map := replicate BLOCK_MAP_BYTES 0, flags := flags i AND NOT FLAG_INLINE_EXTENTS,
                in_size := sz, record_size_log2 := log2\<rparr>
      in case refs of
           [] \<Rightarrow> (Ok (i\<lparr>in_size := 0, record_size_log2 := 0\<rparr>), s)
         | [r] \<Rightarrow> (Ok (i\<lparr>block_map := copy_at 0 (ref_marshal r) (block_map i), flags := flags i OR FLAG_INLINE_EXTENTS\<rparr>), s)
         | _ \<Rightarrow> st_bind (bs_write E (encode_refs refs)) (\<lambda>m.
                  st_return (i\<lparr>block_map := copy_at 0 (ref_marshal m) (block_map i)\<rparr>)) s)"

definition release_data :: "'d fs_env \<Rightarrow> inode \<Rightarrow> 'd fs \<Rightarrow> (fs_error, unit) res \<times> 'd fs" where
  "release_data E i s =
     (if in_size i = 0 then (Ok (), s)
      else if flags i AND FLAG_INLINE_EXTENTS \<noteq> 0 then (Ok (), bs_release (map_ref i) s)
      else case res_bind (bs_read E s (map_ref i)) decode_refs of
        Ok refs \<Rightarrow> (Ok (), bs_release (map_ref i) (fold bs_release refs s))
      | Err e \<Rightarrow> (Err e, s)
      | Panic \<Rightarrow> (Panic, s))"

fun write_records :: "'d fs_env \<Rightarrow> bytes list \<Rightarrow> 'd fs \<Rightarrow> (fs_error, ref list) res \<times> 'd fs" where
  "write_records E [] s = (Ok [], s)"
| "write_records E (rec # recs) s =
     st_bind (bs_write E rec) (\<lambda>r. st_bind (write_records E recs) (\<lambda>rs. st_return (r # rs))) s"

definition set_data :: "'d fs_env \<Rightarrow> u64 \<Rightarrow> inode \<Rightarrow> bytes \<Rightarrow> 'd fs \<Rightarrow> (fs_error, unit) res \<times> 'd fs" where
  "set_data E ino i blob s =
     (let (sz, log2, recs) =
        (if blob = [] then (0, 0, [])
         else let sz = of_nat (length blob); (rs, l2) = record_size_for sz in (sz, l2, split_records blob rs))
      in st_bind (write_records E recs) (\<lambda>refs.
           st_bind (store_refs E i refs sz log2) (\<lambda>i'.
             st_bind (release_data E i) (\<lambda>_ s.
               case touch_mod i' s of (i', s) \<Rightarrow> put_inode ino i' s))) s)"

fun read_records :: "'d fs_env \<Rightarrow> 'd fs \<Rightarrow> ref list \<Rightarrow> (fs_error, bytes) res" where
  "read_records E s [] = Ok []"
| "read_records E s (r # rs) =
     res_bind (bs_read E s r) (\<lambda>b. res_bind (read_records E s rs) (\<lambda>bs. Ok (b @ bs)))"

definition get_data :: "'d fs_env \<Rightarrow> 'd fs \<Rightarrow> inode \<Rightarrow> (fs_error, bytes) res" where
  "get_data E s i = (if in_size i = 0 then Ok [] else res_bind (load_refs E s i) (read_records E s))"

section \<open>Writing at an offset\<close>

text \<open>The arguments of the loop of \<open>write_at_locked\<close> that do not change.\<close>

record write_ctx =
  wc_old_size :: u64
  wc_old_refs :: "ref list"
  wc_off :: u64
  wc_end :: u64
  wc_new_size :: u64
  wc_rs :: u64
  wc_data :: bytes

text \<open>The record written at index \<open>i\<close>, given what it held before, if it existed.\<close>

definition fill_record :: "write_ctx \<Rightarrow> u64 \<Rightarrow> bytes option \<Rightarrow> bytes" where
  "fill_record w i old =
     (let rec_start = i * wc_rs w;
          rec_end = min (rec_start + wc_rs w) (wc_new_size w);
          rec = replicate (unat (rec_end - rec_start)) 0;
          rec = (case old of
              Some b \<Rightarrow> let n = min (length b) (length rec) in copy_at 0 (take n b) rec
            | None \<Rightarrow> rec);
          lo = max (wc_off w) rec_start;
          hi = min (wc_end w) rec_end
      in if lo < hi
         then copy_at (unat (lo - rec_start)) (slice (unat (lo - wc_off w)) (unat (hi - wc_off w)) (wc_data w)) rec
         else rec)"

definition write_step :: "'d fs_env \<Rightarrow> write_ctx \<Rightarrow> nat \<Rightarrow> 'd fs \<Rightarrow> (fs_error, ref \<times> ref list) res \<times> 'd fs" where
  "write_step E w n s =
     (let i = of_nat n;
          rec_start = i * wc_rs w;
          rec_end = min (rec_start + wc_rs w) (wc_new_size w);
          touched = (wc_end w > rec_start \<and> wc_off w < rec_end);
          existed = (n < length (wc_old_refs w))
      in if \<not> touched \<and> existed \<and> rec_end \<le> wc_old_size w then (Ok (wc_old_refs w ! n, []), s)
         else
           case (if existed then res_bind (bs_read E s (wc_old_refs w ! n)) (\<lambda>b. Ok (Some b)) else Ok None) of
             Err e \<Rightarrow> (Err e, s)
           | Panic \<Rightarrow> (Panic, s)
           | Ok old \<Rightarrow>
             st_bind (bs_write E (fill_record w i old)) (\<lambda>r.
               st_return (r, if existed then [wc_old_refs w ! n] else [])) s)"

fun write_loop :: "'d fs_env \<Rightarrow> write_ctx \<Rightarrow> nat list \<Rightarrow> 'd fs \<Rightarrow> (fs_error, ref list \<times> ref list) res \<times> 'd fs" where
  "write_loop E w [] s = (Ok ([], []), s)"
| "write_loop E w (n # ns) s =
     st_bind (write_step E w n) (\<lambda>(r, rel).
       st_bind (write_loop E w ns) (\<lambda>(rs, rels). st_return (r # rs, rel @ rels))) s"

text \<open>The record size of the file: frozen when it holds data (the shift count of a release build is
  taken modulo the width), derived from the new size otherwise.\<close>

definition write_rs :: "inode \<Rightarrow> u64 \<Rightarrow> u64 \<times> u8" where
  "write_rs i new_size =
     (if in_size i > 0 then (push_bit (unat (record_size_log2 i) mod 64) 1, record_size_log2 i)
      else record_size_for new_size)"

definition write_ctx_of :: "inode \<Rightarrow> ref list \<Rightarrow> u64 \<Rightarrow> bytes \<Rightarrow> write_ctx" where
  "write_ctx_of i old_refs off data =
     (let write_end = off + of_nat (length data);
          new_size = max (in_size i) write_end
      in \<lparr>wc_old_size = in_size i, wc_old_refs = old_refs, wc_off = off, wc_end = write_end,
          wc_new_size = new_size, wc_rs = fst (write_rs i new_size), wc_data = data\<rparr>)"

definition write_at_locked ::
  "'d fs_env \<Rightarrow> u64 \<Rightarrow> inode \<Rightarrow> u64 \<Rightarrow> bytes \<Rightarrow> 'd fs \<Rightarrow> (fs_error, inode) res \<times> 'd fs" where
  "write_at_locked E ino i off data s =
     (if data = [] then (Ok i, s)
      else
        case load_refs E s i of
          Err e \<Rightarrow> (Err e, s)
        | Panic \<Rightarrow> (Panic, s)
        | Ok old_refs \<Rightarrow>
          let old_container = (if in_size i > 0 \<and> flags i AND FLAG_INLINE_EXTENTS = 0 then [map_ref i] else []);
              w = write_ctx_of i old_refs off data;
              new_size = wc_new_size w;
              log2 = snd (write_rs i new_size);
              rec_count = div_ceil new_size (wc_rs w)
          in st_bind (write_loop E w [0..<unat rec_count]) (\<lambda>(new_refs, to_release).
               st_bind (store_refs E i new_refs new_size log2) (\<lambda>i' s.
                 let s = fold bs_release to_release s;
                     s = fold bs_release old_container s
                 in case touch_mod i' s of (i', s) \<Rightarrow>
                      st_bind (put_inode ino i') (\<lambda>_. st_return i') s)) s)"

end
