(* ===== verification/Vfs.thy ===== *)
theory Vfs
  imports Fs
begin

text \<open>
  The directory helpers and the file-system operations of \<^verbatim>\<open>rust/bloomfs-fs\<close>: loading, caching and
  flushing of directories, and the methods a mount forwards to, from \<open>lookup\<close> to \<open>close\<close>.

  The walk of \<open>dir_subtree_contains\<close> follows the directory tree as it is stored and does not end on a
  cyclic one; it, and \<open>rename\<close>, which calls it, return \<open>None\<close> then.
\<close>

section \<open>Directory helpers\<close>

text \<open>One page of \<open>load_dir\<close>: its entries go into the index, in order.\<close>

definition load_page :: "dir_env \<Rightarrow> dir_entry list \<Rightarrow> nat \<Rightarrow> cached_dir \<Rightarrow> cached_dir" where
  "load_page E entries used h =
     (let p = length (cd_pages h);
          h = fold (\<lambda>e h. h\<lparr>cd_dir := snd (dir_add E (dent_name e) (dent_inode e) (cd_dir h)),
                            cd_page_of := AList.update (dent_name e) p (cd_page_of h)\<rparr>) entries h
      in h\<lparr>cd_pages := cd_pages h @ [entries], cd_used := cd_used h @ [used]\<rparr>)"

function load_pages :: "dir_env \<Rightarrow> bytes \<Rightarrow> cached_dir \<Rightarrow> (fs_error, cached_dir) res" where
  "load_pages E blob h =
     (if blob = [] then Ok h
      else res_bind (decode_dir_page (take DIR_PAGE_SIZE blob)) (\<lambda>(entries, used).
        load_pages E (drop DIR_PAGE_SIZE blob) (load_page E entries used h)))"
  by pat_completeness auto
termination by (relation "measure (\<lambda>(E, blob, h). length blob)") (auto simp: DIR_PAGE_SIZE_def)

declare load_pages.simps [simp del]

definition load_dir :: "'d fs_env \<Rightarrow> 'd fs \<Rightarrow> u64 \<Rightarrow> (fs_error, cached_dir) res" where
  "load_dir E s ino =
     res_bind (map_err FsInode (itable_get (fs_inodes s) ino)) (\<lambda>i.
       if kind i \<noteq> TYPE_DIR then Err NotDir
       else res_bind (get_data E s i) (\<lambda>blob.
         load_pages (fe_dir E) blob
           \<lparr>cd_dir = dir_new (fe_dir E), cd_inode = i, cd_pages = [], cd_used = [], cd_page_of = [], cd_dirty = [], cd_tick = 0\<rparr>))"

definition checkout_dir :: "'d fs_env \<Rightarrow> u64 \<Rightarrow> 'd fs \<Rightarrow> (fs_error, cached_dir) res \<times> 'd fs" where
  "checkout_dir E ino s =
     (case fs_cache s of
        None \<Rightarrow> (load_dir E s ino, s)
      | Some c \<Rightarrow>
        (case map_of (dc_entries c) ino of
           None \<Rightarrow> (load_dir E s ino, s)
         | Some h \<Rightarrow>
           let s = s\<lparr>fs_cache := Some (c\<lparr>dc_entries := AList.delete ino (dc_entries c)\<rparr>)\<rparr>
           in st_bind (get_inode ino) (\<lambda>i. st_return (h\<lparr>cd_inode := i\<rparr>)) s))"

fun flush_pages :: "'d fs_env \<Rightarrow> u64 \<Rightarrow> nat list \<Rightarrow> cached_dir \<Rightarrow> 'd fs \<Rightarrow> (fs_error, cached_dir) res \<times> 'd fs" where
  "flush_pages E ino [] h s = (Ok h, s)"
| "flush_pages E ino (p # ps) h s =
     (if p \<ge> length (cd_pages h) then (Panic, s)
      else case encode_dir_page (cd_pages h ! p) of
        Err e \<Rightarrow> (Err e, s)
      | Panic \<Rightarrow> (Panic, s)
      | Ok page \<Rightarrow>
        st_bind (write_at_locked E ino (cd_inode h) (of_nat p * of_nat DIR_PAGE_SIZE) page) (\<lambda>i.
          flush_pages E ino ps (h\<lparr>cd_inode := i\<rparr>)) s)"

definition flush_dir :: "'d fs_env \<Rightarrow> u64 \<Rightarrow> cached_dir \<Rightarrow> 'd fs \<Rightarrow> (fs_error, cached_dir) res \<times> 'd fs" where
  "flush_dir E ino h s =
     st_bind (flush_pages E ino (fe_dirty_iter E (cd_dirty h)) h) (\<lambda>h. st_return (h\<lparr>cd_dirty := []\<rparr>)) s"

definition commit_dir :: "'d fs_env \<Rightarrow> u64 \<Rightarrow> cached_dir \<Rightarrow> 'd fs \<Rightarrow> (fs_error, unit) res \<times> 'd fs" where
  "commit_dir E ino h s =
     st_bind (flush_dir E ino h) (\<lambda>h s.
       (Ok (), case fs_cache s of
                 Some c \<Rightarrow> s\<lparr>fs_cache := Some (cache_insert (fe_cache_iter E) ino h c)\<rparr>
               | None \<Rightarrow> s)) s"

definition evict_dir :: "u64 \<Rightarrow> 'd fs \<Rightarrow> 'd fs" where
  "evict_dir ino s =
     (case fs_cache s of
        Some c \<Rightarrow> s\<lparr>fs_cache := Some (c\<lparr>dc_entries := AList.delete ino (dc_entries c)\<rparr>)\<rparr>
      | None \<Rightarrow> s)"

definition cache_peek :: "'d fs_env \<Rightarrow> u64 \<Rightarrow> (cached_dir \<Rightarrow> 'a) \<Rightarrow> 'd fs \<Rightarrow> (fs_error, 'a option) res \<times> 'd fs" where
  "cache_peek E ino f s =
     (case fs_cache s of
        None \<Rightarrow> (Ok None, s)
      | Some c \<Rightarrow>
        (case map_of (dc_entries c) ino of
           Some h \<Rightarrow>
             let c = cache_touch ino c
             in (case map_of (dc_entries c) ino of
                   Some h \<Rightarrow> (Ok (Some (f h)), s\<lparr>fs_cache := Some c\<rparr>)
                 | None \<Rightarrow> (Panic, s\<lparr>fs_cache := Some c\<rparr>))
         | None \<Rightarrow>
             (case load_dir E s ino of
                Err e \<Rightarrow> (Err e, s)
              | Panic \<Rightarrow> (Panic, s)
              | Ok h \<Rightarrow>
                let c = cache_insert (fe_cache_iter E) ino h c
                in (case map_of (dc_entries c) ino of
                      Some h \<Rightarrow> (Ok (Some (f h)), s\<lparr>fs_cache := Some c\<rparr>)
                    | None \<Rightarrow> (Panic, s\<lparr>fs_cache := Some c\<rparr>)))))"

function read_pages :: "bytes \<Rightarrow> dir_entry list \<Rightarrow> (fs_error, dir_entry list) res" where
  "read_pages blob out =
     (if blob = [] then Ok out
      else res_bind (decode_dir_page (take DIR_PAGE_SIZE blob)) (\<lambda>(entries, used).
        read_pages (drop DIR_PAGE_SIZE blob) (out @ entries)))"
  by pat_completeness auto
termination by (relation "measure (\<lambda>(blob, out). length blob)") (auto simp: DIR_PAGE_SIZE_def)

declare read_pages.simps [simp del]

definition read_dir_pages :: "'d fs_env \<Rightarrow> 'd fs \<Rightarrow> u64 \<Rightarrow> (fs_error, dir_entry list) res" where
  "read_dir_pages E s ino =
     res_bind (map_err FsInode (itable_get (fs_inodes s) ino)) (\<lambda>i.
       if kind i \<noteq> TYPE_DIR then Err NotDir
       else res_bind (get_data E s i) (\<lambda>blob. read_pages blob []))"

text \<open>The entries of a directory that are directories, in the order they are pushed.\<close>

fun subdirs :: "'d fs \<Rightarrow> dir_entry list \<Rightarrow> (fs_error, u64 list) res" where
  "subdirs s [] = Ok []"
| "subdirs s (e # es) =
     res_bind (map_err FsInode (itable_get (fs_inodes s) (dent_inode e))) (\<lambda>i.
       res_bind (subdirs s es) (\<lambda>ds. Ok (if kind i = TYPE_DIR then dent_inode e # ds else ds)))"

text \<open>The walk: the head of the list is the top of the stack.\<close>

partial_function (option) subtree_walk :: "'d fs_env \<Rightarrow> 'd fs \<Rightarrow> u64 \<Rightarrow> u64 list \<Rightarrow> (fs_error, bool) res option" where
  "subtree_walk E s target stack =
     (case stack of
        [] \<Rightarrow> Some (Ok False)
      | d # rest \<Rightarrow>
        if d = target then Some (Ok True)
        else case res_bind (read_dir_pages E s d) (subdirs s) of
          Err e \<Rightarrow> Some (Err e)
        | Panic \<Rightarrow> Some Panic
        | Ok ds \<Rightarrow> subtree_walk E s target (rev ds @ rest))"

definition dir_subtree_contains :: "'d fs_env \<Rightarrow> 'd fs \<Rightarrow> u64 \<Rightarrow> u64 \<Rightarrow> (fs_error, bool) res option" where
  "dir_subtree_contains E s rt target = subtree_walk E s target [rt]"

section \<open>Reading the name space\<close>

definition fs_lookup :: "'d fs_env \<Rightarrow> u64 \<Rightarrow> name \<Rightarrow> 'd fs \<Rightarrow> (fs_error, u64 option) res \<times> 'd fs" where
  "fs_lookup E parent name s =
     st_bind (cache_peek E parent (\<lambda>h. dir_find (fe_dir E) (cd_dir h) name)) (\<lambda>found s.
       case found of
         Some r \<Rightarrow> (Ok r, s)
       | None \<Rightarrow> (res_bind (read_dir_pages E s parent) (\<lambda>es. Ok (chain_find es name)), s)) s"

definition page_names :: "cached_dir \<Rightarrow> name list" where
  "page_names h = map dent_name (concat (cd_pages h))"

definition fs_readdir :: "'d fs_env \<Rightarrow> u64 \<Rightarrow> 'd fs \<Rightarrow> (fs_error, name list) res \<times> 'd fs" where
  "fs_readdir E ino s =
     st_bind (cache_peek E ino page_names) (\<lambda>names s.
       case names of
         Some ns \<Rightarrow> (Ok ns, s)
       | None \<Rightarrow> (res_bind (read_dir_pages E s ino) (\<lambda>es. Ok (map dent_name es)), s)) s"

fun dirents_of :: "'d fs \<Rightarrow> (name \<times> u64) list \<Rightarrow> (fs_error, dirent list) res" where
  "dirents_of s [] = Ok []"
| "dirents_of s ((n, ino) # ps) =
     res_bind (map_err FsInode (itable_get (fs_inodes s) ino)) (\<lambda>i.
       res_bind (dirents_of s ps) (\<lambda>ds. Ok (\<lparr>dt_name = n, dt_ino = ino, dt_kind = kind i\<rparr> # ds)))"

definition fs_readdirents :: "'d fs_env \<Rightarrow> u64 \<Rightarrow> 'd fs \<Rightarrow> (fs_error, dirent list) res \<times> 'd fs" where
  "fs_readdirents E ino s =
     st_bind (cache_peek E ino (\<lambda>h. map entry_pair (concat (cd_pages h)))) (\<lambda>pairs s.
       (res_bind (case pairs of
                    Some v \<Rightarrow> Ok v
                  | None \<Rightarrow> res_bind (read_dir_pages E s ino) (\<lambda>es. Ok (map entry_pair es)))
          (dirents_of s), s)) s"

definition open_dir_stream :: "'d fs_env \<Rightarrow> u64 \<Rightarrow> 'd fs \<Rightarrow> (fs_error, dir_handle) res \<times> 'd fs" where
  "open_dir_stream E ino s =
     st_bind (cache_peek E ino page_names) (\<lambda>names s.
       (res_bind (case names of
                    Some v \<Rightarrow> Ok v
                  | None \<Rightarrow> res_bind (read_dir_pages E s ino) (\<lambda>es. Ok (map dent_name es)))
          (\<lambda>entries. Ok \<lparr>dh_entries = entries, dh_pos = 0\<rparr>), s)) s"

definition fs_stat_of :: "'d fs \<Rightarrow> u64 \<Rightarrow> (fs_error, fs_stat) res" where
  "fs_stat_of s ino =
     res_bind (map_err FsInode (itable_get (fs_inodes s) ino)) (\<lambda>i.
       Ok \<lparr>st_ino = ino, st_size = in_size i, st_nlink = nlink i, st_generation = generation i, st_mode = mode i,
           st_kind = kind i, st_uid = uid i, st_gid = gid i, st_atime = atime i, st_mtime = mtime i, st_ctime = ctime i\<rparr>)"

definition statfs :: "'d fs \<Rightarrow> fs_statfs" where
  "statfs s =
     (let used = ub_next_inode (fs_ub s) - of_nat (length (fs_free s));
          cap = itable_cap (fs_inodes s);
          bm = po_bm (fs_pool s)
      in \<lparr>sf_block_size = BLK, sf_blocks = bm_total bm, sf_blocks_free = bitmap_available bm + deferred_count bm,
          sf_files = cap, sf_files_free = cap - used\<rparr>)"

definition fallocate :: "'d fs \<Rightarrow> u64 \<Rightarrow> u64 \<Rightarrow> (fs_error, unit) res" where
  "fallocate s ino len =
     (if len = 0 then Ok ()
      else
        let record_size = fst (record_size_for len);
            clusters_per_rec = record_size div BLK;
            n_records = div_ceil len record_size;
            data_clusters = n_records * clusters_per_rec;
            map_bytes = n_records * of_nat REF_SIZE;
            map_clusters = div_ceil map_bytes BLK;
            needed = data_clusters + map_clusters;
            free = bitmap_available (po_bm (fs_pool s)) + deferred_count (po_bm (fs_pool s))
        in if needed > free then Err FsNoSpace else Ok ())"

definition fs_access :: "'d fs \<Rightarrow> u64 \<Rightarrow> u32 \<Rightarrow> u32 \<Rightarrow> u32 \<Rightarrow> u32 list \<Rightarrow> (fs_error, unit) res" where
  "fs_access s ino msk u g gids =
     res_bind (map_err FsInode (itable_get (fs_inodes s) ino)) (\<lambda>i.
       if msk = 0 then Ok ()
       else
         let perm = (ucast (mode i) :: u32) AND 511
         in if u = 0 then
              (if msk AND ACCESS_X \<noteq> 0 \<and> kind i \<noteq> TYPE_DIR \<and> perm AND 73 = 0 then Err Permission else Ok ())
            else
              let shift = (if u = uid i then 6 else if g = gid i \<or> gid i \<in> set gids then 3 else 0);
                  allowed = drop_bit shift perm AND 7
              in if msk AND allowed \<noteq> msk then Err Permission else Ok ())"

section \<open>Creating\<close>

text \<open>\<open>h.add\<close> and \<open>h.del\<close>, whose result the callers ignore; a panic stops them.\<close>

definition dir_link :: "'d fs_env \<Rightarrow> name \<Rightarrow> u64 \<Rightarrow> cached_dir \<Rightarrow> 'd fs \<Rightarrow> (fs_error, cached_dir) res \<times> 'd fs" where
  "dir_link E name ino h s =
     (case cd_add (fe_dir E) name ino h of
        (Panic, h) \<Rightarrow> (Panic, s)
      | (Err e, h) \<Rightarrow> (Err e, s)
      | (Ok b, h) \<Rightarrow> (Ok h, s))"

definition dir_unlink :: "'d fs_env \<Rightarrow> name \<Rightarrow> cached_dir \<Rightarrow> 'd fs \<Rightarrow> (fs_error, cached_dir) res \<times> 'd fs" where
  "dir_unlink E name h s =
     (case cd_del (fe_dir E) name h of
        (Panic, h) \<Rightarrow> (Panic, s)
      | (Err e, h) \<Rightarrow> (Err e, s)
      | (Ok b, h) \<Rightarrow> (Ok h, s))"

definition new_child :: "u8 \<Rightarrow> u16 \<Rightarrow> inode \<Rightarrow> u64 \<Rightarrow> inode" where
  "new_child typ md prev now =
     (let child = inode_default\<lparr>kind := typ, nlink := 1, mode := md, generation := generation prev,
                                atime := now, mtime := now, ctime := now\<rparr>
      in if typ = TYPE_DIR then child\<lparr>nlink := 2\<rparr> else child)"

definition create_node :: "'d fs_env \<Rightarrow> u64 \<Rightarrow> name \<Rightarrow> u8 \<Rightarrow> u16 \<Rightarrow> 'd fs \<Rightarrow> (fs_error, u64) res \<times> 'd fs" where
  "create_node E parent name typ md s =
     st_bind (checkout_dir E parent) (\<lambda>h s.
       if dir_find (fe_dir E) (cd_dir h) name \<noteq> None then (Err FsExists, s)
       else
         st_bind alloc_inode (\<lambda>ino.
           st_bind (get_inode ino) (\<lambda>prev s.
             case fs_now s of (now, s) \<Rightarrow>
               st_bind (put_inode ino (new_child typ md prev now)) (\<lambda>_.
                 st_bind (dir_link E name ino h) (\<lambda>h.
                   let h = (if typ = TYPE_DIR then h\<lparr>cd_inode := (cd_inode h)\<lparr>nlink := nlink (cd_inode h) + 1\<rparr>\<rparr> else h)
                   in st_bind (commit_dir E parent h) (\<lambda>_. st_return ino))) s)) s) s"

definition fs_mkdir :: "'d fs_env \<Rightarrow> u64 \<Rightarrow> name \<Rightarrow> 'd fs \<Rightarrow> (fs_error, u64) res \<times> 'd fs" where
  "fs_mkdir E parent name s = create_node E parent name TYPE_DIR 493 s"

definition fs_create :: "'d fs_env \<Rightarrow> u64 \<Rightarrow> name \<Rightarrow> 'd fs \<Rightarrow> (fs_error, u64) res \<times> 'd fs" where
  "fs_create E parent name s = create_node E parent name TYPE_REGULAR 420 s"

definition fs_symlink :: "'d fs_env \<Rightarrow> u64 \<Rightarrow> name \<Rightarrow> bytes \<Rightarrow> 'd fs \<Rightarrow> (fs_error, u64) res \<times> 'd fs" where
  "fs_symlink E parent name target s =
     (if target = [] then (Err Invalid, s)
      else st_bind (create_node E parent name TYPE_LINK 511) (\<lambda>ino.
        st_bind (get_inode ino) (\<lambda>i.
          st_bind (set_data E ino i target) (\<lambda>_. st_return ino))) s)"

definition fs_readlink :: "'d fs_env \<Rightarrow> 'd fs \<Rightarrow> u64 \<Rightarrow> (fs_error, bytes) res" where
  "fs_readlink E s ino =
     res_bind (map_err FsInode (itable_get (fs_inodes s) ino)) (\<lambda>i.
       if kind i \<noteq> TYPE_LINK then Err Invalid
       else res_bind (get_data E s i) (\<lambda>d. Ok (from_utf8_lossy d)))"

section \<open>File contents\<close>

text \<open>The check all operations on file contents start with.\<close>

definition regular :: "'d fs \<Rightarrow> u64 \<Rightarrow> (fs_error, inode) res" where
  "regular s ino =
     res_bind (map_err FsInode (itable_get (fs_inodes s) ino)) (\<lambda>i. if kind i \<noteq> TYPE_REGULAR then Err NotFile else Ok i)"

definition write_file :: "'d fs_env \<Rightarrow> u64 \<Rightarrow> bytes \<Rightarrow> 'd fs \<Rightarrow> (fs_error, unit) res \<times> 'd fs" where
  "write_file E ino data s = st_bind (\<lambda>s. (regular s ino, s)) (\<lambda>i. set_data E ino i data) s"

definition read_file :: "'d fs_env \<Rightarrow> 'd fs \<Rightarrow> u64 \<Rightarrow> (fs_error, bytes) res" where
  "read_file E s ino = res_bind (regular s ino) (get_data E s)"

fun read_loop :: "'d fs_env \<Rightarrow> 'd fs \<Rightarrow> ref list \<Rightarrow> u64 \<Rightarrow> u64 \<Rightarrow> u64 \<Rightarrow> nat list \<Rightarrow> (fs_error, bytes) res" where
  "read_loop E s refs rs off e [] = Ok []"
| "read_loop E s refs rs off e (n # ns) =
     (if n \<ge> length refs then Panic
      else res_bind (bs_read E s (refs ! n)) (\<lambda>rec.
        let rec_start = of_nat n * rs;
            rec_end = rec_start + of_nat (length rec);
            lo = max off rec_start;
            hi = min e rec_end;
            part = (if lo < hi then slice (unat (lo - rec_start)) (unat (hi - rec_start)) rec else [])
        in res_bind (read_loop E s refs rs off e ns) (\<lambda>out. Ok (part @ out))))"

text \<open>The buffer for the result is allocated first; a length beyond \<open>isize::MAX\<close>, which the wrap-around
  of \<open>off + length\<close> can give, panics there.\<close>

definition read_at :: "'d fs_env \<Rightarrow> 'd fs \<Rightarrow> u64 \<Rightarrow> u64 \<Rightarrow> nat \<Rightarrow> (fs_error, bytes) res" where
  "read_at E s ino off len =
     res_bind (regular s ino) (\<lambda>i.
       if len = 0 \<or> off \<ge> in_size i then Ok []
       else
         let e = min (off + of_nat len) (in_size i)
         in res_bind (load_refs E s i) (\<lambda>refs.
              let rs = push_bit (unat (record_size_log2 i) mod 64) 1
              in if unat (e - off) \<ge> 2 ^ 63 then Panic
                 else read_loop E s refs rs off e [unat (off div rs)..<Suc (unat ((e - 1) div rs))]))"

definition write_at :: "'d fs_env \<Rightarrow> u64 \<Rightarrow> u64 \<Rightarrow> bytes \<Rightarrow> 'd fs \<Rightarrow> (fs_error, unit) res \<times> 'd fs" where
  "write_at E ino off data s =
     st_bind (\<lambda>s. (regular s ino, s)) (\<lambda>i. st_bind (write_at_locked E ino i off data) (\<lambda>_. st_return ())) s"

definition fs_append :: "'d fs_env \<Rightarrow> u64 \<Rightarrow> bytes \<Rightarrow> 'd fs \<Rightarrow> (fs_error, u64) res \<times> 'd fs" where
  "fs_append E ino data s =
     st_bind (\<lambda>s. (regular s ino, s)) (\<lambda>i.
       st_bind (write_at_locked E ino i (in_size i) data) (\<lambda>_. st_return (in_size i))) s"

text \<open>A file that grows is copied into a new vector; one of \<open>2 ^ 63\<close> bytes or more panics.\<close>

definition fs_truncate :: "'d fs_env \<Rightarrow> u64 \<Rightarrow> u64 \<Rightarrow> 'd fs \<Rightarrow> (fs_error, unit) res \<times> 'd fs" where
  "fs_truncate E ino new_size s =
     st_bind (\<lambda>s. (regular s ino, s)) (\<lambda>i s.
       if new_size = in_size i then (Ok (), s)
       else st_bind (\<lambda>s. (get_data E s i, s)) (\<lambda>blob s.
         if new_size \<le> of_nat (length blob) then set_data E ino i (take (unat new_size) blob) s
         else if unat new_size \<ge> 2 ^ 63 then (Panic, s)
         else set_data E ino i (copy_at 0 blob (replicate (unat new_size) 0)) s) s) s"

section \<open>Removing and renaming\<close>

definition reclaim :: "'d fs_env \<Rightarrow> u64 \<Rightarrow> inode \<Rightarrow> 'd fs \<Rightarrow> (fs_error, unit) res \<times> 'd fs" where
  "reclaim E ino i s =
     st_bind (release_data E i) (\<lambda>_.
       st_bind (put_inode ino (inode_default\<lparr>generation := generation i + 1\<rparr>)) (\<lambda>_ s.
         (Ok (), s\<lparr>fs_free := fs_free s @ [ino]\<rparr>))) (evict_dir ino s)"

definition fs_unlink :: "'d fs_env \<Rightarrow> u64 \<Rightarrow> name \<Rightarrow> 'd fs \<Rightarrow> (fs_error, unit) res \<times> 'd fs" where
  "fs_unlink E parent name s =
     st_bind (checkout_dir E parent) (\<lambda>h s.
       case dir_find (fe_dir E) (cd_dir h) name of
         None \<Rightarrow> (Err NotFound, s)
       | Some ino \<Rightarrow>
         st_bind (get_inode ino) (\<lambda>child s.
           if kind child = TYPE_DIR then (Err IsDir, s)
           else st_bind (dir_unlink E name h) (\<lambda>h.
             st_bind (commit_dir E parent h) (\<lambda>_ s.
               let child = (if nlink child > 0 then child\<lparr>nlink := nlink child - 1\<rparr> else child)
               in if nlink child = 0 \<and> open_count_of s ino = 0 then reclaim E ino child s
                  else case touch_meta child s of (child, s) \<Rightarrow> put_inode ino child s)) s) s) s"

definition fs_rmdir :: "'d fs_env \<Rightarrow> u64 \<Rightarrow> name \<Rightarrow> 'd fs \<Rightarrow> (fs_error, unit) res \<times> 'd fs" where
  "fs_rmdir E parent name s =
     st_bind (checkout_dir E parent) (\<lambda>h s.
       case dir_find (fe_dir E) (cd_dir h) name of
         None \<Rightarrow> (Err NotFound, s)
       | Some ino \<Rightarrow>
         st_bind (get_inode ino) (\<lambda>child s.
           if kind child \<noteq> TYPE_DIR then (Err NotDir, s)
           else st_bind (\<lambda>s. (load_dir E s ino, s)) (\<lambda>ch s.
             if \<not> dir_is_empty (cd_dir ch) then (Err NotEmpty, s)
             else st_bind (dir_unlink E name h) (\<lambda>h.
               let h = (if nlink (cd_inode h) > 0 then h\<lparr>cd_inode := (cd_inode h)\<lparr>nlink := nlink (cd_inode h) - 1\<rparr>\<rparr> else h)
               in st_bind (commit_dir E parent h) (\<lambda>_. reclaim E ino child)) s) s) s) s"

definition mutate_inode :: "u64 \<Rightarrow> (inode \<Rightarrow> inode) \<Rightarrow> 'd fs \<Rightarrow> (fs_error, unit) res \<times> 'd fs" where
  "mutate_inode ino f s = st_bind (get_inode ino) (\<lambda>i. put_inode ino (f i)) s"

definition fs_chmod :: "u64 \<Rightarrow> u16 \<Rightarrow> 'd fs \<Rightarrow> (fs_error, unit) res \<times> 'd fs" where
  "fs_chmod ino md s = (case fs_now s of (now, s) \<Rightarrow> mutate_inode ino (\<lambda>i. i\<lparr>mode := md, ctime := now\<rparr>) s)"

definition fs_chown :: "u64 \<Rightarrow> u32 \<Rightarrow> u32 \<Rightarrow> 'd fs \<Rightarrow> (fs_error, unit) res \<times> 'd fs" where
  "fs_chown ino u g s =
     (case fs_now s of (now, s) \<Rightarrow> mutate_inode ino (\<lambda>i. i\<lparr>uid := u, gid := g, ctime := now\<rparr>) s)"

definition fs_utimes :: "u64 \<Rightarrow> u64 \<Rightarrow> u64 \<Rightarrow> 'd fs \<Rightarrow> (fs_error, unit) res \<times> 'd fs" where
  "fs_utimes ino ta tm s =
     (case fs_now s of (now, s) \<Rightarrow> mutate_inode ino (\<lambda>i. i\<lparr>atime := ta, mtime := tm, ctime := now\<rparr>) s)"

definition fs_link :: "'d fs_env \<Rightarrow> u64 \<Rightarrow> name \<Rightarrow> u64 \<Rightarrow> 'd fs \<Rightarrow> (fs_error, unit) res \<times> 'd fs" where
  "fs_link E parent name target_id s =
     st_bind (get_inode target_id) (\<lambda>target s.
       if kind target = TYPE_DIR then (Err NotFile, s)
       else st_bind (checkout_dir E parent) (\<lambda>h s.
         if dir_find (fe_dir E) (cd_dir h) name \<noteq> None then (Err FsExists, s)
         else case touch_meta (target\<lparr>nlink := nlink target + 1\<rparr>) s of (target, s) \<Rightarrow>
           st_bind (put_inode target_id target) (\<lambda>_.
             st_bind (dir_link E name target_id h) (commit_dir E parent)) s) s) s"

definition rename_overwrite ::
  "'d fs_env \<Rightarrow> cached_dir \<Rightarrow> name \<Rightarrow> u64 \<Rightarrow> 'd fs \<Rightarrow> (fs_error, bool \<times> cached_dir) res \<times> 'd fs" where
  "rename_overwrite E dh dn ino s =
     (case dir_find (fe_dir E) (cd_dir dh) dn of
        None \<Rightarrow> (Ok (False, dh), s)
      | Some old_id \<Rightarrow>
        if old_id = ino then (Ok (True, dh), s)
        else st_bind (get_inode old_id) (\<lambda>old.
          let old = (if nlink old > 0 then old\<lparr>nlink := nlink old - 1\<rparr> else old)
          in st_bind (\<lambda>s. if nlink old = 0 \<and> open_count_of s old_id = 0 then reclaim E old_id old s
                          else case touch_meta old s of (old, s) \<Rightarrow> put_inode old_id old s) (\<lambda>_.
               st_bind (dir_unlink E dn dh) (\<lambda>dh. st_return (False, dh)))) s)"

definition touch_moved :: "u64 \<Rightarrow> 'd fs \<Rightarrow> (fs_error, unit) res \<times> 'd fs" where
  "touch_moved ino s =
     (case itable_get (fs_inodes s) ino of
        Ok m \<Rightarrow> (case touch_meta m s of (m, s) \<Rightarrow> put_inode ino m s)
      | Err e \<Rightarrow> (Ok (), s)
      | Panic \<Rightarrow> (Panic, s))"

text \<open>Would the move put a directory below itself?\<close>

definition rename_loops :: "'d fs_env \<Rightarrow> 'd fs \<Rightarrow> u64 \<Rightarrow> u64 \<Rightarrow> u64 \<Rightarrow> (fs_error, bool) res option" where
  "rename_loops E s src_parent dst_parent ino =
     (if src_parent \<noteq> dst_parent then
        (case itable_get (fs_inodes s) ino of
           Err e \<Rightarrow> Some (Err (FsInode e))
         | Panic \<Rightarrow> Some Panic
         | Ok i \<Rightarrow> if kind i = TYPE_DIR then dir_subtree_contains E s ino dst_parent else Some (Ok False))
      else Some (Ok False))"

definition rename_same ::
  "'d fs_env \<Rightarrow> u64 \<Rightarrow> cached_dir \<Rightarrow> name \<Rightarrow> name \<Rightarrow> u64 \<Rightarrow> 'd fs \<Rightarrow> (fs_error, unit) res \<times> 'd fs" where
  "rename_same E src_parent sh src_name dst_name ino s =
     st_bind (rename_overwrite E sh dst_name ino) (\<lambda>(same, sh) s.
       if same then (Ok (), s)
       else st_bind (dir_link E dst_name ino sh) (\<lambda>sh.
         st_bind (dir_unlink E src_name sh) (\<lambda>sh.
           st_bind (touch_moved ino) (\<lambda>_. commit_dir E src_parent sh))) s) s"

definition rename_across ::
  "'d fs_env \<Rightarrow> u64 \<Rightarrow> cached_dir \<Rightarrow> name \<Rightarrow> u64 \<Rightarrow> name \<Rightarrow> u64 \<Rightarrow> 'd fs \<Rightarrow> (fs_error, unit) res \<times> 'd fs" where
  "rename_across E src_parent sh src_name dst_parent dst_name ino s =
     st_bind (checkout_dir E dst_parent) (\<lambda>dh.
       st_bind (rename_overwrite E dh dst_name ino) (\<lambda>(same, dh) s.
         if same then (Ok (), s)
         else st_bind (dir_link E dst_name ino dh) (\<lambda>dh.
           st_bind (dir_unlink E src_name sh) (\<lambda>sh.
             st_bind (touch_moved ino) (\<lambda>_.
               st_bind (commit_dir E dst_parent dh) (\<lambda>_. commit_dir E src_parent sh)))) s)) s"

definition fs_rename :: "'d fs_env \<Rightarrow> u64 \<Rightarrow> name \<Rightarrow> u64 \<Rightarrow> name \<Rightarrow> 'd fs \<Rightarrow> ((fs_error, unit) res \<times> 'd fs) option" where
  "fs_rename E src_parent src_name dst_parent dst_name s =
     (case checkout_dir E src_parent s of
        (Err e, s) \<Rightarrow> Some (Err e, s)
      | (Panic, s) \<Rightarrow> Some (Panic, s)
      | (Ok sh, s) \<Rightarrow>
        (case dir_find (fe_dir E) (cd_dir sh) src_name of
           None \<Rightarrow> Some (Err NotFound, s)
         | Some ino \<Rightarrow>
           if dst_parent = ino then Some (Err Invalid, s)
           else
             (case rename_loops E s src_parent dst_parent ino of
                None \<Rightarrow> None
              | Some (Err e) \<Rightarrow> Some (Err e, s)
              | Some Panic \<Rightarrow> Some (Panic, s)
              | Some (Ok True) \<Rightarrow> Some (Err Invalid, s)
              | Some (Ok False) \<Rightarrow>
                Some (if src_parent = dst_parent then rename_same E src_parent sh src_name dst_name ino s
                      else rename_across E src_parent sh src_name dst_parent dst_name ino s))))"

section \<open>Open handles\<close>

definition fs_open_file :: "u64 \<Rightarrow> 'd fs \<Rightarrow> (fs_error, handle) res \<times> 'd fs" where
  "fs_open_file ino s =
     st_bind (\<lambda>s. (regular s ino, s)) (\<lambda>_ s.
       (Ok \<lparr>hd_id = ino, hd_closed = False\<rparr>, s\<lparr>fs_open := AList.update ino (open_count_of s ino + 1) (fs_open s)\<rparr>)) s"

definition handle_read :: "'d fs_env \<Rightarrow> 'd fs \<Rightarrow> handle \<Rightarrow> (fs_error, bytes) res" where
  "handle_read E s h =
     res_bind (map_err FsInode (itable_get (fs_inodes s) (hd_id h))) (get_data E s)"

definition fs_close :: "'d fs_env \<Rightarrow> handle \<Rightarrow> 'd fs \<Rightarrow> (fs_error, unit) res \<times> handle \<times> 'd fs" where
  "fs_close E h s =
     (if hd_closed h then (Ok (), h, s)
      else
        let h = h\<lparr>hd_closed := True\<rparr>;
            ino = hd_id h;
            s = (case map_of (fs_open s) ino of
                   Some c \<Rightarrow> if c > 0 then s\<lparr>fs_open := AList.update ino (c - 1) (fs_open s)\<rparr> else s
                 | None \<Rightarrow> s)
        in if open_count_of s ino = 0
           then (case st_bind (get_inode ino) (\<lambda>i s. if nlink i = 0 then reclaim E ino i s else (Ok (), s))
                        (s\<lparr>fs_open := AList.delete ino (fs_open s)\<rparr>) of (r, s) \<Rightarrow> (r, h, s))
           else (Ok (), h, s))"

end
