(* ===== verification/Volume.thy ===== *)
theory Volume
  imports Fs "HOL-Library.Multiset"
begin

text \<open>
  The block layer of the file system: what \<open>bs_write\<close>, \<open>bs_read\<close>, \<open>bs_release\<close> and \<open>commit\<close> of
  \<^verbatim>\<open>rust/bloomfs-fs\<close> guarantee to the code above them.

  \<open>vol_ok\<close> is the invariant of a mounted volume on which a multiset of references is held: every
  reference held is an entry of the deduplication table, with at least as many counts as it has
  holders.  The lemmas are in the style of a frame rule: an operation that takes or gives up one
  reference keeps the contents of all the others.  A count may be too high (an operation that fails
  half-way leaks references), never too low.
\<close>

section \<open>The invariant\<close>

text \<open>What the volume relies on: the libraries round-trip, the hash table's iteration visits every
  entry, and the hash does not collide on the contents \<open>U\<close> that are ever stored.\<close>

definition env_ok :: "'d device \<Rightarrow> bytes set \<Rightarrow> 'd fs_env \<Rightarrow> bool" where
  "env_ok dv U E = (fe_dev E = dv \<and> crypto_ok (fe_crypto E) \<and> is_iter (fe_ddt_iter E) \<and>
     inj_on (blake3 (fe_crypto E)) U \<and> (\<forall>pt \<in> U. length pt < 2 ^ 32))"

text \<open>Every reference held is backed by a table entry that counts it.\<close>

definition owned :: "dedup_table \<Rightarrow> ref multiset \<Rightarrow> bool" where
  "owned ddt M = (\<forall>r \<in># M. \<exists>e. map_of ddt (rf_hash r) = Some e \<and> r = ref_from (rf_hash r) e \<and> count M r \<le> unat (de_refs e))"

definition vol_ok ::
  "('d \<Rightarrow> bool) \<Rightarrow> ('d \<Rightarrow> nat \<Rightarrow> bytes) \<Rightarrow> 'd fs_env \<Rightarrow> bytes set \<Rightarrow> nat \<Rightarrow> (key \<rightharpoonup> bytes) \<Rightarrow> ref multiset \<Rightarrow> 'd fs \<Rightarrow> bool" where
  "vol_ok dok V E U N ct M s =
     (let p = fs_pool s; B = unat (blocks (fe_dev E) (po_dev p)); R = {0..<unat (ub_data_start (fs_ub s))} in
      dok (po_dev p) \<and> pool_inv (fe_crypto E) (fs_bs s) (V (po_dev p)) B (po_bm p) (po_ddt p) ct \<and>
      geom (fs_ub s) B \<and> R \<subseteq> used_set (po_bm p) \<and> avoids R (po_ddt p) \<and> deferred_set (po_bm p) \<inter> R = {} \<and>
      itable_ok (fs_inodes s) \<and> ran ct \<subseteq> U \<and> refs_below (po_ddt p) N \<and> owned (po_ddt p) M \<and>
      itable_cap (fs_inodes s) = ub_inode_count (fs_ub s) \<and>
      (\<forall>u. parse_uber (fe_crypto E) (V (po_dev p) (uslot (fs_ub s))) = Ok u \<longrightarrow> ub_seq u \<le> ub_seq (fs_ub s)))"

text \<open>What the block layer leaves alone.\<close>

definition same_rest :: "'d fs \<Rightarrow> 'd fs \<Rightarrow> bool" where
  "same_rest s s' = (fs_inodes s' = fs_inodes s \<and> fs_bs s' = fs_bs s \<and> fs_open s' = fs_open s \<and> fs_free s' = fs_free s \<and>
     fs_clock s' = fs_clock s \<and> fs_reads s' = fs_reads s \<and> fs_cache s' = fs_cache s \<and>
     ub_root_inode (fs_ub s') = ub_root_inode (fs_ub s) \<and> ub_next_inode (fs_ub s') = ub_next_inode (fs_ub s) \<and>
     ub_inode_count (fs_ub s') = ub_inode_count (fs_ub s))"

definition agree :: "ref multiset \<Rightarrow> (key \<rightharpoonup> bytes) \<Rightarrow> (key \<rightharpoonup> bytes) \<Rightarrow> bool" where
  "agree M ct ct' = (\<forall>r \<in># M. ct' (rf_hash r) = ct (rf_hash r))"

lemma same_rest_refl [simp]: "same_rest s s"
  by (simp add: same_rest_def)

lemma same_rest_trans: "same_rest s t \<Longrightarrow> same_rest t u \<Longrightarrow> same_rest s u"
  by (simp add: same_rest_def)

lemma agree_refl [simp]: "agree M ct ct"
  by (simp add: agree_def)

lemma agree_trans: "agree M a b \<Longrightarrow> agree M b c \<Longrightarrow> agree M a c"
  by (simp add: agree_def)

lemma agree_mono: "agree M a b \<Longrightarrow> M' \<subseteq># M \<Longrightarrow> agree M' a b"
  by (auto simp: agree_def dest: mset_subset_eqD)

section \<open>Counting references\<close>

lemma ref_from_refs [simp]: "ref_from k (e\<lparr>de_refs := n\<rparr>) = ref_from k e"
  by (simp add: ref_from_def)

lemma rf_hash_ref_from [simp]: "rf_hash (ref_from k e) = k"
  by (simp add: ref_from_def)

lemma owned_mono: "owned ddt M \<Longrightarrow> M' \<subseteq># M \<Longrightarrow> owned ddt M'"
  unfolding owned_def by (meson mset_subset_eqD mset_subset_eq_count le_trans)

lemma ownedD:
  assumes "owned ddt M" "r \<in># M"
  obtains e where "map_of ddt (rf_hash r) = Some e" "r = ref_from (rf_hash r) e" "count M r \<le> unat (de_refs e)"
  using assms by (auto simp: owned_def)

text \<open>References held with the same hash are the same.\<close>

lemma owned_unique: "owned ddt M \<Longrightarrow> r \<in># M \<Longrightarrow> q \<in># M \<Longrightarrow> rf_hash q = rf_hash r \<Longrightarrow> q = r"
  by (metis ownedD option.inject)

lemma owned_incr:
  assumes "owned ddt M" "map_of ddt k = Some e" "unat (de_refs e) + 1 < 2 ^ 32"
    and m': "map_of ddt' = (map_of ddt)(k \<mapsto> e\<lparr>de_refs := de_refs e + 1\<rparr>)"
  shows "owned ddt' (add_mset (ref_from k e) M)"
proof -
  have u: "unat (de_refs e + 1) = unat (de_refs e) + 1" using assms(3) by (subst unat_add_small) auto
  have "count M (ref_from k e) \<le> unat (de_refs e)"
  proof (cases "ref_from k e \<in># M")
    case True
    then show ?thesis using assms(2) by (elim ownedD [OF assms(1)]) simp
  qed (simp add: not_in_iff)
  then show ?thesis
    using assms(1,2) u unfolding owned_def m' by (auto split: if_splits)
qed

lemma owned_add:
  assumes "owned ddt M" "map_of ddt k = None" "map_of ddt' = (map_of ddt)(k \<mapsto> e\<lparr>de_refs := 1\<rparr>)"
  shows "owned ddt' (add_mset (ref_from k e) M)"
proof -
  have new: "r \<in># M \<Longrightarrow> rf_hash r \<noteq> k" for r using assms(2) by (metis ownedD [OF assms(1)] option.distinct(1))
  then have nin: "ref_from k e \<notin># M" by (metis rf_hash_ref_from)
  then have "count M (ref_from k e) = 0" by (simp add: not_in_iff)
  then show ?thesis
    using assms(1) new nin unfolding owned_def assms(3) by (auto split: if_splits)
qed

lemma owned_decr:
  assumes "owned ddt (add_mset r M)" "map_of ddt (rf_hash r) = Some e" "1 < unat (de_refs e)"
    and m': "map_of ddt' = (map_of ddt)(rf_hash r \<mapsto> e\<lparr>de_refs := of_nat (unat (de_refs e) - 1)\<rparr>)"
  shows "owned ddt' M"
proof -
  have u: "unat (of_nat (unat (de_refs e) - 1) :: u32) = unat (de_refs e) - 1"
    using unsigned_less [of "de_refs e", where ?'a = nat] by (intro unat_of_nat_small) simp
  have "\<exists>e'. map_of ddt' (rf_hash q) = Some e' \<and> q = ref_from (rf_hash q) e' \<and> count M q \<le> unat (de_refs e')"
    if q: "q \<in># M" for q
  proof -
    have "q \<in># add_mset r M" using q by simp
    then obtain e1 where e1: "map_of ddt (rf_hash q) = Some e1" "q = ref_from (rf_hash q) e1" "count (add_mset r M) q \<le> unat (de_refs e1)"
      by (rule ownedD [OF assms(1)])
    show ?thesis
    proof (cases "rf_hash q = rf_hash r")
      case True
      then have "q = r" using owned_unique [OF assms(1), of r q] q by simp
      moreover have "e1 = e" using True e1(1) assms(2) by simp
      ultimately show ?thesis using e1(2,3) u unfolding m' by simp
    next
      case False
      then show ?thesis using e1 unfolding m' by (auto split: if_splits)
    qed
  qed
  then show ?thesis by (simp add: owned_def)
qed

lemma owned_last:
  assumes "owned ddt (add_mset r M)" "map_of ddt (rf_hash r) = Some e" "unat (de_refs e) = 1"
    and m': "map_of ddt' = (map_of ddt)(rf_hash r := None)"
  shows "owned ddt' M" "\<forall>q \<in># M. rf_hash q \<noteq> rf_hash r"
proof -
  have "r \<in># add_mset r M" by simp
  then have "count (add_mset r M) r \<le> 1" using assms(2,3) by (elim ownedD [OF assms(1)]) simp
  then have "r \<notin># M" by (simp add: not_in_iff)
  then show other: "\<forall>q \<in># M. rf_hash q \<noteq> rf_hash r" using owned_unique [OF assms(1), of r] by fastforce
  have "owned ddt M" using owned_mono [OF assms(1), of M] by simp
  then show "owned ddt' M" using other unfolding owned_def m' by simp
qed

text \<open>The deduplication table after a write.\<close>

lemma store_write_table:
  assumes "store_write C dv bs pt p = (Ok rf, p')"
  shows "\<exists>e. rf = ref_from (blake3 C pt) e \<and>
    (map_of (po_ddt p) (blake3 C pt) = Some e \<and>
       map_of (po_ddt p') = (map_of (po_ddt p))(blake3 C pt \<mapsto> e\<lparr>de_refs := de_refs e + 1\<rparr>) \<or>
     map_of (po_ddt p) (blake3 C pt) = None \<and> map_of (po_ddt p') = (map_of (po_ddt p))(blake3 C pt \<mapsto> e\<lparr>de_refs := 1\<rparr>))"
proof (cases "map_of (po_ddt p) (blake3 C pt)")
  case (Some e)
  then show ?thesis
    using assms by (auto simp: store_write_def Let_def dedup_lookup_def dedup_incr_def update_conv')
next
  case None
  then obtain e where "rf = ref_from (blake3 C pt) e" "po_ddt p' = dedup_add (blake3 C pt) e (po_ddt p)"
    using assms by (auto simp: store_write_def Let_def dedup_lookup_def split: option.splits prod.splits res.splits)
  then show ?thesis using None by (auto simp: dedup_add_def update_conv')
qed

lemma refs_below_mono: "refs_below ddt N \<Longrightarrow> n \<le> N \<Longrightarrow> refs_below ddt n"
  unfolding refs_below_def by (meson add_left_mono le_less_trans)

lemma refs_below_release:
  assumes "dedup_ok ddt" "refs_below ddt N"
  shows "refs_below (snd (dedup_decr k ddt)) N"
proof (cases "map_of ddt k")
  case (Some e)
  have "unat (de_refs e - 1) \<le> unat (de_refs e)"
    using unat_u32_pred [of "de_refs e"] dedup_ok_lookup [OF assms(1) Some] by simp
  moreover have "unat (de_refs e) + N < 2 ^ 32" using assms(2) Some by (simp add: refs_below_def)
  ultimately have "unat (de_refs e - 1) + N < 2 ^ 32" by linarith
  then show ?thesis
    using assms(2) Some by (auto simp: refs_below_def dedup_decr_def update_conv' delete_conv' Let_def split: if_splits)
qed (use assms in \<open>simp add: dedup_decr_def\<close>)

section \<open>Commit\<close>

lemma vol_okD:
  assumes "vol_ok dok V E U N ct M s"
  shows "dok (po_dev (fs_pool s))"
    "pool_inv (fe_crypto E) (fs_bs s) (V (po_dev (fs_pool s))) (unat (blocks (fe_dev E) (po_dev (fs_pool s)))) (po_bm (fs_pool s)) (po_ddt (fs_pool s)) ct"
    "geom (fs_ub s) (unat (blocks (fe_dev E) (po_dev (fs_pool s))))"
    "{0..<unat (ub_data_start (fs_ub s))} \<subseteq> used_set (po_bm (fs_pool s))"
    "avoids {0..<unat (ub_data_start (fs_ub s))} (po_ddt (fs_pool s))"
    "deferred_set (po_bm (fs_pool s)) \<inter> {0..<unat (ub_data_start (fs_ub s))} = {}"
    "itable_ok (fs_inodes s)" "ran ct \<subseteq> U" "refs_below (po_ddt (fs_pool s)) N" "owned (po_ddt (fs_pool s)) M"
    "itable_cap (fs_inodes s) = ub_inode_count (fs_ub s)"
    "\<forall>u. parse_uber (fe_crypto E) (V (po_dev (fs_pool s)) (uslot (fs_ub s))) = Ok u \<longrightarrow> ub_seq u \<le> ub_seq (fs_ub s)"
  using assms by (auto simp: vol_ok_def Let_def)

lemma vol_ok_mono: "vol_ok dok V E U N ct M s \<Longrightarrow> M' \<subseteq># M \<Longrightarrow> n \<le> N \<Longrightarrow> vol_ok dok V E U n ct M' s"
  by (auto simp: vol_ok_def Let_def intro: owned_mono refs_below_mono)

text \<open>Only the pool, the uberblock, the key and the inode table matter.\<close>

lemma vol_ok_cong:
  assumes "vol_ok dok V E U N ct M s" "fs_pool s' = fs_pool s" "fs_ub s' = (fs_ub s)\<lparr>ub_next_inode := nx\<rparr> \<or> fs_ub s' = fs_ub s"
    and "fs_bs s' = fs_bs s" "itable_ok (fs_inodes s')" "itable_cap (fs_inodes s') = itable_cap (fs_inodes s)"
  shows "vol_ok dok V E U N ct M s'"
  using assms by (auto simp: vol_ok_def Let_def geom_def uslot_def)

lemma uslot_reserved: "geom ub B \<Longrightarrow> uslot ub < unat (ub_data_start ub)"
  using uslot_cases [of ub] by (auto simp: geom_def)

text \<open>A write of metadata blocks only.\<close>

lemma pool_inv_reserved:
  assumes inv: "pool_inv C bs V B bm ddt ct" and av: "avoids R ddt" and V': "\<And>n. n \<notin> R \<Longrightarrow> V' n = V n"
  shows "pool_inv C bs V' B bm ddt ct"
proof -
  have "entry_inv C bs V' B bm k e pt" if e: "map_of ddt k = Some e" "entry_inv C bs V B bm k e pt" for k e pt
  proof -
    have "entry_run e \<inter> R = {}" using av e(1) by (auto simp: avoids_def)
    then have "V' n = V n" if "n \<in> entry_run e" for n using that V' by blast
    then have "holds C bs V' B e pt" using e(2) holds_cong [of C bs V B e pt V'] by (simp add: entry_inv_def)
    then show ?thesis using e(2) by (simp add: entry_inv_def)
  qed
  then show ?thesis using inv unfolding pool_inv_def by blast
qed

context block_device begin

lemma fs_commit_vol:
  assumes ev: "env_ok dv U E" and v: "vol_ok dev_ok view E U N ct M s" and w: "fs_commit E s = (r, s')"
  shows "vol_ok dev_ok view E U N ct M s' \<and> same_rest s s' \<and> r \<noteq> Panic \<and>
    (snap_len (po_bm (fs_pool s)) (po_ddt (fs_pool s)) (fs_inodes s) \<le> mblocks (fs_ub s) * SIZE \<longrightarrow> r = Ok ())"
proof -
  note vd = vol_okD [OF v]
  let ?p = "fs_pool s" and ?ub = "fs_ub s" and ?C = "fe_crypto E"
  let ?ri = "ub_root_inode ?ub" and ?ni = "ub_next_inode ?ub"
  have e: "fe_dev E = dv" "crypto_ok ?C" "is_iter (fe_ddt_iter E)" using ev by (auto simp: env_ok_def)
  note inv = vd(2) [unfolded e(1)]
  have po: "parts_ok (po_bm ?p) (po_ddt ?p) (fs_inodes s)" using pool_inv_facts(1,3) [OF inv] vd(7) by (simp add: parts_ok_def)
  show ?thesis
  proof (cases "snap_len (po_bm ?p) (po_ddt ?p) (fs_inodes s) \<le> mblocks ?ub * SIZE")
    case True
    define nx where "nx = next_uber ?ub (po_bm ?p) (po_ddt ?p) (fs_inodes s) ?ri ?ni"
    define buf where "buf = snap_buf (fe_ddt_iter E) (mblocks ?ub * SIZE) (po_bm ?p) (po_ddt ?p) (fs_inodes s) (Some (fs_meta_buf s))"
    obtain d' b where c: "cow_commit ?C (fe_ddt_iter E) dv ?ub (po_bm ?p) (po_ddt ?p) (fs_inodes s) ?ri ?ni (Some (fs_meta_buf s)) (po_dev ?p) =
        (Ok nx, d', apply_deferred (po_bm ?p), b)" and ok: "dev_ok d'" and bl: "blocks dv d' = blocks dv (po_dev ?p)"
      and vw: "view d' = (put_meta (unat (meta_start nx)) (mblocks ?ub) buf (view (po_dev ?p)))(uslot nx := uber_marshal ?C nx)"
      using commit_view [OF e(2,3) vd(1) vd(3) [unfolded e(1)] po True nx_def buf_def] by blast
    let ?R = "{0..<unat (ub_data_start ?ub)}"
    note g = next_uber_geom [OF vd(3) [unfolded e(1)] nx_def]
    have ds: "ub_data_start nx = ub_data_start ?ub" by (simp add: nx_def next_uber_def)
    have out: "view d' n = view (po_dev ?p) n" if "n \<notin> ?R" for n
      using that meta_slot_range(1,2) [OF g(1)] g(2) ds uslot_cases [of nx] by (auto simp: vw put_meta_def)
    have "pool_inv ?C (fs_bs s) (view d') (unat (blocks dv (po_dev ?p))) (apply_deferred (po_bm ?p)) (po_ddt ?p) ct"
      by (rule pool_inv_apply_deferred [OF pool_inv_reserved [OF inv vd(5) out]])
    moreover note ad = apply_deferred_spec [OF pool_inv_facts(1) [OF inv]]
    moreover have "r = Ok ()" "s' = s\<lparr>fs_pool := ?p\<lparr>po_dev := d', po_bm := apply_deferred (po_bm ?p)\<rparr>,
        fs_meta_buf := (case b of Some b \<Rightarrow> b | None \<Rightarrow> fs_meta_buf s), fs_ub := nx\<rparr>"
      using w unfolding fs_commit_def Let_def e(1) c by auto
    moreover have "?R \<subseteq> used_set (apply_deferred (po_bm ?p))" using vd(4,6) ad(2) by auto
    moreover have "parse_uber ?C (view d' (uslot nx)) = Ok nx"
      using parse_uber_marshal [OF e(2), of nx] g(1) by (simp add: vw geom_def)
    ultimately show ?thesis
      using vd ok bl g(1) ds e(1) by (simp add: vol_ok_def same_rest_def deferred_set_def) (simp add: nx_def next_uber_def)
  next
    case False
    have "unat (ub_meta_blocks ?ub * BLK) = mblocks ?ub * SIZE" by (rule meta_slot_range(4) [OF vd(3)])
    then have "cow_commit ?C (fe_ddt_iter E) dv ?ub (po_bm ?p) (po_ddt ?p) (fs_inodes s) ?ri ?ni (Some (fs_meta_buf s)) (po_dev ?p) =
        (Err MetaTooBig, po_dev ?p, po_bm ?p, Some (fs_meta_buf s))"
      using False by (intro cow_commit_too_big) simp
    then have "r = Err (FsCow MetaTooBig)" "s' = s" using w e(1) by (auto simp: fs_commit_def Let_def)
    then show ?thesis using v False by simp
  qed
qed

text \<open>After a commit the device mounts to the committed state.\<close>

lemma fs_commit_committed:
  assumes ev: "env_ok dv U E" and v: "vol_ok dev_ok view E U N ct M s" and w: "fs_commit E s = (Ok (), s')"
    and seq: "unat (ub_seq (fs_ub s)) + 1 < 2 ^ 64"
  shows "cow_mount (fe_crypto E) dv (po_dev (fs_pool s')) =
    Ok (fs_ub s', (po_bm (fs_pool s))\<lparr>bm_deferred := []\<rparr>, fe_ddt_iter E (po_ddt (fs_pool s)), fs_inodes s)"
    "po_bm (fs_pool s') = apply_deferred (po_bm (fs_pool s))" "po_ddt (fs_pool s') = po_ddt (fs_pool s)"
    "ub_data_start (fs_ub s') = ub_data_start (fs_ub s)" "ub_seq (fs_ub s') = ub_seq (fs_ub s) + 1"
proof -
  note vd = vol_okD [OF v]
  let ?p = "fs_pool s" and ?ub = "fs_ub s" and ?C = "fe_crypto E"
  let ?ri = "ub_root_inode ?ub" and ?ni = "ub_next_inode ?ub" and ?B = "unat (blocks dv (po_dev (fs_pool s)))"
  have e: "fe_dev E = dv" "crypto_ok ?C" "is_iter (fe_ddt_iter E)" using ev by (auto simp: env_ok_def)
  note inv = vd(2) [unfolded e(1)] and g0 = vd(3) [unfolded e(1)]
  have po: "parts_ok (po_bm ?p) (po_ddt ?p) (fs_inodes s)" using pool_inv_facts(1,3) [OF inv] vd(7) by (simp add: parts_ok_def)
  have fit: "snap_len (po_bm ?p) (po_ddt ?p) (fs_inodes s) \<le> mblocks ?ub * SIZE"
  proof (rule ccontr)
    assume "\<not> ?thesis"
    then have "cow_commit ?C (fe_ddt_iter E) dv ?ub (po_bm ?p) (po_ddt ?p) (fs_inodes s) ?ri ?ni (Some (fs_meta_buf s)) (po_dev ?p) =
        (Err MetaTooBig, po_dev ?p, po_bm ?p, Some (fs_meta_buf s))"
      using meta_slot_range(4) [OF g0] by (intro cow_commit_too_big) simp
    then show False using w e(1) by (simp add: fs_commit_def Let_def)
  qed
  define nx where "nx = next_uber ?ub (po_bm ?p) (po_ddt ?p) (fs_inodes s) ?ri ?ni"
  define buf where "buf = snap_buf (fe_ddt_iter E) (mblocks ?ub * SIZE) (po_bm ?p) (po_ddt ?p) (fs_inodes s) (Some (fs_meta_buf s))"
  obtain d' b where c: "cow_commit ?C (fe_ddt_iter E) dv ?ub (po_bm ?p) (po_ddt ?p) (fs_inodes s) ?ri ?ni (Some (fs_meta_buf s)) (po_dev ?p) =
      (Ok nx, d', apply_deferred (po_bm ?p), b)" and ok: "dev_ok d'" and bl: "blocks dv d' = blocks dv (po_dev ?p)"
    and vw: "view d' = (put_meta (unat (meta_start nx)) (mblocks ?ub) buf (view (po_dev ?p)))(uslot nx := uber_marshal ?C nx)"
    using commit_view [OF e(2,3) vd(1) g0 po fit nx_def buf_def] by blast
  have s': "po_dev (fs_pool s') = d'" "fs_ub s' = nx" "po_bm (fs_pool s') = apply_deferred (po_bm ?p)" "po_ddt (fs_pool s') = po_ddt ?p"
    using w unfolding fs_commit_def Let_def e(1) c by auto
  note g = next_uber_geom [OF g0 nx_def]
  have "parse_uber ?C (uber_marshal ?C nx) = Ok nx" using parse_uber_marshal [OF e(2)] g(1) by (simp add: geom_def)
  moreover have "ub_seq ?ub < ub_seq nx"
    using seq unat_add_small [of "ub_seq ?ub" 1] by (simp add: word_less_nat_alt nx_def next_uber_def)
  moreover have "1 - uslot nx = uslot ?ub" using uslot_cases [of ?ub] by (auto simp: next_uber_slot [OF nx_def])
  ultimately have "committed ?C (view d') ?B (nx, (po_bm ?p)\<lparr>bm_deferred := []\<rparr>, fe_ddt_iter E (po_ddt ?p), fs_inodes s)"
    using vd(11,12) by (intro committed_snap [OF e(3) g(1) po _ _ _ _ _ _ vw [folded g(2)]])
      (auto simp: nx_def next_uber_def buf_def fit [unfolded next_uber_def])
  then show "cow_mount (fe_crypto E) dv (po_dev (fs_pool s')) =
      Ok (fs_ub s', (po_bm (fs_pool s))\<lparr>bm_deferred := []\<rparr>, fe_ddt_iter E (po_ddt (fs_pool s)), fs_inodes s)"
    using mount_committed [OF ok] bl s' by simp
  show "po_bm (fs_pool s') = apply_deferred (po_bm ?p)" "po_ddt (fs_pool s') = po_ddt ?p" "ub_data_start (fs_ub s') = ub_data_start ?ub"
    "ub_seq (fs_ub s') = ub_seq ?ub + 1"
    using s' by (simp_all add: nx_def next_uber_def)
qed

end

section \<open>Blocks\<close>

context block_device begin

text \<open>One attempt at a write.\<close>

lemma store_write_vol:
  assumes ev: "env_ok dv U E" and v: "vol_ok dev_ok view E U (Suc N) ct M s" and N: "Suc N < 2 ^ 32" and pt: "pt \<in> U"
    and w: "store_write (fe_crypto E) dv (fs_bs s) pt (fs_pool s) = (r, p')"
    and ct': "ct' = ct(blake3 (fe_crypto E) pt \<mapsto> pt)"
  shows "(\<exists>rf. r = Ok rf \<and> ref_ok rf \<and> ct' (rf_hash rf) = Some pt \<and> agree M ct ct' \<and>
      vol_ok dev_ok view E U N ct' (add_mset rf M) (s\<lparr>fs_pool := p'\<rparr>)) \<or>
    p' = fs_pool s \<and> (\<exists>e. r = Err e)"
proof -
  note vd = vol_okD [OF v]
  let ?p = "fs_pool s" and ?C = "fe_crypto E"
  let ?k = "blake3 ?C pt"
  have e: "fe_dev E = dv" "crypto_ok ?C" "inj_on (blake3 ?C) U" "length pt < 2 ^ 32" using ev pt by (auto simp: env_ok_def)
  note inv = vd(2) [unfolded e(1)]
  have nc: "\<forall>q. ct ?k = Some q \<longrightarrow> q = pt" using pool_no_collision [OF inv e(3) vd(8) pt] by blast
  have rb: "refs_below (po_ddt ?p) 1" using refs_below_mono [OF vd(9)] by simp
  note ps = put_step [OF e(2) vd(1) inv rb e(4) nc w]
  show ?thesis
  proof (cases "\<exists>rf. r = Ok rf")
    case True
    then obtain rf where rf: "r = Ok rf" by blast
    obtain en where en: "rf = ref_from ?k en" and tab: "map_of (po_ddt ?p) ?k = Some en \<and>
        map_of (po_ddt p') = (map_of (po_ddt ?p))(?k \<mapsto> en\<lparr>de_refs := de_refs en + 1\<rparr>) \<or>
        map_of (po_ddt ?p) ?k = None \<and> map_of (po_ddt p') = (map_of (po_ddt ?p))(?k \<mapsto> en\<lparr>de_refs := 1\<rparr>)"
      using store_write_table [OF w [unfolded rf]] by blast
    have ow: "owned (po_ddt p') (add_mset rf M)"
      using tab owned_incr [OF vd(10), of ?k en "po_ddt p'"] owned_add [OF vd(10), of ?k "po_ddt p'" en] rb en
      by (auto simp: refs_below_def)
    have inv': "pool_inv ?C (fs_bs s) (view (po_dev p')) (unat (blocks dv (po_dev p'))) (po_bm p') (po_ddt p') ct'"
      using ps(1) rf ct' by auto
    have step: "p' = store_step ?C dv (fs_bs s) (PutOp pt) ?p" using w by simp
    note bo = pool_inv_facts(1) [OF inv]
    have "refs_below (po_ddt p') N" unfolding step by (rule store_step_refs [OF vd(9) N pool_inv_facts(3) [OF inv]])
    moreover have "avoids {0..<unat (ub_data_start (fs_ub s))} (po_ddt p')"
      unfolding step by (rule store_step_avoids [OF bo vd(4,5)])
    moreover have "deferred_set (po_bm p') \<inter> {0..<unat (ub_data_start (fs_ub s))} = {}"
      unfolding step by (rule store_step_deferred [OF bo vd(5,6)])
    moreover have "{0..<unat (ub_data_start (fs_ub s))} \<subseteq> used_set (po_bm p')"
      using store_step_bitmap(2) [OF bo] vd(4) unfolding step by blast
    moreover have "ran ct' \<subseteq> U" using vd(8) pt ct' by (auto simp: ran_def)
    moreover have "blocks dv (po_dev p') = blocks dv (po_dev ?p)" using ps(3) by (simp add: keeps_def)
    moreover have "view (po_dev p') (uslot (fs_ub s)) = view (po_dev ?p) (uslot (fs_ub s))"
      using ps(3) vd(4) uslot_reserved [OF vd(3)] by (auto simp: keeps_def)
    ultimately have "vol_ok dev_ok view E U N ct' (add_mset rf M) (s\<lparr>fs_pool := p'\<rparr>)"
      using vd(3,7,11,12) inv' ps(2) ow e(1) by (simp add: vol_ok_def)
    moreover have "agree M ct ct'"
    proof (unfold agree_def, intro ballI)
      fix q assume q: "q \<in># M"
      then obtain e1 where "map_of (po_ddt ?p) (rf_hash q) = Some e1" using ownedD [OF vd(10)] by metis
      then obtain x where "ct (rf_hash q) = Some x" using pool_inv_facts(4) [OF inv] by blast
      then show "ct' (rf_hash q) = ct (rf_hash q)" using ct' nc by auto
    qed
    moreover have "ref_ok rf" using en e(2) by (simp add: ref_ok_def crypto_ok_def)
    ultimately show ?thesis using rf en ct' by simp
  qed (use ps(1) in blast)
qed

text \<open>\<open>bs_write\<close>, which commits and tries again when the space still held by deferred clusters is
  needed: the caller holds one reference more, and nothing else changed.\<close>

lemma bs_write_vol:
  assumes ev: "env_ok dv U E" and v: "vol_ok dev_ok view E U (Suc N) ct M s" and N: "Suc N < 2 ^ 32" and pt: "pt \<in> U"
    and w: "bs_write E pt s = (r, s')"
  obtains ct' where "agree M ct ct'" "same_rest s s'" "vol_ok dev_ok view E U N ct' M s'" "r \<noteq> Panic"
    "\<And>rf. r = Ok rf \<Longrightarrow> ref_ok rf \<and> ct' (rf_hash rf) = Some pt \<and> vol_ok dev_ok view E U N ct' (add_mset rf M) s'"
proof -
  let ?C = "fe_crypto E"
  define c where "c = ct(blake3 ?C pt \<mapsto> pt)"
  have e: "fe_dev E = dv" using ev by (simp add: env_ok_def)
  note att = store_write_vol [OF ev _ N pt _ c_def]
  have drop: "vol_ok dev_ok view E U N ct' M t" if "vol_ok dev_ok view E U N ct' (add_mset rf M) t" for rf t ct'
    by (rule vol_ok_mono [OF that]) simp_all
  obtain r1 p1 where w1: "store_write ?C dv (fs_bs s) pt (fs_pool s) = (r1, p1)" by fastforce
  have low: "vol_ok dev_ok view E U N ct M t" if "vol_ok dev_ok view E U (Suc N) ct M t" for t
    by (rule vol_ok_mono [OF that]) simp_all
  show thesis
  proof (cases "\<exists>rf. r1 = Ok rf")
    case True
    then obtain rf where rf: "r1 = Ok rf" by blast
    then have "r = Ok rf" "s' = s\<lparr>fs_pool := p1\<rparr>" using w w1 e by (auto simp: bs_write_def)
    then show thesis using att [OF v w1] rf drop by (intro that [of c]) (auto simp: same_rest_def)
  next
    case False
    then obtain er where er: "p1 = fs_pool s" "r1 = Err er" using att [OF v w1] by blast
    show thesis
    proof (cases "er = StoreAlloc AllocNoSpace \<and> bitmap_pending (po_bm p1) > 0")
      case no: False
      then have "r = Err (FsStore er)" "s' = s" using w w1 e er by (auto simp: bs_write_def)
      then show thesis using low [OF v] by (intro that [of ct]) auto
    next
      case True
      obtain rc s1 where c1: "fs_commit E s = (rc, s1)" by fastforce
      note fc = fs_commit_vol [OF ev v c1]
      have eq: "(r, s') = st_bind (fs_commit E) (\<lambda>_ s. case store_write ?C dv (fs_bs s) pt (fs_pool s) of
          (r, p) \<Rightarrow> (map_err FsStore r, s\<lparr>fs_pool := p\<rparr>)) s"
        using w w1 e er True by (simp add: bs_write_def)
      obtain r2 p2 where w2: "store_write ?C dv (fs_bs s1) pt (fs_pool s1) = (r2, p2)" by fastforce
      have fc': "vol_ok dev_ok view E U (Suc N) ct M s1" using fc by blast
      note a2 = att [OF fc' w2]
      have sr: "same_rest s (s1\<lparr>fs_pool := p2\<rparr>)" "same_rest s s1" using fc by (auto simp: same_rest_def)
      show thesis
      proof (cases rc)
        case (Ok u)
        then have rs: "r = map_err FsStore r2" "s' = s1\<lparr>fs_pool := p2\<rparr>" using eq c1 w2 by (simp_all add: st_bind_def)
        from a2 show thesis
        proof (elim disjE exE conjE)
          fix rf assume "r2 = Ok rf" "ref_ok rf" "c (rf_hash rf) = Some pt" "agree M ct c"
            "vol_ok dev_ok view E U N c (add_mset rf M) (s1\<lparr>fs_pool := p2\<rparr>)"
          then show thesis using rs sr(1) drop by (intro that [of c]) auto
        next
          fix e2 assume "p2 = fs_pool s1" "r2 = Err e2"
          then show thesis using rs sr(2) low [OF fc'] by (intro that [of ct]) auto
        qed
      next
        case (Err ec)
        then have "r = Err ec" "s' = s1" using eq c1 by (simp_all add: st_bind_def)
        then show thesis using sr(2) low [OF fc'] by (intro that [of ct]) auto
      qed (use fc in simp)
    qed
  qed
qed

lemma bs_read_vol:
  assumes ev: "env_ok dv U E" and v: "vol_ok dev_ok view E U N ct M s" and r: "r \<in># M" "ct (rf_hash r) = Some q"
  shows "bs_read E s r = Ok q"
proof -
  have e: "fe_dev E = dv" "crypto_ok (fe_crypto E)" using ev by (auto simp: env_ok_def)
  note vd = vol_okD [OF v]
  obtain en where en: "map_of (po_ddt (fs_pool s)) (rf_hash r) = Some en" "r = ref_from (rf_hash r) en"
    using ownedD [OF vd(10) r(1)] by metis
  have "store_read (fe_crypto E) dv (fs_bs s) (po_dev (fs_pool s)) (ref_from (rf_hash r) en) = Ok q"
    by (rule kept_reads [OF e(2) vd(2) [unfolded e(1)] keeps_refl vd(1) en(1) r(2)])
  then show ?thesis using en(2) e(1) by (simp add: bs_read_def)
qed

lemma bs_release_vol:
  assumes ev: "env_ok dv U E" and v: "vol_ok dev_ok view E U N ct (add_mset r M) s"
  obtains ct' where "agree M ct ct'" "same_rest s (bs_release r s)" "vol_ok dev_ok view E U N ct' M (bs_release r s)"
proof -
  let ?p = "fs_pool s" and ?C = "fe_crypto E" and ?R = "{0..<unat (ub_data_start (fs_ub s))}"
  define p' where "p' = store_release r ?p"
  have e: "fe_dev E = dv" "crypto_ok ?C" using ev by (auto simp: env_ok_def)
  note vd = vol_okD [OF v]
  note inv = vd(2) [unfolded e(1)]
  obtain en where en: "map_of (po_ddt ?p) (rf_hash r) = Some en" using ownedD [OF vd(10), of r] by auto
  have dd: "po_ddt p' = snd (dedup_decr (rf_hash r) (po_ddt ?p))" and dv': "po_dev p' = po_dev ?p" and tot: "bm_total (po_bm p') = bm_total (po_bm ?p)"
    by (auto simp: p'_def store_release_def bitmap_defer_def split: prod.splits option.splits)
  have step: "p' = store_step ?C dv (fs_bs s) (DropOp r) ?p" by (simp add: p'_def)
  note bo = pool_inv_facts(1) [OF inv]
  have fr0: "refs_below (po_ddt p') N"
    unfolding dd by (rule refs_below_release [OF pool_inv_facts(3) [OF inv] vd(9)])
  have fr: "avoids ?R (po_ddt p')" "deferred_set (po_bm p') \<inter> ?R = {}" "?R \<subseteq> used_set (po_bm p')"
    unfolding step using store_step_avoids [OF bo vd(4,5)] store_step_deferred [OF bo vd(5,6)] store_step_bitmap(2) [OF bo] vd(4)
    by blast+
  have fin: "vol_ok dev_ok view E U N ct' M (bs_release r s)"
    if "pool_inv ?C (fs_bs s) (view (po_dev ?p)) (unat (blocks dv (po_dev ?p))) (po_bm p') (po_ddt p') ct'" "ran ct' \<subseteq> U" "owned (po_ddt p') M" for ct'
    using that fr0 fr vd(1,3,7,11,12) dv' e(1) by (simp add: vol_ok_def bs_release_def p'_def [symmetric])
  have sr: "same_rest s (bs_release r s)" by (simp add: same_rest_def bs_release_def)
  show thesis
  proof (cases "unat (de_refs en) = 1")
    case True
    note rl = store_release_last [OF inv en True p'_def]
    note ol = owned_last [OF vd(10) en True rl(5)]
    have "ran (ct(rf_hash r := None)) \<subseteq> U" using vd(8) by (auto simp: ran_def)
    moreover have "agree M ct (ct(rf_hash r := None))" using ol(2) by (simp add: agree_def)
    ultimately show thesis using fin [OF rl(1) _ ol(1)] sr by (intro that) auto
  next
    case False
    have l: "dedup_lookup (po_ddt ?p) (rf_hash r) = Some en" using en by (simp add: dedup_lookup_eq)
    have "1 < unat (de_refs en)" using ddt.rc_pos [OF pool_inv_facts(3) [OF inv] l] False by simp
    moreover have "map_of (po_ddt p') = (map_of (po_ddt ?p))(rf_hash r \<mapsto> en\<lparr>de_refs := of_nat (unat (de_refs en) - 1)\<rparr>)"
      using ddt.decr_shared [OF pool_inv_facts(3) [OF inv] l calculation] unfolding dd dedup_lookup_eq by blast
    ultimately have "owned (po_ddt p') M" by (rule owned_decr [OF vd(10) en])
    moreover have "pool_inv ?C (fs_bs s) (view (po_dev ?p)) (unat (blocks dv (po_dev ?p))) (po_bm p') (po_ddt p') ct"
      using store_release_other(1) [OF inv _ p'_def] en False by simp
    ultimately show thesis using fin vd(8) sr by (intro that [of ct]) auto
  qed
qed

lemma release_all_vol:
  assumes ev: "env_ok dv U E"
  shows "vol_ok dev_ok view E U N ct (mset rs + M) s \<Longrightarrow>
    \<exists>ct'. agree M ct ct' \<and> same_rest s (fold bs_release rs s) \<and> vol_ok dev_ok view E U N ct' M (fold bs_release rs s)"
proof (induction rs arbitrary: s ct)
  case (Nil s ct)
  then show ?case by (intro exI [of _ ct]) simp
next
  case (Cons r rs)
  then have "vol_ok dev_ok view E U N ct (add_mset r (mset rs + M)) s" by simp
  then obtain c1 where c1: "agree (mset rs + M) ct c1" "same_rest s (bs_release r s)" "vol_ok dev_ok view E U N c1 (mset rs + M) (bs_release r s)"
    by (rule bs_release_vol [OF ev])
  obtain c2 where "agree M c1 c2" "same_rest (bs_release r s) (fold bs_release rs (bs_release r s))"
      "vol_ok dev_ok view E U N c2 M (fold bs_release rs (bs_release r s))"
    using Cons.IH [OF c1(3)] by blast
  moreover have "agree M ct c1" by (rule agree_mono [OF c1(1)]) simp
  ultimately show ?case using c1(2) agree_trans same_rest_trans by (intro exI [of _ c2]) (auto intro: same_rest_trans agree_trans)
qed

end

end
