(* ===== verification/Files.thy ===== *)
theory Files
  imports Volume Vfs
begin

text \<open>
  File contents: what \<open>set_data\<close>, \<open>get_data\<close>, \<open>write_at\<close>, \<open>read_at\<close> and \<open>truncate\<close> of
  \<^verbatim>\<open>rust/bloomfs-fs\<close> do to the bytes of a file, on a device that does not fail.

  An inode names its contents through its block map: one reference in place, or a container block
  with the list of references.  \<open>inode_holds ct i b\<close> says that, where \<open>ct\<close> are the stored blocks by
  their hash, the inode \<open>i\<close> has the contents \<open>b\<close>.  \<open>fs_ok\<close> is the invariant of the whole file system:
  every inode holds some contents, and the references of all inodes together are held on the volume.
\<close>

section \<open>Contents of an inode\<close>

definition inlined :: "inode \<Rightarrow> bool" where
  "inlined i = (flags i AND FLAG_INLINE_EXTENTS \<noteq> 0)"

definition data_refs :: "(key \<rightharpoonup> bytes) \<Rightarrow> inode \<Rightarrow> ref list" where
  "data_refs ct i =
     (if in_size i = 0 then [] else if inlined i then [map_ref i]
      else case ct (rf_hash (map_ref i)) of
        Some blob \<Rightarrow> (case decode_refs blob of Ok rs \<Rightarrow> rs | _ \<Rightarrow> [])
      | None \<Rightarrow> [])"

text \<open>All references the inode holds: those of its records and that of its container.\<close>

definition container :: "inode \<Rightarrow> ref list" where
  "container i = (if in_size i = 0 \<or> inlined i then [] else [map_ref i])"

definition inode_refs :: "(key \<rightharpoonup> bytes) \<Rightarrow> inode \<Rightarrow> ref multiset" where
  "inode_refs ct i = mset (data_refs ct i) + mset (container i)"

abbreviation rec_len :: "inode \<Rightarrow> nat" where
  "rec_len i \<equiv> 2 ^ unat (record_size_log2 i)"

definition inode_holds :: "(key \<rightharpoonup> bytes) \<Rightarrow> inode \<Rightarrow> bytes \<Rightarrow> bool" where
  "inode_holds ct i b =
     (length b = unat (in_size i) \<and>
      (b \<noteq> [] \<longrightarrow> 12 \<le> unat (record_size_log2 i) \<and> unat (record_size_log2 i) \<le> 15 \<and>
        (\<not> inlined i \<longrightarrow> (\<exists>blob refs. ct (rf_hash (map_ref i)) = Some blob \<and> decode_refs blob = Ok refs)) \<and>
        map (\<lambda>r. ct (rf_hash r)) (data_refs ct i) = map Some (chunks (rec_len i) b)))"

lemma in_size_0: "inode_holds ct i b \<Longrightarrow> in_size i = 0 \<longleftrightarrow> b = []"
  by (auto simp: inode_holds_def unat_eq_0)

lemma empty_inode: "in_size i = 0 \<Longrightarrow> inode_refs ct i = {#} \<and> inode_holds ct i []"
  by (simp add: inode_refs_def data_refs_def container_def inode_holds_def)

text \<open>Contents depend only on the blocks the inode refers to.\<close>

lemma data_refs_agree:
  assumes "agree M ct ct'" "inode_refs ct i \<subseteq># M"
  shows "data_refs ct' i = data_refs ct i" "inode_refs ct' i = inode_refs ct i"
proof -
  have "ct' (rf_hash (map_ref i)) = ct (rf_hash (map_ref i))" if "in_size i \<noteq> 0" "\<not> inlined i"
  proof -
    have "map_ref i \<in># inode_refs ct i" using that by (simp add: inode_refs_def container_def)
    then show ?thesis using assms mset_subset_eqD by (fastforce simp: agree_def)
  qed
  then show "data_refs ct' i = data_refs ct i" by (simp add: data_refs_def)
  then show "inode_refs ct' i = inode_refs ct i" by (simp add: inode_refs_def)
qed

lemma inode_holds_agree:
  assumes "agree M ct ct'" "inode_refs ct i \<subseteq># M" "inode_holds ct i b"
  shows "inode_holds ct' i b"
proof -
  have ag: "ct' (rf_hash r) = ct (rf_hash r)" if "r \<in># inode_refs ct i" for r
    using assms(1,2) that mset_subset_eqD by (fastforce simp: agree_def)
  then have "map (\<lambda>r. ct' (rf_hash r)) (data_refs ct i) = map (\<lambda>r. ct (rf_hash r)) (data_refs ct i)"
    by (simp add: inode_refs_def)
  moreover have "ct' (rf_hash (map_ref i)) = ct (rf_hash (map_ref i))" if "b \<noteq> []" "\<not> inlined i"
    using that in_size_0 [OF assms(3)] by (intro ag) (simp add: inode_refs_def container_def)
  ultimately show ?thesis
    using assms(3) data_refs_agree(1) [OF assms(1,2)] unfolding inode_holds_def by (auto simp del: map_eq_conv)
qed

section \<open>Reading\<close>

lemma owned_ref_ok:
  assumes "vol_ok dok V E U N ct M s" "r \<in># M"
  shows "ref_ok r"
proof -
  obtain e where "map_of (po_ddt (fs_pool s)) (rf_hash r) = Some e" using ownedD [OF vol_okD(10) [OF assms(1)] assms(2)] by metis
  then show ?thesis using pool_inv_facts(3) [OF vol_okD(2) [OF assms(1)]] dedup_ok_lookup by (auto simp: ref_ok_def)
qed

context block_device begin

lemma load_refs_vol:
  assumes ev: "env_ok dv U E" and v: "vol_ok dev_ok view E U N ct M s" and sub: "inode_refs ct i \<subseteq># M" and h: "inode_holds ct i b"
  shows "load_refs E s i = Ok (data_refs ct i)"
proof -
  have rd: "bs_read E s (map_ref i) = Ok blob" if "in_size i \<noteq> 0" "\<not> inlined i" "ct (rf_hash (map_ref i)) = Some blob" for blob
  proof (rule bs_read_vol [OF ev v])
    have "map_ref i \<in># inode_refs ct i" using that by (simp add: inode_refs_def container_def)
    then show "map_ref i \<in># M" using sub by (rule mset_subset_eqD [rotated])
  qed (rule that(3))
  show ?thesis
  proof (cases "in_size i = 0 \<or> inlined i")
    case False
    then obtain blob refs where "ct (rf_hash (map_ref i)) = Some blob" "decode_refs blob = Ok refs"
      using h in_size_0 [OF h] by (auto simp: inode_holds_def)
    then show ?thesis using rd False by (simp add: load_refs_def data_refs_def inlined_def)
  qed (auto simp: load_refs_def data_refs_def inlined_def)
qed

lemma read_records_vol:
  assumes ev: "env_ok dv U E" and v: "vol_ok dev_ok view E U N ct M s"
  shows "set rs \<subseteq> set_mset M \<Longrightarrow> map (\<lambda>r. ct (rf_hash r)) rs = map Some bs \<Longrightarrow> read_records E s rs = Ok (concat bs)"
proof (induction rs arbitrary: bs)
  case (Cons r rs)
  then obtain b bs' where bs: "bs = b # bs'" "ct (rf_hash r) = Some b" "map (\<lambda>r. ct (rf_hash r)) rs = map Some bs'"
    by (cases bs) auto
  then show ?case using bs_read_vol [OF ev v _ bs(2)] Cons by simp
qed simp

lemma get_data_vol:
  assumes ev: "env_ok dv U E" and v: "vol_ok dev_ok view E U N ct M s" and sub: "inode_refs ct i \<subseteq># M" and h: "inode_holds ct i b"
  shows "get_data E s i = Ok b"
proof (cases "b = []")
  case True
  then show ?thesis using in_size_0 [OF h] by (simp add: get_data_def)
next
  case False
  have "set (data_refs ct i) \<subseteq> set_mset M" using set_mset_mono [OF sub] by (auto simp: inode_refs_def)
  moreover have "map (\<lambda>r. ct (rf_hash r)) (data_refs ct i) = map Some (chunks (rec_len i) b)" using h False by (simp add: inode_holds_def)
  ultimately have "read_records E s (data_refs ct i) = Ok b"
    using read_records_vol [OF ev v] by (simp add: concat_chunks)
  then show ?thesis using load_refs_vol [OF assms] in_size_0 [OF h] False by (simp add: get_data_def)
qed

end

section \<open>Writing records and block maps\<close>

lemma map_ref_copy:
  assumes "ref_ok r" "block_map i = copy_at 0 (ref_marshal r) (replicate BLOCK_MAP_BYTES 0)"
  shows "map_ref i = r"
proof -
  have l: "length (ref_marshal r) = REF_SIZE" by (rule length_ref_marshal [OF assms(1)])
  then have "take REF_SIZE (copy_at 0 (ref_marshal r) (replicate BLOCK_MAP_BYTES 0)) = ref_marshal r"
    by (simp add: copy_at_def)
  then show ?thesis using ref_unmarshal_marshal [OF assms(1), of "[]"] assms(2) by (simp add: map_ref_def)
qed

lemma inline_flag: "(x AND NOT FLAG_INLINE_EXTENTS) AND FLAG_INLINE_EXTENTS = 0" "(y OR FLAG_INLINE_EXTENTS) AND FLAG_INLINE_EXTENTS \<noteq> 0"
proof -
  show "(x AND NOT FLAG_INLINE_EXTENTS) AND FLAG_INLINE_EXTENTS = 0" by (simp add: and.assoc)
  have "bit ((y OR FLAG_INLINE_EXTENTS) AND FLAG_INLINE_EXTENTS) 0" by (simp add: bit_and_iff bit_or_iff FLAG_INLINE_EXTENTS_def)
  then show "(y OR FLAG_INLINE_EXTENTS) AND FLAG_INLINE_EXTENTS \<noteq> 0" by (metis bit_0_eq bot_apply bot_bool_def)
qed

text \<open>The fields of an inode other than its contents.\<close>

definition same_attrs :: "inode \<Rightarrow> inode \<Rightarrow> bool" where
  "same_attrs i i' = (nlink i' = nlink i \<and> generation i' = generation i \<and> uid i' = uid i \<and> gid i' = gid i \<and>
     mode i' = mode i \<and> kind i' = kind i \<and> checksum i' = checksum i)"

context block_device begin

lemma write_records_vol:
  assumes ev: "env_ok dv U E"
  shows "vol_ok dev_ok view E U (N + length recs) ct M s \<Longrightarrow> N + length recs < 2 ^ 32 \<Longrightarrow> set recs \<subseteq> U \<Longrightarrow>
    write_records E recs s = (r, s') \<Longrightarrow>
    \<exists>ct'. agree M ct ct' \<and> same_rest s s' \<and> vol_ok dev_ok view E U N ct' M s' \<and> r \<noteq> Panic \<and>
      (\<forall>rs. r = Ok rs \<longrightarrow> map (\<lambda>r. ct' (rf_hash r)) rs = map Some recs \<and> vol_ok dev_ok view E U N ct' (mset rs + M) s')"
proof (induction recs arbitrary: s ct M r)
  case (Nil s ct M r)
  then show ?case by (intro exI [of _ ct]) auto
next
  case (Cons b recs s ct M r)
  obtain r1 s1 where w1: "bs_write E b s = (r1, s1)" by fastforce
  have v: "vol_ok dev_ok view E U (Suc (N + length recs)) ct M s" "Suc (N + length recs) < 2 ^ 32" "b \<in> U" using Cons.prems by simp_all
  obtain c1 where c1: "agree M ct c1" "same_rest s s1" "vol_ok dev_ok view E U (N + length recs) c1 M s1" "r1 \<noteq> Panic"
    "\<And>rf. r1 = Ok rf \<Longrightarrow> ref_ok rf \<and> c1 (rf_hash rf) = Some b \<and> vol_ok dev_ok view E U (N + length recs) c1 (add_mset rf M) s1"
    by (rule bs_write_vol [OF ev v w1]) blast
  show ?case
  proof (cases r1)
    case (Err e)
    then have "r = Err e" "s' = s1" using Cons.prems(4) w1 by (auto simp: st_bind_def)
    moreover have "vol_ok dev_ok view E U N c1 M s1" by (rule vol_ok_mono [OF c1(3)]) simp_all
    ultimately show ?thesis using c1(1,2) by blast
  next
    case (Ok rf)
    note k = c1(5) [OF Ok]
    obtain r2 where w2: "write_records E recs s1 = (r2, s')" "r = (case r2 of Ok rs \<Rightarrow> Ok (rf # rs) | Err e \<Rightarrow> Err e | Panic \<Rightarrow> Panic)"
      using Cons.prems(4) w1 Ok by (auto simp: st_bind_def st_return_def split: prod.splits res.splits)
    have "vol_ok dev_ok view E U (N + length recs) c1 (add_mset rf M) s1" "N + length recs < 2 ^ 32" "set recs \<subseteq> U"
      using k Cons.prems(2,3) by simp_all
    from Cons.IH [OF this w2(1)] obtain c2 where c2: "agree (add_mset rf M) c1 c2" "same_rest s1 s'" "vol_ok dev_ok view E U N c2 (add_mset rf M) s'" "r2 \<noteq> Panic"
        "\<And>rs. r2 = Ok rs \<Longrightarrow> map (\<lambda>r. c2 (rf_hash r)) rs = map Some recs \<and> vol_ok dev_ok view E U N c2 (mset rs + add_mset rf M) s'" by blast
    have "agree M c1 c2" "c2 (rf_hash rf) = Some b" using c2(1) k by (auto simp: agree_def)
    moreover have "vol_ok dev_ok view E U N c2 M s'" by (rule vol_ok_mono [OF c2(3)]) simp_all
    ultimately show ?thesis
      using c1(1,2) c2(2,4,5) w2(2)
      by (intro exI [of _ c2]) (auto intro: agree_trans same_rest_trans split: res.splits)
  qed (use c1(4) in simp)
qed

text \<open>The new block map of an inode: the records' references become its own, and with more than one
  record a container.\<close>

lemma store_refs_vol:
  assumes ev: "env_ok dv U E" and v: "vol_ok dev_ok view E U (Suc N) ct (mset refs + M) s" and N: "Suc N < 2 ^ 32"
    and enc: "2 \<le> length refs \<Longrightarrow> encode_refs refs \<in> U" and w: "store_refs E i refs sz log2 s = (r, s')"
    and b: "map (\<lambda>r. ct (rf_hash r)) refs = map Some (chunks (2 ^ unat log2) b)" "length b = unat sz"
    and l2: "b \<noteq> [] \<Longrightarrow> 12 \<le> unat log2 \<and> unat log2 \<le> 15"
  shows "\<exists>ct'. agree (mset refs + M) ct ct' \<and> same_rest s s' \<and> r \<noteq> Panic \<and> vol_ok dev_ok view E U N ct' (mset refs + M) s' \<and>
    (\<forall>i'. r = Ok i' \<longrightarrow> vol_ok dev_ok view E U N ct' (inode_refs ct' i' + M) s' \<and> inode_holds ct' i' b \<and>
      same_attrs i i' \<and> (inode_typed i \<longrightarrow> inode_typed i'))"
proof -
  have low: "vol_ok dev_ok view E U N ct (mset refs + M) s" by (rule vol_ok_mono [OF v]) simp_all
  have rok: "ref_ok r" if "r \<in> set refs" for r using owned_ref_ok [OF v] that by simp
  define i0 where "i0 = i\<lparr>block_map := replicate BLOCK_MAP_BYTES 0, flags := flags i AND NOT FLAG_INLINE_EXTENTS,
    in_size := sz, record_size_log2 := log2\<rparr>"
  have ne: "refs = [] \<longleftrightarrow> b = []" using b(1) concat_chunks [of "2 ^ unat log2" b] by fastforce
  have sz: "refs \<noteq> [] \<Longrightarrow> sz \<noteq> 0" using b(2) ne by auto
  have bm: "length (copy_at 0 (ref_marshal q) (replicate BLOCK_MAP_BYTES 0)) = BLOCK_MAP_BYTES" if "ref_ok q" for q
    using length_ref_marshal [OF that] by (simp add: copy_at_def REF_SIZE_def BLOCK_MAP_BYTES_def)
  show ?thesis
  proof (cases "length refs < 2")
    case True
    consider "refs = []" | q where "refs = [q]" using True by (cases refs; cases "tl refs") auto
    then show ?thesis
    proof cases
    case 1
    define i' where "i' = i0\<lparr>in_size := 0, record_size_log2 := 0\<rparr>"
    have i': "r = Ok i'" "s' = s" using w 1 by (simp_all add: store_refs_def Let_def i'_def i0_def)
    have "in_size i' = 0" by (simp add: i'_def)
    then have "inode_refs ct i' = {#}" "inode_holds ct i' b" using empty_inode ne 1 by auto
    moreover have "same_attrs i i'" "inode_typed i \<longrightarrow> inode_typed i'" by (simp_all add: same_attrs_def i'_def i0_def inode_typed_def)
    ultimately show ?thesis using low i' 1 by (intro exI [of _ ct]) simp
    next
    case q: (2 q)
    define i' where "i' = i0\<lparr>block_map := copy_at 0 (ref_marshal q) (block_map i0), flags := flags i0 OR FLAG_INLINE_EXTENTS\<rparr>"
    have i': "r = Ok i'" "s' = s" using w q by (simp_all add: store_refs_def Let_def i'_def i0_def)
    have mr: "map_ref i' = q" using map_ref_copy [of q i'] rok q by (simp add: i'_def i0_def)
    have inl: "inlined i'" using inline_flag(2) by (simp add: inlined_def i'_def i0_def)
    have f: "in_size i' = sz" "record_size_log2 i' = log2" by (simp_all add: i'_def i0_def)
    have dr: "data_refs ct i' = [q]" using mr inl f sz q by (simp add: data_refs_def)
    have "inode_refs ct i' = mset refs" using q dr inl by (simp add: inode_refs_def container_def)
    moreover have "inode_holds ct i' b" unfolding inode_holds_def dr f using b l2 inl q ne by simp
    moreover have "same_attrs i i'" "inode_typed i \<longrightarrow> inode_typed i'"
      using bm rok q by (simp_all add: same_attrs_def i'_def i0_def inode_typed_def)
    ultimately show ?thesis using low i' by (intro exI [of _ ct]) simp
    qed
  next
    case False
    then have two: "2 \<le> length refs" by simp
    then have sz: "sz \<noteq> 0" "b \<noteq> []" using sz ne by auto
    obtain r1 s1 where w1: "bs_write E (encode_refs refs) s = (r1, s1)" by fastforce
    have srf: "store_refs E i refs sz log2 s =
        st_bind (bs_write E (encode_refs refs)) (\<lambda>m. st_return (i0\<lparr>block_map := copy_at 0 (ref_marshal m) (block_map i0)\<rparr>)) s"
      using two by (cases refs; cases "tl refs") (simp_all add: store_refs_def Let_def i0_def)
    obtain c where c: "agree (mset refs + M) ct c" "same_rest s s1" "vol_ok dev_ok view E U N c (mset refs + M) s1" "r1 \<noteq> Panic"
      "\<And>rf. r1 = Ok rf \<Longrightarrow> ref_ok rf \<and> c (rf_hash rf) = Some (encode_refs refs) \<and> vol_ok dev_ok view E U N c (add_mset rf (mset refs + M)) s1"
      by (rule bs_write_vol [OF ev v N enc [OF two] w1]) blast
    show ?thesis
    proof (cases r1)
      case (Ok m)
      note k = c(5) [OF Ok]
      define i' where "i' = i0\<lparr>block_map := copy_at 0 (ref_marshal m) (block_map i0)\<rparr>"
      have i': "r = Ok i'" "s' = s1" using w srf w1 Ok by (simp_all add: st_bind_def st_return_def i'_def)
      have mr: "map_ref i' = m" using map_ref_copy [of m i'] k by (simp add: i'_def i0_def)
      have inl: "\<not> inlined i'" using inline_flag(1) by (simp add: inlined_def i'_def i0_def)
      have f: "in_size i' = sz" "record_size_log2 i' = log2" by (simp_all add: i'_def i0_def)
      have "length (encode_refs refs) < 2 ^ 32" using ev enc [OF two] by (simp add: env_ok_def)
      then have "length refs < 2 ^ 32"
        using encode_refs_eq [OF rok] length_concat_chunks [of refs ref_marshal REF_SIZE] length_ref_marshal [OF rok]
        by (simp add: REF_SIZE_def)
      then have dec: "decode_refs (encode_refs refs) = Ok refs" using decode_encode_refs rok by blast
      then have dr: "data_refs c i' = refs" using mr inl f sz k by (simp add: data_refs_def)
      have "inode_refs c i' + M = add_mset m (mset refs + M)" using dr inl mr f sz by (simp add: inode_refs_def container_def)
      moreover have "map (\<lambda>r. c (rf_hash r)) refs = map (\<lambda>r. ct (rf_hash r)) refs" using c(1) by (simp add: agree_def)
      then have "inode_holds c i' b" unfolding inode_holds_def dr f mr using b l2 k dec by (simp del: map_eq_conv)
      moreover have "same_attrs i i'" "inode_typed i \<longrightarrow> inode_typed i'"
        using bm k by (simp_all add: same_attrs_def i'_def i0_def inode_typed_def)
      ultimately show ?thesis using c(1-3) k i' by (intro exI [of _ c]) simp
    next
      case (Err e)
      then have "r = Err e" "s' = s1" using w srf w1 by (simp_all add: st_bind_def)
      then show ?thesis using c(1-3) by (intro exI [of _ c]) simp
    qed (use c(4) in simp)
  qed
qed

lemma release_data_eq:
  assumes ev: "env_ok dv U E" and v: "vol_ok dev_ok view E U N ct M s" and sub: "inode_refs ct i \<subseteq># M" and h: "inode_holds ct i b"
  shows "release_data E i s = (Ok (), fold bs_release (data_refs ct i @ container i) s)"
proof (cases "in_size i = 0 \<or> inlined i")
  case False
  then have "res_bind (bs_read E s (map_ref i)) decode_refs = Ok (data_refs ct i)"
    using load_refs_vol [OF assms] by (simp add: load_refs_def inlined_def)
  then show ?thesis using False by (simp add: release_data_def container_def inlined_def)
qed (auto simp: release_data_def container_def data_refs_def inlined_def)

end

section \<open>The whole file system\<close>

definition same_vfs :: "'d fs \<Rightarrow> 'd fs \<Rightarrow> bool" where
  "same_vfs s s' = (fs_bs s' = fs_bs s \<and> fs_open s' = fs_open s \<and> fs_free s' = fs_free s \<and> fs_cache s' = fs_cache s \<and>
     fs_clock s' = fs_clock s \<and> ub_root_inode (fs_ub s') = ub_root_inode (fs_ub s) \<and>
     ub_next_inode (fs_ub s') = ub_next_inode (fs_ub s) \<and> ub_inode_count (fs_ub s') = ub_inode_count (fs_ub s))"

lemma same_rest_vfs: "same_rest s s' \<Longrightarrow> same_vfs s s'"
  by (simp add: same_rest_def same_vfs_def)

lemma same_vfs_trans: "same_vfs s t \<Longrightarrow> same_vfs t u \<Longrightarrow> same_vfs s u"
  by (simp add: same_vfs_def)

text \<open>Every inode but one.\<close>

definition others :: "nat \<Rightarrow> 'a list \<Rightarrow> 'a list" where
  "others n xs = take n xs @ drop (Suc n) xs"

lemma others_update [simp]: "others n (xs[n := y]) = others n xs"
  by (simp add: others_def)

lemma sum_others:
  assumes "n < length xs"
  shows "sum_list (map f xs) = f (xs ! n) + (sum_list (map f (others n xs)) :: 'a multiset)"
proof -
  have "xs = take n xs @ xs ! n # drop (Suc n) xs" using assms by (simp add: id_take_nth_drop)
  then have "sum_list (map f xs) = sum_list (map f (take n xs @ xs ! n # drop (Suc n) xs))" by simp
  then show ?thesis by (simp add: others_def ac_simps)
qed

lemma in_others: "m < length xs \<Longrightarrow> m \<noteq> n \<Longrightarrow> xs ! m \<in> set (others n xs)"
proof -
  assume m: "m < length xs" "m \<noteq> n"
  show ?thesis
  proof (cases "m < n")
    case True
    then have "xs ! m = take n xs ! m" "m < length (take n xs)" using m by simp_all
    then show ?thesis unfolding others_def by (metis UnI1 nth_mem set_append)
  next
    case False
    then have "xs ! m = drop (Suc n) xs ! (m - Suc n)" "m - Suc n < length (drop (Suc n) xs)" using m by simp_all
    then show ?thesis unfolding others_def by (metis UnI2 nth_mem set_append)
  qed
qed

lemma sum_list_member: "x \<in> set xs \<Longrightarrow> f x \<subseteq># (sum_list (map f xs) :: 'a multiset)"
proof (induction xs)
  case (Cons y ys)
  then show ?case using subset_mset.add_increasing [of "f y" "f x" "sum_list (map f ys)"] by (cases "x = y") simp_all
qed simp

definition all_refs :: "(key \<rightharpoonup> bytes) \<Rightarrow> inode list \<Rightarrow> ref multiset" where
  "all_refs ct is = sum_list (map (inode_refs ct) is)"

lemma all_refs_agree:
  assumes "agree M ct ct'" "all_refs ct is \<subseteq># M"
  shows "all_refs ct' is = all_refs ct is"
proof -
  have "inode_refs ct' i = inode_refs ct i" if "i \<in> set is" for i
    using sum_list_member [OF that, of "inode_refs ct"] assms(2)
    by (intro data_refs_agree(2) [OF assms(1)]) (auto simp: all_refs_def intro: subset_mset.order_trans)
  then show ?thesis by (auto simp: all_refs_def intro!: arg_cong [where f = sum_list])
qed

definition fs_ok :: "('d \<Rightarrow> bool) \<Rightarrow> ('d \<Rightarrow> nat \<Rightarrow> bytes) \<Rightarrow> 'd fs_env \<Rightarrow> bytes set \<Rightarrow> nat \<Rightarrow> (key \<rightharpoonup> bytes) \<Rightarrow> 'd fs \<Rightarrow> bool" where
  "fs_ok dok V E U N ct s =
     (vol_ok dok V E U N ct (all_refs ct (it_inodes (fs_inodes s))) s \<and>
      (\<forall>i \<in> set (it_inodes (fs_inodes s)). \<exists>b. inode_holds ct i b))"

section \<open>Replacing contents\<close>

lemma touched_inode [simp]:
  "inode_refs ct (i\<lparr>mtime := t, ctime := t'\<rparr>) = inode_refs ct i" "inode_holds ct (i\<lparr>mtime := t, ctime := t'\<rparr>) b = inode_holds ct i b"
  "inode_typed (i\<lparr>mtime := t, ctime := t'\<rparr>) = inode_typed i" "same_attrs j (i\<lparr>mtime := t, ctime := t'\<rparr>) = same_attrs j i"
  by (simp_all add: inode_refs_def inode_holds_def data_refs_def container_def inlined_def map_ref_def inode_typed_def same_attrs_def)

context block_device begin

text \<open>The last steps of every change of contents: the old references are dropped and the new inode is
  stored.\<close>

lemma finish_vol:
  assumes ev: "env_ok dv U E" and v: "vol_ok dev_ok view E U N ct (inode_refs ct i' + (mset rel + M)) s"
    and h: "inode_holds ct i' b" and ty: "inode_typed i'" and ino: "unat ino < length (it_inodes (fs_inodes s))"
  shows "\<exists>ct' i2 s'. (case touch_mod i' (fold bs_release rel s) of (i', s) \<Rightarrow> st_bind (put_inode ino i') (\<lambda>_. st_return i') s) = (Ok i2, s') \<and>
    (case touch_mod i' (fold bs_release rel s) of (i', s) \<Rightarrow> put_inode ino i' s) = (Ok (), s') \<and>
    agree (inode_refs ct i' + M) ct ct' \<and> vol_ok dev_ok view E U N ct' (inode_refs ct' i2 + M) s' \<and> inode_holds ct' i2 b \<and>
    same_attrs i' i2 \<and> inode_typed i2 \<and> it_inodes (fs_inodes s') = (it_inodes (fs_inodes s))[unat ino := i2] \<and> same_vfs s s'"
proof -
  have "vol_ok dev_ok view E U N ct (mset rel + (inode_refs ct i' + M)) s" using v by (simp add: ac_simps)
  from release_all_vol [OF ev this] obtain c where c: "agree (inode_refs ct i' + M) ct c" "same_rest s (fold bs_release rel s)"
      "vol_ok dev_ok view E U N c (inode_refs ct i' + M) (fold bs_release rel s)" by blast
  define s1 where "s1 = fold bs_release rel s"
  define t where "t = fs_clock s1 (fs_reads s1)"
  define i2 where "i2 = i'\<lparr>mtime := t, ctime := t\<rparr>"
  have tm: "touch_mod i' s1 = (i2, s1\<lparr>fs_reads := Suc (fs_reads s1)\<rparr>)" by (simp add: touch_mod_def fs_now_def i2_def t_def)
  have tb: "itable_ok (fs_inodes s1)" "fs_inodes s1 = fs_inodes s" using vol_okD(7) [OF c(3)] c(2) by (simp_all add: s1_def same_rest_def)
  define t2 where "t2 = snd (itable_put (fs_inodes s1) ino i2)"
  have pt: "itable_put (fs_inodes s1) ino i2 = (Ok (), t2)" "it_inodes t2 = (it_inodes (fs_inodes s))[unat ino := i2]"
    using itable_put_Ok [OF tb(1), of ino i2] ino tb(2) by (simp_all add: t2_def)
  have t2: "itable_ok t2" using itable_put_ok(1) [OF tb(1) _ pt(1)] ty by (simp add: i2_def)
  define s2 where "s2 = s1\<lparr>fs_reads := Suc (fs_reads s1), fs_inodes := t2\<rparr>"
  have "vol_ok dev_ok view E U N c (inode_refs ct i' + M) s2"
    by (rule vol_ok_cong [OF c(3) [folded s1_def]]) (simp_all add: s2_def t2 pt(2) tb(2) itable_cap_def)
  moreover have "inode_refs c i2 = inode_refs ct i'" "inode_holds c i2 b"
    using data_refs_agree(2) [OF c(1)] inode_holds_agree [OF c(1) _ h] by (simp_all add: i2_def)
  moreover have "same_attrs i' i2" "inode_typed i2" using ty by (simp_all add: i2_def) (simp add: same_attrs_def)
  moreover have "same_vfs s s2" using c(2) [folded s1_def] by (simp add: same_vfs_def same_rest_def s2_def)
  ultimately show ?thesis
    using c(1) tm pt by (intro exI [of _ c] exI [of _ i2] exI [of _ s2])
      (simp add: s1_def [symmetric] put_inode_def st_bind_def st_return_def s2_def)
qed

text \<open>From the references of the new records to the stored inode: either the container cannot be
  written and nothing changed, or the inode is replaced.\<close>

lemma replace_vol:
  assumes ev: "env_ok dv U E" and v: "vol_ok dev_ok view E U (Suc N) ct (mset refs + (mset rel + M)) s" and N: "Suc N < 2 ^ 32"
    and enc: "2 \<le> length refs \<Longrightarrow> encode_refs refs \<in> U" and w: "store_refs E i refs sz log2 s = (r, s1)"
    and b: "map (\<lambda>r. ct (rf_hash r)) refs = map Some (chunks (2 ^ unat log2) b)" "length b = unat sz"
    and l2: "b \<noteq> [] \<Longrightarrow> 12 \<le> unat log2 \<and> unat log2 \<le> 15"
    and ty: "inode_typed i" and ino: "unat ino < length (it_inodes (fs_inodes s))"
  obtains e ct' where "r = Err e" "agree (mset refs + (mset rel + M)) ct ct'" "vol_ok dev_ok view E U N ct' (mset refs + (mset rel + M)) s1"
    "same_rest s s1"
  | i' c1 ct' i2 s' where "r = Ok i'" "agree (mset rel + M) ct c1" "vol_ok dev_ok view E U N c1 (mset rel + M) s1" "same_rest s s1"
    "(case touch_mod i' (fold bs_release rel s1) of (i', s) \<Rightarrow> st_bind (put_inode ino i') (\<lambda>_. st_return i') s) = (Ok i2, s')"
    "(case touch_mod i' (fold bs_release rel s1) of (i', s) \<Rightarrow> put_inode ino i' s) = (Ok (), s')"
    "agree M ct ct'" "vol_ok dev_ok view E U N ct' (inode_refs ct' i2 + M) s'" "inode_holds ct' i2 b" "same_attrs i i2" "inode_typed i2"
    "it_inodes (fs_inodes s') = (it_inodes (fs_inodes s))[unat ino := i2]" "same_vfs s s'"
proof -
  obtain c2 where c2: "agree (mset refs + (mset rel + M)) ct c2" "same_rest s s1" "r \<noteq> Panic"
      "vol_ok dev_ok view E U N c2 (mset refs + (mset rel + M)) s1"
      "\<And>i'. r = Ok i' \<Longrightarrow> vol_ok dev_ok view E U N c2 (inode_refs c2 i' + (mset rel + M)) s1 \<and> inode_holds c2 i' b \<and>
        same_attrs i i' \<and> (inode_typed i \<longrightarrow> inode_typed i')"
    using store_refs_vol [OF ev v N enc w b l2] by blast
  have ag: "agree (mset rel + M) ct c2" by (rule agree_mono [OF c2(1)]) simp
  have v1: "vol_ok dev_ok view E U N c2 (mset rel + M) s1" by (rule vol_ok_mono [OF c2(4)]) simp_all
  show thesis
  proof (cases r)
    case (Err e)
    then show thesis by (rule that(1) [OF _ c2(1,4,2)])
  next
    case (Ok i')
    note k' = c2(5) [OF Ok]
    have "unat ino < length (it_inodes (fs_inodes s1))" using ino c2(2) by (simp add: same_rest_def)
    from finish_vol [OF ev conjunct1 [OF k'] _ _ this, of b] k' ty
    obtain c3 i2 s3 where f: "(case touch_mod i' (fold bs_release rel s1) of (i', s) \<Rightarrow> st_bind (put_inode ino i') (\<lambda>_. st_return i') s) = (Ok i2, s3)"
        "(case touch_mod i' (fold bs_release rel s1) of (i', s) \<Rightarrow> put_inode ino i' s) = (Ok (), s3)"
        "agree (inode_refs c2 i' + M) c2 c3" "vol_ok dev_ok view E U N c3 (inode_refs c3 i2 + M) s3" "inode_holds c3 i2 b"
        "same_attrs i' i2" "inode_typed i2" "it_inodes (fs_inodes s3) = (it_inodes (fs_inodes s1))[unat ino := i2]" "same_vfs s1 s3" by blast
    have "agree M c2 c3" "agree M ct c2" using agree_mono [OF f(3)] agree_mono [OF ag] by simp_all
    then have "agree M ct c3" by (rule agree_trans [rotated])
    moreover have "same_attrs i i2" using f(6) k' by (simp add: same_attrs_def)
    moreover have "same_vfs s s3" by (rule same_vfs_trans [OF same_rest_vfs [OF c2(2)] f(9)])
    moreover have "fs_inodes s1 = fs_inodes s" using c2(2) by (simp add: same_rest_def)
    ultimately show thesis using f(8) by (intro that(2) [OF Ok ag v1 c2(2) f(1,2) _ f(4,5) _ f(7)]) simp_all
  qed (use c2(3) in simp)
qed

lemma set_data_vol:
  assumes ev: "env_ok dv U E" and v: "vol_ok dev_ok view E U (Suc (N + length recs)) ct (inode_refs ct i + M) s" and N: "Suc (N + length recs) < 2 ^ 32"
    and h: "inode_holds ct i b0" and ty: "inode_typed i" and ino: "unat ino < length (it_inodes (fs_inodes s))"
    and len: "length blob < 2 ^ 64" and recs: "recs = chunks (unat (fst (record_size_for (of_nat (length blob))))) blob"
    and U: "set recs \<subseteq> U" and enc: "\<forall>refs s1. write_records E recs s = (Ok refs, s1) \<longrightarrow> 2 \<le> length refs \<longrightarrow> encode_refs refs \<in> U"
    and w: "set_data E ino i blob s = (r, s')"
  shows "(\<exists>ct' i'. r = Ok () \<and> agree M ct ct' \<and> vol_ok dev_ok view E U N ct' (inode_refs ct' i' + M) s' \<and> inode_holds ct' i' blob \<and>
      same_attrs i i' \<and> inode_typed i' \<and> it_inodes (fs_inodes s') = (it_inodes (fs_inodes s))[unat ino := i'] \<and> same_vfs s s') \<or>
    (\<exists>ct' e. r = Err e \<and> agree (inode_refs ct i + M) ct ct' \<and> vol_ok dev_ok view E U N ct' (inode_refs ct i + M) s' \<and> same_rest s s')"
proof -
  define l2 :: u8 where "l2 = (if blob = [] then 0 else snd (record_size_for (of_nat (length blob))))"
  define sz :: u64 where "sz = of_nat (length blob)"
  have usz: "length blob = unat sz" using len by (simp add: sz_def)
  note rs = record_size_for_pos [of "of_nat (length blob)"]
  have l2b: "12 \<le> unat l2 \<and> unat l2 \<le> 15" if "blob \<noteq> []" using that by (simp add: l2_def record_size_for_def)
  have l2r: "recs = chunks (2 ^ unat l2) blob"
  proof (cases "blob = []")
    case False
    then have "unat (fst (record_size_for (of_nat (length blob)))) = 2 ^ unat l2" by (simp add: l2_def record_size_for_def)
    then show ?thesis using recs by simp
  qed (use recs rs(1) in simp)
  have sd: "set_data E ino i blob s = st_bind (write_records E recs) (\<lambda>refs. st_bind (store_refs E i refs sz l2) (\<lambda>i'.
      st_bind (release_data E i) (\<lambda>_ s. case touch_mod i' s of (i', s) \<Rightarrow> put_inode ino i' s))) s"
    using recs split_records_eq [OF rs(1), of blob] rs(1)
    by (auto simp: set_data_def l2_def sz_def Let_def split: prod.splits)
  obtain r1 s1 where w1: "write_records E recs s = (r1, s1)" by fastforce
  have v': "vol_ok dev_ok view E U (Suc N + length recs) ct (inode_refs ct i + M) s" "Suc N + length recs < 2 ^ 32" using v N by simp_all
  obtain c1 where c1: "agree (inode_refs ct i + M) ct c1" "same_rest s s1" "vol_ok dev_ok view E U (Suc N) c1 (inode_refs ct i + M) s1" "r1 \<noteq> Panic"
      "\<And>rs. r1 = Ok rs \<Longrightarrow> map (\<lambda>r. c1 (rf_hash r)) rs = map Some recs \<and> vol_ok dev_ok view E U (Suc N) c1 (mset rs + (inode_refs ct i + M)) s1"
    using write_records_vol [OF ev v' U w1] by blast
  show ?thesis
  proof (cases r1)
    case (Err e)
    then have "r = Err e" "s' = s1" using w sd w1 by (auto simp: st_bind_def)
    moreover have "vol_ok dev_ok view E U N c1 (inode_refs ct i + M) s1" by (rule vol_ok_mono [OF c1(3)]) simp_all
    ultimately show ?thesis using c1(1,2) by blast
  next
    case (Ok refs)
    note k = c1(5) [OF Ok]
    obtain r2 s2 where w2: "store_refs E i refs sz l2 s1 = (r2, s2)" by fastforce
    have e2: "2 \<le> length refs \<Longrightarrow> encode_refs refs \<in> U" using enc w1 Ok by simp
    define rel where "rel = data_refs ct i @ container i"
    have mr: "inode_refs ct i = mset rel" by (simp add: inode_refs_def rel_def)
    have k2: "vol_ok dev_ok view E U (Suc N) c1 (mset refs + (mset rel + M)) s1" "Suc N < 2 ^ 32"
      "map (\<lambda>r. c1 (rf_hash r)) refs = map Some (chunks (2 ^ unat l2) blob)" "unat ino < length (it_inodes (fs_inodes s1))"
      using k N l2r mr ino c1(2) by (simp_all add: same_rest_def)
    have rest: "set_data E ino i blob s = st_bind (store_refs E i refs sz l2) (\<lambda>i'. st_bind (release_data E i) (\<lambda>_ s.
        case touch_mod i' s of (i', s) \<Rightarrow> put_inode ino i' s)) s1" using sd w1 Ok by simp
    show ?thesis
    proof (rule replace_vol [OF ev k2(1,2) e2 w2 k2(3) usz l2b ty k2(4)])
      fix e ct'
      assume f: "r2 = Err e" "agree (mset refs + (mset rel + M)) c1 ct'" "vol_ok dev_ok view E U N ct' (mset refs + (mset rel + M)) s2"
        "same_rest s1 s2"
      have "agree (inode_refs ct i + M) c1 ct'" "vol_ok dev_ok view E U N ct' (inode_refs ct i + M) s2"
        by (rule agree_mono [OF f(2)] vol_ok_mono [OF f(3)], simp_all add: mr)+
      then show ?thesis using w rest w2 f(1,4) c1(1,2) by (auto simp: st_bind_def intro: agree_trans same_rest_trans)
    next
      fix i' c2 ct' i2 s3
      assume f: "r2 = Ok i'" "agree (mset rel + M) c1 c2" "vol_ok dev_ok view E U N c2 (mset rel + M) s2" "same_rest s1 s2"
        "(case touch_mod i' (fold bs_release rel s2) of (i', s) \<Rightarrow> put_inode ino i' s) = (Ok (), s3)"
        "agree M c1 ct'" "vol_ok dev_ok view E U N ct' (inode_refs ct' i2 + M) s3" "inode_holds ct' i2 blob" "same_attrs i i2" "inode_typed i2"
        "it_inodes (fs_inodes s3) = (it_inodes (fs_inodes s1))[unat ino := i2]" "same_vfs s1 s3"
      have ag: "agree (mset rel + M) ct c2" using agree_trans [OF c1(1) [unfolded mr] f(2)] .
      have sub: "inode_refs ct i \<subseteq># mset rel + M" using mr by simp
      have "release_data E i s2 = (Ok (), fold bs_release rel s2)"
        using release_data_eq [OF ev f(3) _ inode_holds_agree [OF ag sub h]] data_refs_agree [OF ag sub] sub by (simp add: rel_def)
      then have "r = Ok ()" "s' = s3" using w rest w2 f(1,5) by (simp_all add: st_bind_def)
      moreover have "agree M ct c1" by (rule agree_mono [OF c1(1)]) simp
      then have "agree M ct ct'" using f(6) by (rule agree_trans)
      moreover have "same_vfs s s3" by (rule same_vfs_trans [OF same_rest_vfs [OF c1(2)] f(12)])
      moreover have "fs_inodes s1 = fs_inodes s" using c1(2) by (simp add: same_rest_def)
      ultimately show ?thesis using f(7-11) by auto
    qed
  qed (use c1(4) in simp)
qed

end

end
