(* ===== verification/Splice.thy ===== *)
theory Splice
  imports Files
begin

text \<open>
  Writing and reading at an offset: the record loops of \<open>write_at_locked\<close> and \<open>read_at\<close> of
  \<^verbatim>\<open>rust/bloomfs-fs\<close> against their meaning on the contents.  \<open>splice b off data\<close> is the contents
  \<open>b\<close> with \<open>data\<close> written at \<open>off\<close>, filled up with zeros when \<open>off\<close> is beyond its end; the record
  that the loop writes at an index is the record of the spliced contents at that index, and a record
  that is kept is not touched by the write.
\<close>

section \<open>The meaning of a write\<close>

definition splice :: "bytes \<Rightarrow> nat \<Rightarrow> bytes \<Rightarrow> bytes" where
  "splice b off data = copy_at off data (b @ replicate (off + length data - length b) 0)"

lemma length_splice [simp]: "length (splice b off data) = max (length b) (off + length data)"
  by (auto simp: splice_def)

lemma nth_splice:
  "k < max (length b) (off + length data) \<Longrightarrow> splice b off data ! k =
     (if off \<le> k \<and> k < off + length data then data ! (k - off) else if k < length b then b ! k else 0)"
  unfolding splice_def by (subst nth_copy_at) (auto simp: nth_append)

lemma length_chunk: "length (chunk rs b j) = min rs (length b - j * rs)"
  by (simp add: chunk_def)

lemma nth_chunk: "t < rs \<Longrightarrow> j * rs + t < length b \<Longrightarrow> chunk rs b j ! t = b ! (j * rs + t)"
  by (simp add: chunk_def)

lemma less_nchunks: "0 < rs \<Longrightarrow> j < nchunks rs n \<longleftrightarrow> j * rs < n"
proof -
  assume rs: "0 < rs"
  have "j < nchunks rs n \<longleftrightarrow> Suc j * rs \<le> n + rs - 1" using rs by (simp add: nchunks_def less_eq_div_iff_mult_less_eq Suc_le_eq [symmetric])
  also have "\<dots> \<longleftrightarrow> j * rs < n" using rs by auto
  finally show ?thesis .
qed

lemma unat_min: "unat (min a b :: 'a::len word) = min (unat a) (unat b)"
  by (simp add: min_def word_le_nat_alt)

lemma unat_max: "unat (max a b :: 'a::len word) = max (unat a) (unat b)"
  by (simp add: max_def word_le_nat_alt)

text \<open>A context of the loop for the contents \<open>b\<close>, with nothing near the end of the address space.\<close>

definition ctx_ok :: "write_ctx \<Rightarrow> bytes \<Rightarrow> bool" where
  "ctx_ok w b = (unat (wc_old_size w) = length b \<and> unat (wc_end w) = unat (wc_off w) + length (wc_data w) \<and>
     unat (wc_new_size w) = max (length b) (unat (wc_end w)) \<and> 0 < unat (wc_rs w) \<and>
     unat (wc_new_size w) + unat (wc_rs w) < 2 ^ 64)"

abbreviation new_contents :: "write_ctx \<Rightarrow> bytes \<Rightarrow> bytes" where
  "new_contents w b \<equiv> splice b (unat (wc_off w)) (wc_data w)"

lemma rec_bounds:
  assumes c: "ctx_ok w b" and j: "j * unat (wc_rs w) < unat (wc_new_size w)"
  shows "unat (of_nat j * wc_rs w) = j * unat (wc_rs w)"
    "unat (min (of_nat j * wc_rs w + wc_rs w) (wc_new_size w)) = min (j * unat (wc_rs w) + unat (wc_rs w)) (unat (wc_new_size w))"
proof -
  have b: "unat (wc_new_size w) + unat (wc_rs w) < 2 ^ 64" "0 < unat (wc_rs w)" using c by (auto simp: ctx_ok_def)
  have "j \<le> j * unat (wc_rs w)" using b(2) by simp
  then have "j < 2 ^ 64" using j b(1) by linarith
  then have uj: "unat (of_nat j :: u64) = j" by simp
  have "j * unat (wc_rs w) < 2 ^ 64" using j b(1) by linarith
  then show u: "unat (of_nat j * wc_rs w) = j * unat (wc_rs w)" using uj by (subst unat_mult_lem [THEN iffD1]) simp_all
  have "j * unat (wc_rs w) + unat (wc_rs w) < 2 ^ 64" using j b(1) by linarith
  then have "unat (of_nat j * wc_rs w + wc_rs w) = j * unat (wc_rs w) + unat (wc_rs w)" using u by (subst unat_add_small) simp_all
  then show "unat (min (of_nat j * wc_rs w + wc_rs w) (wc_new_size w)) = min (j * unat (wc_rs w) + unat (wc_rs w)) (unat (wc_new_size w))"
    by (simp add: unat_min)
qed

text \<open>The record the loop writes.\<close>

definition old_chunk :: "nat \<Rightarrow> bytes \<Rightarrow> nat \<Rightarrow> bytes option" where
  "old_chunk rs b j = (if j < nchunks rs (length b) then Some (chunk rs b j) else None)"

lemma fill_base:
  assumes "0 < rs" "length rec = L" "L \<le> rs" "\<forall>t < L. rec ! t = 0"
    and "rec' = (case old_chunk rs b j of Some ob \<Rightarrow> let n = min (length ob) (length rec) in copy_at 0 (take n ob) rec | None \<Rightarrow> rec)"
  shows "length rec' = L \<and> (\<forall>t < L. rec' ! t = (if j * rs + t < length b then b ! (j * rs + t) else 0))"
proof (cases "j < nchunks rs (length b)")
  case True
  let ?ob = "chunk rs b j"
  have "copy_at 0 (take (min (length ?ob) L) ?ob) rec ! t = (if j * rs + t < length b then b ! (j * rs + t) else 0)" if t: "t < L" for t
    using t assms(2-4) nth_chunk [of t rs j b]
    by (subst nth_copy_at) (auto simp: length_chunk)
  then show ?thesis using True assms by (simp add: old_chunk_def Let_def)
next
  case False
  then have "length b \<le> j * rs" using less_nchunks [OF assms(1)] by (simp add: not_less)
  then show ?thesis using False assms by (simp add: old_chunk_def)
qed

lemma nth_slice: "lo + k < hi \<Longrightarrow> hi \<le> length xs \<Longrightarrow> slice lo hi xs ! k = xs ! (lo + k)"
  by (simp add: slice_def)

text \<open>The part of the data that falls into the window from \<open>S\<close> to \<open>S + L\<close>, copied into it.\<close>

lemma copy_window:
  fixes S off :: nat
  assumes lh: "max off S < min (off + length data) (S + L)" and r: "length r = L"
    and src: "src = slice (max off S - off) (min (off + length data) (S + L) - off) data"
  shows "length (copy_at (max off S - S) src r) = L"
    "t < L \<Longrightarrow> copy_at (max off S - S) src r ! t = (if off \<le> S + t \<and> S + t < off + length data then data ! (S + t - off) else r ! t)"
proof -
  have ls: "length src = min (off + length data) (S + L) - max off S" using lh by (simp add: src slice_def)
  have nth_src: "src ! k = data ! (max off S - off + k)" if "k < length src" for k
  proof -
    have "max off S - off + k < min (off + length data) (S + L) - off" "min (off + length data) (S + L) - off \<le> length data"
      using that lh unfolding ls by linarith+
    then show ?thesis unfolding src by (rule nth_slice)
  qed
  have fit: "max off S - S + length src \<le> length r" using lh unfolding ls r by linarith
  then show "length (copy_at (max off S - S) src r) = L" using r by simp
  assume t: "t < L"
  have "max off S - S \<le> t \<and> t < max off S - S + length src \<longleftrightarrow> off \<le> S + t \<and> S + t < off + length data"
    using t lh unfolding ls by linarith
  moreover have "src ! (t - (max off S - S)) = data ! (S + t - off)" if "off \<le> S + t" "S + t < off + length data"
  proof -
    have "t - (max off S - S) < length src" "max off S - off + (t - (max off S - S)) = S + t - off"
      using that t lh unfolding ls by linarith+
    then show ?thesis using nth_src by metis
  qed
  ultimately show "copy_at (max off S - S) src r ! t = (if off \<le> S + t \<and> S + t < off + length data then data ! (S + t - off) else r ! t)"
    using fit t r by (subst nth_copy_at) auto
qed

lemma fill_record_chunk:
  assumes c: "ctx_ok w b" and j: "j < nchunks (unat (wc_rs w)) (unat (wc_new_size w))"
  shows "fill_record w (of_nat j) (old_chunk (unat (wc_rs w)) b j) = chunk (unat (wc_rs w)) (new_contents w b) j"
proof -
  define rs n off where "rs = unat (wc_rs w)" and "n = unat (wc_new_size w)" and "off = unat (wc_off w)"
  let ?S = "of_nat j * wc_rs w"
  let ?E = "min (?S + wc_rs w) (wc_new_size w)"
  have f: "0 < rs" "n = max (length b) (off + length (wc_data w))" "unat (wc_end w) = off + length (wc_data w)"
    using c by (auto simp: ctx_ok_def rs_def n_def off_def)
  have jn: "j * rs < n" using j less_nchunks [of rs j n] f(1) by (simp add: rs_def n_def)
  have S: "unat ?S = j * rs" and En: "unat ?E = min (j * rs + rs) n"
    using rec_bounds [OF c] jn by (simp_all add: rs_def n_def)
  define L where "L = min (j * rs + rs) n - j * rs"
  have "?S \<le> ?E" unfolding word_le_nat_alt S En using jn by simp
  then have LL: "unat (?E - ?S) = L" unfolding L_def by (subst unat_sub) (simp_all add: S En)
  have Lr: "L \<le> rs" by (simp add: L_def)
  define r0 :: bytes where "r0 = replicate L 0"
  define r1 where "r1 = (case old_chunk rs b j of Some ob \<Rightarrow> let m = min (length ob) (length r0) in copy_at 0 (take m ob) r0 | None \<Rightarrow> r0)"
  have r1: "length r1 = L" "\<And>t. t < L \<Longrightarrow> r1 ! t = (if j * rs + t < length b then b ! (j * rs + t) else 0)"
    using fill_base [OF f(1) _ Lr _ r1_def] by (simp_all add: r0_def)
  let ?lo = "max (wc_off w) ?S" and ?hi = "min (wc_end w) ?E"
  have lo: "unat ?lo = max off (j * rs)" and hi: "unat ?hi = min (off + length (wc_data w)) (min (j * rs + rs) n)"
    using S En f(3) by (simp_all add: unat_max unat_min off_def)
  have fr: "fill_record w (of_nat j) (old_chunk rs b j) =
      (if ?lo < ?hi then copy_at (unat (?lo - ?S)) (slice (unat (?lo - wc_off w)) (unat (?hi - wc_off w)) (wc_data w)) r1 else r1)"
    unfolding fill_record_def Let_def LL r1_def r0_def by simp
  have lc: "length (chunk rs (new_contents w b) j) = L" unfolding length_chunk length_splice using f(2) by (auto simp: L_def off_def [symmetric])
  have nc: "chunk rs (new_contents w b) j ! t = (if off \<le> j * rs + t \<and> j * rs + t < off + length (wc_data w) then wc_data w ! (j * rs + t - off)
      else if j * rs + t < length b then b ! (j * rs + t) else 0)" if t: "t < L" for t
    using t f(2) by (subst nth_chunk) (auto simp: L_def nth_splice off_def [symmetric])
  show ?thesis
  proof (cases "?lo < ?hi")
    case True
    have SL: "j * rs + L = min (j * rs + rs) n" using jn by (simp add: L_def)
    have lh: "max off (j * rs) < min (off + length (wc_data w)) (j * rs + L)" using True unfolding word_less_nat_alt lo hi SL .
    define src where "src = slice (max off (j * rs) - off) (min (off + length (wc_data w)) (j * rs + L) - off) (wc_data w)"
    have u: "unat (?lo - ?S) = max off (j * rs) - j * rs" "unat (?lo - wc_off w) = max off (j * rs) - off"
        "unat (?hi - wc_off w) = min (off + length (wc_data w)) (j * rs + L) - off"
      unfolding SL using lo hi S lh SL by (subst unat_sub; simp add: word_le_nat_alt off_def [symmetric])+
    note cw = copy_window [OF lh r1(1) src_def]
    have "copy_at (max off (j * rs) - j * rs) src r1 = chunk rs (new_contents w b) j"
      using cw lc by (intro nth_equalityI) (simp_all add: nc r1(2))
    then show ?thesis using fr True u by (simp add: src_def rs_def)
  next
    case False
    then have no: "min (off + length (wc_data w)) (min (j * rs + rs) n) \<le> max off (j * rs)"
      unfolding word_less_nat_alt lo hi by linarith
    have "\<not> (off \<le> j * rs + t \<and> j * rs + t < off + length (wc_data w))" if "t < L" for t
      using that no unfolding L_def by linarith
    then have "r1 = chunk rs (new_contents w b) j" using r1 lc by (intro nth_equalityI) (auto simp: nc)
    then show ?thesis using fr unfolding if_not_P [OF False] by (simp add: rs_def)
  qed
qed

text \<open>A record that is kept is the same before and after.\<close>

lemma kept_chunk:
  assumes c: "ctx_ok w b" and j: "j < nchunks (unat (wc_rs w)) (unat (wc_new_size w))"
    and k: "\<not> (wc_end w > of_nat j * wc_rs w \<and> wc_off w < min (of_nat j * wc_rs w + wc_rs w) (wc_new_size w))"
      "min (of_nat j * wc_rs w + wc_rs w) (wc_new_size w) \<le> wc_old_size w"
  shows "chunk (unat (wc_rs w)) b j = chunk (unat (wc_rs w)) (new_contents w b) j"
proof -
  define rs n off where "rs = unat (wc_rs w)" and "n = unat (wc_new_size w)" and "off = unat (wc_off w)"
  have f: "0 < rs" "n = max (length b) (off + length (wc_data w))" "unat (wc_end w) = off + length (wc_data w)" "unat (wc_old_size w) = length b"
    using c by (auto simp: ctx_ok_def rs_def n_def off_def)
  have jn: "j * rs < n" using j less_nchunks [of rs j n] f(1) by (simp add: rs_def n_def)
  have b: "unat (of_nat j * wc_rs w) = j * rs" "unat (min (of_nat j * wc_rs w + wc_rs w) (wc_new_size w)) = min (j * rs + rs) n"
    using rec_bounds [OF c] jn by (simp_all add: rs_def n_def)
  have le: "min (j * rs + rs) n \<le> length b" and nt: "\<not> (j * rs < off + length (wc_data w) \<and> off < min (j * rs + rs) n)"
    using k f(3,4) unfolding word_less_nat_alt word_le_nat_alt b off_def by auto
  have bn: "length b \<le> n" using f(2) by simp
  have "chunk rs b j = chunk rs (new_contents w b) j"
  proof (rule nth_equalityI)
    show ln: "length (chunk rs b j) = length (chunk rs (new_contents w b) j)"
      using le bn unfolding length_chunk length_splice off_def [symmetric] f(2) [symmetric] by linarith
    fix t assume "t < length (chunk rs b j)"
    then have t: "t < rs" "j * rs + t < length b" unfolding length_chunk by linarith+
    then have out: "\<not> (off \<le> j * rs + t \<and> j * rs + t < off + length (wc_data w))" using nt f(2) by linarith
    have "j * rs + t < max (length b) (off + length (wc_data w))" using t(2) by linarith
    then have "new_contents w b ! (j * rs + t) = b ! (j * rs + t)" using out t(2) by (auto simp: nth_splice off_def)
    then show "chunk rs b j ! t = chunk rs (new_contents w b) j ! t"
      using t nth_chunk [of t rs j] by simp
  qed
  then show ?thesis by (simp add: rs_def)
qed

section \<open>The loop of a write\<close>

context block_device begin

lemma write_step_vol:
  assumes ev: "env_ok dv U E" and v: "vol_ok dev_ok view E U (Suc N) ct M s" and N: "Suc N < 2 ^ 32"
    and old: "set (wc_old_refs w) \<subseteq> set_mset M" "map (\<lambda>r. ct (rf_hash r)) (wc_old_refs w) = map Some (chunks (unat (wc_rs w)) b)"
    and c: "ctx_ok w b" and j: "j < nchunks (unat (wc_rs w)) (unat (wc_new_size w))" and U: "chunk (unat (wc_rs w)) (new_contents w b) j \<in> U"
    and w: "write_step E w j s = (r, s')"
  shows "\<exists>ct'. agree M ct ct' \<and> same_rest s s' \<and> r \<noteq> Panic \<and> vol_ok dev_ok view E U N ct' M s' \<and>
    (\<forall>q rel. r = Ok (q, rel) \<longrightarrow> (\<exists>W. vol_ok dev_ok view E U N ct' (W + M) s' \<and> q \<in># W + M \<and>
       add_mset q (mset rel) = W + mset (take 1 (drop j (wc_old_refs w))) \<and> ct' (rf_hash q) = Some (chunk (unat (wc_rs w)) (new_contents w b) j)))"
proof -
  define rs where "rs = unat (wc_rs w)"
  have low: "vol_ok dev_ok view E U N ct M s" by (rule vol_ok_mono [OF v]) simp_all
  have len: "length (wc_old_refs w) = nchunks rs (length b)" using arg_cong [OF old(2), of length] by (simp add: rs_def)
  have oc: "ct (rf_hash (wc_old_refs w ! j)) = Some (chunk rs b j)" "wc_old_refs w ! j \<in># M" if "j < length (wc_old_refs w)"
  proof -
    have "map (\<lambda>r. ct (rf_hash r)) (wc_old_refs w) ! j = map Some (chunks rs b) ! j" using old(2) by (simp add: rs_def)
    then show "ct (rf_hash (wc_old_refs w ! j)) = Some (chunk rs b j)" using that len by (simp add: nth_chunks)
    show "wc_old_refs w ! j \<in># M" using old(1) that by auto
  qed
  have tk: "take 1 (drop j (wc_old_refs w)) = (if j < length (wc_old_refs w) then [wc_old_refs w ! j] else [])"
    by (simp add: Cons_nth_drop_Suc [symmetric])
  let ?S = "of_nat j * wc_rs w"
  let ?E = "min (?S + wc_rs w) (wc_new_size w)"
  show ?thesis
  proof (cases "\<not> (wc_end w > ?S \<and> wc_off w < ?E) \<and> j < length (wc_old_refs w) \<and> ?E \<le> wc_old_size w")
    case True
    then have r: "r = Ok (wc_old_refs w ! j, [])" "s' = s" using w by (auto simp: write_step_def Let_def)
    have "chunk rs b j = chunk rs (new_contents w b) j" using kept_chunk [OF c j] True by (simp add: rs_def)
    then show ?thesis
      using r low oc True tk by (intro exI [of _ ct]) (auto simp: rs_def intro!: exI [of _ "{#}"])
  next
    case False
    define ob where "ob = old_chunk rs b j"
    have rd: "(if j < length (wc_old_refs w) then res_bind (bs_read E s (wc_old_refs w ! j)) (\<lambda>b. Ok (Some b)) else Ok None) = Ok ob"
      using bs_read_vol [OF ev v] oc len by (simp add: ob_def old_chunk_def)
    have fill: "fill_record w (of_nat j) ob = chunk rs (new_contents w b) j" using fill_record_chunk [OF c j] by (simp add: ob_def rs_def)
    have ws: "write_step E w j s = st_bind (bs_write E (chunk rs (new_contents w b) j)) (\<lambda>r. st_return (r, if j < length (wc_old_refs w) then [wc_old_refs w ! j] else [])) s"
      using False rd fill unfolding write_step_def Let_def by auto
    obtain r1 s1 where w1: "bs_write E (chunk rs (new_contents w b) j) s = (r1, s1)" by fastforce
    obtain c1 where c1: "agree M ct c1" "same_rest s s1" "vol_ok dev_ok view E U N c1 M s1" "r1 \<noteq> Panic"
      "\<And>rf. r1 = Ok rf \<Longrightarrow> ref_ok rf \<and> c1 (rf_hash rf) = Some (chunk rs (new_contents w b) j) \<and> vol_ok dev_ok view E U N c1 (add_mset rf M) s1"
      by (rule bs_write_vol [OF ev v N _ w1]) (use U in \<open>auto simp: rs_def\<close>)
    show ?thesis
    proof (cases r1)
      case (Ok rf)
      then have "r = Ok (rf, if j < length (wc_old_refs w) then [wc_old_refs w ! j] else [])" "s' = s1"
        using w ws w1 by (simp_all add: st_bind_def st_return_def)
      then show ?thesis
        using c1(1-3) c1(5) [OF Ok] tk by (intro exI [of _ c1]) (auto simp: rs_def intro!: exI [of _ "{#rf#}"])
    next
      case (Err e)
      then have "r = Err e" "s' = s1" using w ws w1 by (simp_all add: st_bind_def)
      then show ?thesis using c1(1-3) by (intro exI [of _ c1]) simp
    qed (use c1(4) in simp)
  qed
qed

lemma write_loop_vol:
  assumes ev: "env_ok dv U E" and c: "ctx_ok w b" and m: "m = nchunks (unat (wc_rs w)) (unat (wc_new_size w))"
    and U: "\<And>j. j < m \<Longrightarrow> chunk (unat (wc_rs w)) (new_contents w b) j \<in> U"
  shows "k \<le> m \<Longrightarrow> vol_ok dev_ok view E U (N + (m - k)) ct M s \<Longrightarrow> N + (m - k) < 2 ^ 32 \<Longrightarrow> set (wc_old_refs w) \<subseteq> set_mset M \<Longrightarrow>
    map (\<lambda>r. ct (rf_hash r)) (wc_old_refs w) = map Some (chunks (unat (wc_rs w)) b) \<Longrightarrow> write_loop E w [k..<m] s = (r, s') \<Longrightarrow>
    \<exists>ct'. agree M ct ct' \<and> same_rest s s' \<and> r \<noteq> Panic \<and> vol_ok dev_ok view E U N ct' M s' \<and>
     (\<forall>rs rel. r = Ok (rs, rel) \<longrightarrow> (\<exists>W. vol_ok dev_ok view E U N ct' (W + M) s' \<and> mset rs + mset rel = W + mset (drop k (wc_old_refs w)) \<and>
        map (\<lambda>r. ct' (rf_hash r)) rs = map (\<lambda>j. Some (chunk (unat (wc_rs w)) (new_contents w b) j)) [k..<m] \<and> set rs \<subseteq> set_mset (W + M)))"
proof (induction "m - k" arbitrary: k s ct M r)
  case 0
  have "length (wc_old_refs w) = nchunks (unat (wc_rs w)) (length b)" using arg_cong [OF 0(6), of length] by simp
  also have "\<dots> \<le> m" using c unfolding m nchunks_def ctx_ok_def by (intro div_le_mono) simp
  finally have "drop k (wc_old_refs w) = []" using 0(1,2) by simp
  then show ?case using 0 by (intro exI [of _ ct]) (auto intro!: exI [of _ "{#}"])
next
  case (Suc d)
  have k: "k < m" "m - Suc k = d" "[k..<m] = k # [Suc k..<m]" using Suc(2) by (simp_all add: upt_conv_Cons)
  have v: "vol_ok dev_ok view E U (Suc (N + (m - Suc k))) ct M s" "Suc (N + (m - Suc k)) < 2 ^ 32"
    using Suc(4,5) unfolding Suc(2) [symmetric] k(2) by simp_all
  obtain r1 s1 where w1: "write_step E w k s = (r1, s1)" by fastforce
  have "k < nchunks (unat (wc_rs w)) (unat (wc_new_size w))" using k(1) m by simp
  from write_step_vol [OF ev v Suc(6,7) c this U [OF k(1)] w1]
  obtain c1 where c1: "agree M ct c1" "same_rest s s1" "r1 \<noteq> Panic" "vol_ok dev_ok view E U (N + (m - Suc k)) c1 M s1"
    "\<And>q rel. r1 = Ok (q, rel) \<Longrightarrow> \<exists>W. vol_ok dev_ok view E U (N + (m - Suc k)) c1 (W + M) s1 \<and> q \<in># W + M \<and>
       add_mset q (mset rel) = W + mset (take 1 (drop k (wc_old_refs w))) \<and> c1 (rf_hash q) = Some (chunk (unat (wc_rs w)) (new_contents w b) k)" by blast
  show ?case
  proof (cases r1)
    case (Err e)
    then have "r = Err e" "s' = s1" using Suc(8) w1 k(3) by (simp_all add: st_bind_def)
    moreover have "vol_ok dev_ok view E U N c1 M s1" by (rule vol_ok_mono [OF c1(4)]) simp_all
    ultimately show ?thesis using c1(1,2) by blast
  next
    case (Ok x)
    obtain q rel1 where x: "x = (q, rel1)" by fastforce
    obtain W where W: "vol_ok dev_ok view E U (N + (m - Suc k)) c1 (W + M) s1" "q \<in># W + M"
       "add_mset q (mset rel1) = W + mset (take 1 (drop k (wc_old_refs w)))" "c1 (rf_hash q) = Some (chunk (unat (wc_rs w)) (new_contents w b) k)"
      using c1(5) Ok x by blast
    obtain r2 where w2: "write_loop E w [Suc k..<m] s1 = (r2, s')"
        "r = (case r2 of Ok (rs, rels) \<Rightarrow> Ok (q # rs, rel1 @ rels) | Err e \<Rightarrow> Err e | Panic \<Rightarrow> Panic)"
      using Suc(8) w1 Ok x k(3) by (auto simp: st_bind_def st_return_def split: prod.splits res.splits)
    have "map (\<lambda>r. c1 (rf_hash r)) (wc_old_refs w) = map (\<lambda>r. ct (rf_hash r)) (wc_old_refs w)" using c1(1) Suc(6) by (auto simp: agree_def)
    then have old: "map (\<lambda>r. c1 (rf_hash r)) (wc_old_refs w) = map Some (chunks (unat (wc_rs w)) b)" using Suc(7) by simp
    have pre: "d = m - Suc k" "Suc k \<le> m" "N + (m - Suc k) < 2 ^ 32" "set (wc_old_refs w) \<subseteq> set_mset (W + M)" using Suc(6) k v(2) by auto
    from Suc(1) [OF pre(1,2) W(1) pre(3,4) old w2(1)]
    obtain c2 where c2: "agree (W + M) c1 c2" "same_rest s1 s'" "r2 \<noteq> Panic" "vol_ok dev_ok view E U N c2 (W + M) s'"
      "\<And>rs rel. r2 = Ok (rs, rel) \<Longrightarrow> \<exists>W2. vol_ok dev_ok view E U N c2 (W2 + (W + M)) s' \<and> mset rs + mset rel = W2 + mset (drop (Suc k) (wc_old_refs w)) \<and>
        map (\<lambda>r. c2 (rf_hash r)) rs = map (\<lambda>j. Some (chunk (unat (wc_rs w)) (new_contents w b) j)) [Suc k..<m] \<and> set rs \<subseteq> set_mset (W2 + (W + M))"
      by blast
    have cq: "c2 (rf_hash q) = Some (chunk (unat (wc_rs w)) (new_contents w b) k)" using c2(1) W(2,4) by (simp add: agree_def)
    have ag: "agree M ct c2" using agree_trans [OF c1(1) agree_mono [OF c2(1)]] by simp
    have lv: "vol_ok dev_ok view E U N c2 M s'" by (rule vol_ok_mono [OF c2(4)]) simp_all
    have split: "mset (drop k (wc_old_refs w)) = mset (take 1 (drop k (wc_old_refs w))) + mset (drop (Suc k) (wc_old_refs w))"
      using arg_cong [OF append_take_drop_id [of 1 "drop k (wc_old_refs w)", symmetric], of mset] by simp
    have "\<exists>W3. vol_ok dev_ok view E U N c2 (W3 + M) s' \<and> mset rs + mset rel = W3 + mset (drop k (wc_old_refs w)) \<and>
        map (\<lambda>r. c2 (rf_hash r)) rs = map (\<lambda>j. Some (chunk (unat (wc_rs w)) (new_contents w b) j)) [k..<m] \<and> set rs \<subseteq> set_mset (W3 + M)"
      if r: "r = Ok (rs, rel)" for rs rel
    proof -
      obtain rs2 rel2 where r2: "r2 = Ok (rs2, rel2)" "rs = q # rs2" "rel = rel1 @ rel2"
        using r w2(2) by (auto split: res.splits prod.splits)
      obtain W2 where W2: "vol_ok dev_ok view E U N c2 (W2 + (W + M)) s'" "mset rs2 + mset rel2 = W2 + mset (drop (Suc k) (wc_old_refs w))"
        "map (\<lambda>r. c2 (rf_hash r)) rs2 = map (\<lambda>j. Some (chunk (unat (wc_rs w)) (new_contents w b) j)) [Suc k..<m]" "set rs2 \<subseteq> set_mset (W2 + (W + M))"
        using c2(5) [OF r2(1)] by blast
      have "mset rs + mset rel = add_mset q (mset rel1) + (mset rs2 + mset rel2)" using r2 by simp
      also have "\<dots> = (W2 + W) + mset (drop k (wc_old_refs w))" unfolding W(3) W2(2) split by (simp add: ac_simps)
      finally show ?thesis
        using W2(1,3,4) W(2) r2 cq k(3) by (intro exI [of _ "W2 + W"]) (auto simp: ac_simps)
    qed
    moreover have "r \<noteq> Panic" using c2(3) w2(2) by (auto split: res.splits prod.splits)
    ultimately show ?thesis using ag lv same_rest_trans [OF c1(2) c2(2)] by blast
  qed (use c1(3) in simp)
qed

end

section \<open>Writing at an offset\<close>

lemma length_data_refs: "length (data_refs ct i) < 2 ^ 32"
proof -
  have "length rs < 2 ^ 32" if "decode_refs blob = Ok rs" for blob rs
    using that unsigned_less [of "from_le (slice 0 4 blob) :: u32", where ?'a = nat]
    by (auto simp: decode_refs_def Let_def split: if_splits)
  then show ?thesis by (auto simp: data_refs_def split: option.splits res.splits)
qed

lemma nchunks_bound: "0 < rs \<Longrightarrow> n \<le> nchunks rs n * rs"
  using less_nchunks [of rs "nchunks rs n" n] by (simp add: not_less)

lemma holds_length:
  assumes "inode_holds ct i b"
  shows "length b < 2 ^ 47"
proof (cases "b = []")
  case False
  then have l: "unat (record_size_log2 i) \<le> 15"
    and eq: "map (\<lambda>r. ct (rf_hash r)) (data_refs ct i) = map Some (chunks (rec_len i) b)"
    using assms by (simp_all add: inode_holds_def)
  have m: "length (data_refs ct i) = nchunks (rec_len i) (length b)" using arg_cong [OF eq, of length] by simp
  have "rec_len i \<le> 2 ^ 15" using l by (intro power_increasing) auto
  have "length b \<le> nchunks (rec_len i) (length b) * rec_len i" by (rule nchunks_bound) simp
  also have "\<dots> \<le> length (data_refs ct i) * 2 ^ 15" unfolding m [symmetric] using \<open>rec_len i \<le> 2 ^ 15\<close> by (rule mult_le_mono2)
  also have "\<dots> < 2 ^ 32 * 2 ^ 15" using length_data_refs [of ct i] by simp
  finally show ?thesis by simp
qed simp

lemma write_rs_spec:
  assumes h: "inode_holds ct i b"
  shows "unat (fst (write_rs i n)) = 2 ^ unat (snd (write_rs i n))" "12 \<le> unat (snd (write_rs i n))" "unat (snd (write_rs i n)) \<le> 15"
    "b \<noteq> [] \<Longrightarrow> snd (write_rs i n) = record_size_log2 i"
proof -
  have frozen: "unat (push_bit (unat l mod 64) 1 :: u64) = 2 ^ unat l" if "unat l \<le> 15" for l :: u8
  proof -
    have "(2 :: nat) ^ unat l \<le> 2 ^ 15" using that by (intro power_increasing) auto
    then show ?thesis using that by (simp add: unsigned_push_bit_eq push_bit_nat_def take_bit_nat_eq_self)
  qed
  have "in_size i > 0 \<longleftrightarrow> b \<noteq> []" using in_size_0 [OF h] by (simp add: word_neq_0_conv [symmetric])
  then show "unat (fst (write_rs i n)) = 2 ^ unat (snd (write_rs i n))" "12 \<le> unat (snd (write_rs i n))" "unat (snd (write_rs i n)) \<le> 15"
    "b \<noteq> [] \<Longrightarrow> snd (write_rs i n) = record_size_log2 i"
    using h frozen [of "record_size_log2 i"] by (auto simp: write_rs_def inode_holds_def record_size_for_def)
qed

lemma write_ctx_ok:
  assumes h: "inode_holds ct i b" and len: "unat off + length data < 2 ^ 63" and w: "w = write_ctx_of i refs off data"
  shows "ctx_ok w b" "wc_off w = off" "wc_data w = data" "wc_old_refs w = refs" "unat (wc_new_size w) = length (splice b (unat off) data)"
    "unat (wc_rs w) = 2 ^ unat (snd (write_rs i (wc_new_size w)))" "fst (write_rs i (wc_new_size w)) = wc_rs w"
proof -
  have ul: "unat (of_nat (length data) :: u64) = length data" using len by (intro unat_of_nat_small) simp
  then have ue: "unat (off + of_nat (length data)) = unat off + length data" using len by (subst unat_add_small) simp_all
  have ls: "length b = unat (in_size i)" using h by (simp add: inode_holds_def)
  show f: "wc_off w = off" "wc_data w = data" "wc_old_refs w = refs" "fst (write_rs i (wc_new_size w)) = wc_rs w"
    by (simp_all add: w write_ctx_of_def Let_def)
  have n: "unat (wc_new_size w) = max (length b) (unat off + length data)" using ue ls by (simp add: w write_ctx_of_def Let_def unat_max)
  then show "unat (wc_new_size w) = length (splice b (unat off) data)" by simp
  note ws = write_rs_spec [OF h, of "wc_new_size w"]
  show rs: "unat (wc_rs w) = 2 ^ unat (snd (write_rs i (wc_new_size w)))" using ws(1) f(4) by simp
  then have "unat (wc_rs w) \<le> 2 ^ 15" using ws(3) power_increasing [of "unat (snd (write_rs i (wc_new_size w)))" 15 "2 :: nat"] by simp
  moreover have "unat (wc_new_size w) < 2 ^ 63" using n holds_length [OF h] len by simp
  ultimately have "unat (wc_new_size w) + unat (wc_rs w) < 2 ^ 64" by simp
  moreover have "unat (wc_end w) = unat off + length data" "wc_old_size w = in_size i" using ue by (simp_all add: w write_ctx_of_def Let_def)
  ultimately show "ctx_ok w b" unfolding ctx_ok_def using n f ls rs by simp
qed

lemma unat_rec_count:
  assumes "ctx_ok w b" "1 < unat (wc_rs w)"
  shows "unat (div_ceil (wc_new_size w) (wc_rs w)) = nchunks (unat (wc_rs w)) (unat (wc_new_size w))"
proof -
  define n rs c where "n = unat (wc_new_size w)" and "rs = unat (wc_rs w)" and "c = unat (div_ceil (wc_new_size w) (wc_rs w))"
  have b: "n \<le> c * rs" "c * rs < n + rs" using div_ceil_bounds [OF assms(2), of "wc_new_size w"] by (simp_all add: n_def rs_def c_def)
  have rs: "0 < rs" using assms(2) by (simp add: rs_def)
  have "\<not> c < nchunks rs n" using less_nchunks [OF rs] b(1) by simp
  moreover have "c - 1 < nchunks rs n \<or> c = 0" unfolding less_nchunks [OF rs] using b(2) by (cases c) auto
  ultimately show ?thesis unfolding n_def [symmetric] rs_def [symmetric] c_def [symmetric] by linarith
qed

context block_device begin

lemma write_at_locked_vol:
  assumes ev: "env_ok dv U E" and h: "inode_holds ct i b" and ty: "inode_typed i" and ino: "unat ino < length (it_inodes (fs_inodes s))"
    and len: "unat off + length data < 2 ^ 63" and data: "data \<noteq> []" and wc: "w = write_ctx_of i (data_refs ct i) off data"
    and m: "m = nchunks (unat (wc_rs w)) (length (splice b (unat off) data))"
    and v: "vol_ok dev_ok view E U (Suc (N + m)) ct (inode_refs ct i + M) s" and N: "Suc (N + m) < 2 ^ 32"
    and U: "set (chunks (unat (wc_rs w)) (splice b (unat off) data)) \<subseteq> U"
    and enc: "\<forall>refs rel s1. write_loop E w [0..<m] s = (Ok (refs, rel), s1) \<longrightarrow> 2 \<le> length refs \<longrightarrow> encode_refs refs \<in> U"
    and wl: "write_at_locked E ino i off data s = (r, s')"
  shows "(\<exists>ct' i'. r = Ok i' \<and> agree M ct ct' \<and> vol_ok dev_ok view E U N ct' (inode_refs ct' i' + M) s' \<and> inode_holds ct' i' (splice b (unat off) data) \<and>
      same_attrs i i' \<and> inode_typed i' \<and> it_inodes (fs_inodes s') = (it_inodes (fs_inodes s))[unat ino := i'] \<and> same_vfs s s') \<or>
    (\<exists>ct' e. r = Err e \<and> agree (inode_refs ct i + M) ct ct' \<and> vol_ok dev_ok view E U N ct' (inode_refs ct i + M) s' \<and> same_rest s s')"
proof -
  note wo = write_ctx_ok [OF h len wc]
  define nb where "nb = splice b (unat off) data"
  define l2 where "l2 = snd (write_rs i (wc_new_size w))"
  have rs: "unat (wc_rs w) = 2 ^ unat l2" and nb: "new_contents w b = nb" "length nb = unat (wc_new_size w)"
    using wo by (simp_all add: l2_def nb_def)
  have l2: "12 \<le> unat l2 \<and> unat l2 \<le> 15" using write_rs_spec(2,3) [OF h] by (simp add: l2_def)
  then have "1 < unat (wc_rs w)" unfolding rs using one_less_power [of "2 :: nat" "unat l2"] by simp
  from unat_rec_count [OF wo(1) this] have rc: "unat (div_ceil (wc_new_size w) (wc_rs w)) = m" using m nb(2) by (simp add: nb_def)
  have mm: "m = nchunks (unat (wc_rs w)) (unat (wc_new_size w))" using m nb by (simp add: nb_def)
  have lr: "load_refs E s i = Ok (data_refs ct i)" by (rule load_refs_vol [OF ev v _ h]) simp
  have ct_c: "container i = (if in_size i > 0 \<and> flags i AND FLAG_INLINE_EXTENTS = 0 then [map_ref i] else [])"
    by (auto simp: container_def inlined_def word_neq_0_conv)
  have loc: "write_at_locked E ino i off data s = st_bind (write_loop E w [0..<m]) (\<lambda>(new_refs, to_release).
      st_bind (store_refs E i new_refs (wc_new_size w) l2) (\<lambda>i' s.
        case touch_mod i' (fold bs_release (to_release @ container i) s) of (i', s) \<Rightarrow> st_bind (put_inode ino i') (\<lambda>_. st_return i') s)) s"
    unfolding write_at_locked_def using data by (simp add: lr wc [symmetric] Let_def rc l2_def [symmetric] ct_c [symmetric])
  have Uj: "chunk (unat (wc_rs w)) (new_contents w b) j \<in> U" if "j < m" for j
    using that U m unfolding nb by (auto simp: chunks_def nb_def)
  have old: "set (wc_old_refs w) \<subseteq> set_mset (inode_refs ct i + M)" "map (\<lambda>r. ct (rf_hash r)) (wc_old_refs w) = map Some (chunks (unat (wc_rs w)) b)"
  proof -
    show "set (wc_old_refs w) \<subseteq> set_mset (inode_refs ct i + M)" using wo(4) by (auto simp: inode_refs_def)
    show "map (\<lambda>r. ct (rf_hash r)) (wc_old_refs w) = map Some (chunks (unat (wc_rs w)) b)"
    proof (cases "b = []")
      case True
      then show ?thesis using wo(4) in_size_0 [OF h] rs by (simp add: data_refs_def)
    next
      case False
      then show ?thesis using h write_rs_spec(4) [OF h False] wo(4) rs by (simp add: inode_holds_def l2_def)
    qed
  qed
  obtain r1 s1 where w1: "write_loop E w [0..<m] s = (r1, s1)" by fastforce
  have v0: "vol_ok dev_ok view E U (Suc N + (m - 0)) ct (inode_refs ct i + M) s" "Suc N + (m - 0) < 2 ^ 32" using v N by simp_all
  from write_loop_vol [OF ev wo(1) mm Uj le0 v0 old w1]
  obtain c1 where c1: "agree (inode_refs ct i + M) ct c1" "same_rest s s1" "r1 \<noteq> Panic" "vol_ok dev_ok view E U (Suc N) c1 (inode_refs ct i + M) s1"
    "\<And>rs rel. r1 = Ok (rs, rel) \<Longrightarrow> \<exists>W. vol_ok dev_ok view E U (Suc N) c1 (W + (inode_refs ct i + M)) s1 \<and> mset rs + mset rel = W + mset (drop 0 (wc_old_refs w)) \<and>
      map (\<lambda>r. c1 (rf_hash r)) rs = map (\<lambda>j. Some (chunk (unat (wc_rs w)) (new_contents w b) j)) [0..<m]" by blast
  show ?thesis
  proof (cases r1)
    case (Err e)
    then have "r = Err e" "s' = s1" using wl loc w1 by (simp_all add: st_bind_def)
    moreover have "vol_ok dev_ok view E U N c1 (inode_refs ct i + M) s1" by (rule vol_ok_mono [OF c1(4)]) simp_all
    ultimately show ?thesis using c1(1,2) by blast
  next
    case (Ok x)
    obtain refs rel where x: "x = (refs, rel)" by fastforce
    obtain W where W: "vol_ok dev_ok view E U (Suc N) c1 (W + (inode_refs ct i + M)) s1" "mset refs + mset rel = W + mset (data_refs ct i)"
        "map (\<lambda>r. c1 (rf_hash r)) refs = map (\<lambda>j. Some (chunk (unat (wc_rs w)) nb j)) [0..<m]"
      using c1(5) [of refs rel] Ok x wo(4) nb(1) by auto
    have "W + (inode_refs ct i + M) = (W + mset (data_refs ct i)) + (mset (container i) + M)" by (simp add: inode_refs_def ac_simps)
    also have "\<dots> = mset refs + (mset (rel @ container i) + M)" unfolding W(2) [symmetric] by (simp add: ac_simps)
    finally have own: "W + (inode_refs ct i + M) = mset refs + (mset (rel @ container i) + M)" .
    have k: "vol_ok dev_ok view E U (Suc N) c1 (mset refs + (mset (rel @ container i) + M)) s1" "Suc N < 2 ^ 32"
      "map (\<lambda>r. c1 (rf_hash r)) refs = map Some (chunks (2 ^ unat l2) nb)" "unat ino < length (it_inodes (fs_inodes s1))"
      using W(1,3) own N ino c1(2) m rs by (simp_all add: same_rest_def chunks_def nb_def comp_def)
    have e2: "2 \<le> length refs \<Longrightarrow> encode_refs refs \<in> U" using enc w1 Ok x by simp
    have rest: "write_at_locked E ino i off data s = st_bind (store_refs E i refs (wc_new_size w) l2) (\<lambda>i' s.
        case touch_mod i' (fold bs_release (rel @ container i) s) of (i', s) \<Rightarrow> st_bind (put_inode ino i') (\<lambda>_. st_return i') s) s1"
      using loc w1 Ok x by simp
    obtain r2 s2 where w2: "store_refs E i refs (wc_new_size w) l2 s1 = (r2, s2)" by fastforce
    show ?thesis
    proof (rule replace_vol [OF ev k(1,2) e2 w2 k(3) nb(2) l2 ty k(4)])
      fix e ct'
      assume f: "r2 = Err e" "agree (mset refs + (mset (rel @ container i) + M)) c1 ct'"
        "vol_ok dev_ok view E U N ct' (mset refs + (mset (rel @ container i) + M)) s2" "same_rest s1 s2"
      have "agree (inode_refs ct i + M) c1 ct'" "vol_ok dev_ok view E U N ct' (inode_refs ct i + M) s2"
        by (rule agree_mono [OF f(2) [folded own]] vol_ok_mono [OF f(3) [folded own]], simp_all)+
      then show ?thesis using wl rest w2 f(1,4) c1(1,2) by (auto simp: st_bind_def intro: agree_trans same_rest_trans)
    next
      fix i' c2 ct' i2 s3
      assume f: "r2 = Ok i'"
        "(case touch_mod i' (fold bs_release (rel @ container i) s2) of (i', s) \<Rightarrow> st_bind (put_inode ino i') (\<lambda>_. st_return i') s) = (Ok i2, s3)"
        "agree M c1 ct'" "vol_ok dev_ok view E U N ct' (inode_refs ct' i2 + M) s3" "inode_holds ct' i2 nb" "same_attrs i i2" "inode_typed i2"
        "it_inodes (fs_inodes s3) = (it_inodes (fs_inodes s1))[unat ino := i2]" "same_vfs s1 s3"
      have "r = Ok i2" "s' = s3" using wl rest w2 f(1,2) by (simp_all add: st_bind_def)
      moreover have "agree M ct c1" by (rule agree_mono [OF c1(1)]) simp
      then have "agree M ct ct'" using f(3) by (rule agree_trans)
      moreover have "same_vfs s s3" by (rule same_vfs_trans [OF same_rest_vfs [OF c1(2)] f(9)])
      moreover have "fs_inodes s1 = fs_inodes s" using c1(2) by (simp add: same_rest_def)
      ultimately show ?thesis using f(4-8) by (auto simp: nb_def)
    qed
  qed (use c1(3) in simp)
qed

end

section \<open>Reading at an offset\<close>

lemma slice_slice_append: "lo \<le> mid \<Longrightarrow> mid \<le> hi \<Longrightarrow> slice lo mid xs @ slice mid hi xs = slice lo hi xs"
proof -
  assume a: "lo \<le> mid" "mid \<le> hi"
  have "slice lo hi xs = take (mid - lo + (hi - mid)) (drop lo xs)" using a by (simp add: slice_def)
  also have "\<dots> = take (mid - lo) (drop lo xs) @ take (hi - mid) (drop (mid - lo) (drop lo xs))" by (rule take_add)
  finally show ?thesis using a by (simp add: slice_def)
qed

lemma slice_chunk:
  assumes "lo \<le> hi" "hi \<le> rs"
  shows "slice lo hi (chunk rs b j) = slice (j * rs + lo) (j * rs + hi) b"
proof -
  have "min (hi - lo) (rs - lo) = hi - lo" using assms by simp
  then show ?thesis by (simp add: slice_def chunk_def drop_take add.commute)
qed

context block_device begin

lemma read_loop_vol:
  assumes ev: "env_ok dv U E" and v: "vol_ok dev_ok view E U N ct M s"
    and refs: "set refs \<subseteq> set_mset M" "map (\<lambda>r. ct (rf_hash r)) refs = map Some (chunks (unat rs) b)" and rs: "0 < unat rs"
    and b: "length b + unat rs < 2 ^ 64" and e: "unat e \<le> length b" "unat off < unat e" and m: "m = Suc ((unat e - 1) div unat rs)"
  shows "k < m \<Longrightarrow> unat off div unat rs \<le> k \<Longrightarrow> read_loop E s refs rs off e [k..<m] = Ok (slice (max (unat off) (k * unat rs)) (unat e) b)"
proof (induction "m - k" arbitrary: k)
  case (Suc d)
  define R where "R = unat rs"
  have len: "length refs = nchunks R (length b)" using arg_cong [OF refs(2), of length] by (simp add: R_def)
  have "k \<le> (unat e - 1) div R" using Suc(3) m by (simp add: R_def)
  then have "k * R \<le> unat e - 1" using rs by (simp add: R_def less_eq_div_iff_mult_less_eq)
  then have ke: "k * R < unat e" using e(2) by linarith
  have "unat off < Suc (unat off div R) * R" using rs dividend_less_div_times [of R "unat off"] by (simp add: R_def add.commute)
  also have "\<dots> \<le> Suc k * R" using Suc(4) by (intro mult_le_mono1) (simp add: R_def)
  finally have ok: "unat off < k * R + R" by simp
  have kl: "k < length refs" unfolding len using less_nchunks [of R k "length b"] rs ke e(1) by (simp add: R_def)
  have "map (\<lambda>r. ct (rf_hash r)) refs ! k = map Some (chunks R b) ! k" using refs(2) by (simp add: R_def)
  then have "ct (rf_hash (refs ! k)) = Some (chunk R b k)" using kl len by (simp add: nth_chunks)
  then have rd: "bs_read E s (refs ! k) = Ok (chunk R b k)" using refs(1) kl by (intro bs_read_vol [OF ev v]) auto
  define L where "L = length (chunk R b k)"
  have L: "L = min R (length b - k * R)" by (simp add: L_def length_chunk)
  have "k \<le> k * R" using rs by (simp add: R_def)
  then have "k < 2 ^ 64" using ke e(1) b by linarith
  moreover have kR: "k * R < 2 ^ 64" using ke e(1) b by linarith
  ultimately have S: "unat (of_nat k * rs) = k * R" unfolding R_def by (subst unat_mult_lem [THEN iffD1]) simp_all
  have uL: "unat (of_nat L :: u64) = L" using L b by (intro unat_of_nat_small) (simp add: R_def)
  then have En: "unat (of_nat k * rs + of_nat L) = k * R + L" using S L b ke e(1) by (subst unat_add_small) (simp_all add: R_def)
  let ?lo = "max off (of_nat k * rs)" and ?hi = "min e (of_nat k * rs + of_nat L)"
  have lo: "unat ?lo = max (unat off) (k * R)" and hi: "unat ?hi = min (unat e) (k * R + R)"
  proof -
    show "unat ?lo = max (unat off) (k * R)" using S by (simp add: unat_max)
    have "min (unat e) (k * R + L) = min (unat e) (k * R + R)" unfolding L using e(1) ke by linarith
    then show "unat ?hi = min (unat e) (k * R + R)" using En by (simp add: unat_min)
  qed
  have lt: "max (unat off) (k * R) < min (unat e) (k * R + R)" using ok ke e(2) rs by (simp add: R_def)
  have u: "unat (?lo - of_nat k * rs) = max (unat off) (k * R) - k * R" "unat (?hi - of_nat k * rs) = min (unat e) (k * R + R) - k * R"
    using lo hi S lt by (subst unat_sub; simp add: word_le_nat_alt)+
  have part: "slice (max (unat off) (k * R) - k * R) (min (unat e) (k * R + R) - k * R) (chunk R b k) =
      slice (max (unat off) (k * R)) (min (unat e) (k * R + R)) b"
    using lt by (subst slice_chunk) auto
  have step: "read_loop E s refs rs off e [k..<m] =
      res_bind (read_loop E s refs rs off e [Suc k..<m]) (\<lambda>out. Ok (slice (max (unat off) (k * R)) (min (unat e) (k * R + R)) b @ out))"
  proof -
    have up: "[k..<m] = k # [Suc k..<m]" using Suc(3) by (rule upt_conv_Cons)
    have c: "?lo < ?hi" unfolding word_less_nat_alt lo hi by (rule lt)
    have n: "\<not> length refs \<le> k" using kl by simp
    show ?thesis
      unfolding up read_loop.simps if_not_P [OF n] rd res_bind.simps Let_def L_def [symmetric] if_P [OF c] u part by (rule refl)
  qed
  show ?case
  proof (cases "Suc k < m")
    case True
    have "Suc k * R \<le> (unat e - 1) div R * R" using True m by (intro mult_le_mono1) (simp add: R_def)
    also have "\<dots> \<le> unat e - 1" by (rule div_times_less_eq_dividend)
    finally have le: "k * R + R \<le> unat e" by simp
    have "read_loop E s refs rs off e [Suc k..<m] = Ok (slice (max (unat off) (Suc k * R)) (unat e) b)"
      using Suc(1) [of "Suc k"] Suc(2-4) True by (simp add: R_def)
    moreover have "max (unat off) (Suc k * R) = k * R + R" "min (unat e) (k * R + R) = k * R + R" using ok le by simp_all
    ultimately show ?thesis
      using step slice_slice_append [of "max (unat off) (k * R)" "k * R + R" "unat e" b] ok le by (simp add: R_def)
  next
    case False
    then have "Suc k = m" using Suc(3) by simp
    then have "unat e \<le> k * R + R"
      using m rs e(2) dividend_less_div_times [of R "unat e - 1"] by (simp add: R_def add.commute)
    then have "min (unat e) (k * R + R) = unat e" by simp
    then show ?thesis using step False by (simp add: R_def)
  qed
qed simp

end

end
