(* ===== verification/FileOps.thy ===== *)
theory FileOps
  imports Splice
begin

text \<open>
  The operations on whole files, over the invariant \<open>fs_ok\<close> of the mounted file system: each either
  replaces the contents of one inode and leaves every other inode as it was, or fails and leaves them
  all as they were.  After a commit the device mounts to a file system with the same inodes and the
  same contents.
\<close>

section \<open>Inodes and their contents\<close>

lemma itable_get_Ok:
  "itable_ok t \<Longrightarrow> itable_get t ino = Ok i \<longleftrightarrow> unat ino < length (it_inodes t) \<and> i = it_inodes t ! unat ino"
  using ino_in_range [of t ino] by (auto simp: itable_get_def not_le [symmetric])

lemma fs_okD:
  assumes "fs_ok dok V E U N ct s"
  shows "vol_ok dok V E U N ct (all_refs ct (it_inodes (fs_inodes s))) s" "itable_ok (fs_inodes s)"
  using assms vol_okD(7) by (auto simp: fs_ok_def)

lemma fs_ok_get:
  assumes "fs_ok dok V E U N ct s" "itable_get (fs_inodes s) ino = Ok i"
  obtains b where "unat ino < length (it_inodes (fs_inodes s))" "it_inodes (fs_inodes s) ! unat ino = i" "inode_holds ct i b" "inode_typed i"
    "all_refs ct (it_inodes (fs_inodes s)) = inode_refs ct i + all_refs ct (others (unat ino) (it_inodes (fs_inodes s)))"
proof -
  have i: "unat ino < length (it_inodes (fs_inodes s))" "it_inodes (fs_inodes s) ! unat ino = i"
    using assms(2) itable_get_Ok [OF fs_okD(2) [OF assms(1)]] by auto
  then have m: "i \<in> set (it_inodes (fs_inodes s))" by auto
  have "inode_typed i" using m fs_okD(2) [OF assms(1)] by (auto simp: itable_ok_def list_all_iff)
  moreover obtain b where "inode_holds ct i b" using m assms(1) by (auto simp: fs_ok_def)
  moreover note sum_others [OF i(1), of "inode_refs ct"]
  ultimately show thesis using i by (intro that) (simp_all add: all_refs_def)
qed

text \<open>The inode \<open>m\<close> and its contents are the same.\<close>

definition inode_same :: "'d fs_env \<Rightarrow> 'd fs \<Rightarrow> 'd fs \<Rightarrow> u64 \<Rightarrow> bool" where
  "inode_same E s s' m = (itable_get (fs_inodes s') m = itable_get (fs_inodes s) m \<and>
     (\<forall>i. itable_get (fs_inodes s) m = Ok i \<longrightarrow> get_data E s' i = get_data E s i))"

text \<open>The contents of \<open>ino\<close> became \<open>b\<close>; its attributes other than the size and the times of
  modification and change, and all other inodes, are the same.\<close>

definition file_update :: "'d fs_env \<Rightarrow> u64 \<Rightarrow> bytes \<Rightarrow> 'd fs \<Rightarrow> 'd fs \<Rightarrow> bool" where
  "file_update E ino b s s' =
     (\<exists>i i'. itable_get (fs_inodes s) ino = Ok i \<and> itable_get (fs_inodes s') ino = Ok i' \<and> same_attrs i i' \<and>
        unat (in_size i') = length b \<and> get_data E s' i' = Ok b \<and> (\<forall>m. m \<noteq> ino \<longrightarrow> inode_same E s s' m))"

context block_device begin

lemma fs_ok_data:
  assumes "env_ok dv U E" "fs_ok dev_ok view E U N ct s" "i \<in> set (it_inodes (fs_inodes s))" "inode_holds ct i b"
  shows "get_data E s i = Ok b"
  using assms(3) by (intro get_data_vol [OF assms(1) fs_okD(1) [OF assms(2)] _ assms(4)]) (simp add: all_refs_def sum_list_member)

lemma fs_ok_kept:
  assumes ev: "env_ok dv U E" and s: "fs_ok dev_ok view E U N ct s"
    and v: "vol_ok dev_ok view E U N' ct' (all_refs ct (it_inodes (fs_inodes s))) s'" and ag: "agree (all_refs ct (it_inodes (fs_inodes s))) ct ct'"
    and same: "fs_inodes s' = fs_inodes s"
  shows "fs_ok dev_ok view E U N' ct' s'" "inode_same E s s' m"
proof -
  let ?is = "it_inodes (fs_inodes s)"
  have sub: "inode_refs ct i \<subseteq># all_refs ct ?is" if "i \<in> set ?is" for i using that by (simp add: all_refs_def sum_list_member)
  have h: "inode_holds ct' i b" if "i \<in> set ?is" "inode_holds ct i b" for i b by (rule inode_holds_agree [OF ag sub [OF that(1)] that(2)])
  show ok: "fs_ok dev_ok view E U N' ct' s'"
    using v s h same all_refs_agree [OF ag] by (auto simp: fs_ok_def) (metis h)
  show "inode_same E s s' m"
  proof (unfold inode_same_def same, intro conjI refl allI impI)
    fix i assume "itable_get (fs_inodes s) m = Ok i"
    then obtain b where "i \<in> set ?is" "inode_holds ct i b" using fs_ok_get [OF s] by (metis nth_mem)
    then show "get_data E s' i = get_data E s i"
      using fs_ok_data [OF ev s] fs_ok_data [OF ev ok] h same by simp
  qed
qed

lemma fs_ok_replaced:
  assumes ev: "env_ok dv U E" and s: "fs_ok dev_ok view E U N ct s" and g: "itable_get (fs_inodes s) ino = Ok i"
    and v: "vol_ok dev_ok view E U N' ct' (inode_refs ct' i' + all_refs ct (others (unat ino) (it_inodes (fs_inodes s)))) s'"
    and ag: "agree (all_refs ct (others (unat ino) (it_inodes (fs_inodes s)))) ct ct'" and h': "inode_holds ct' i' b"
    and same: "same_attrs i i'" "it_inodes (fs_inodes s') = (it_inodes (fs_inodes s))[unat ino := i']"
  shows "fs_ok dev_ok view E U N' ct' s'" "file_update E ino b s s'"
proof -
  let ?is = "it_inodes (fs_inodes s)" and ?n = "unat ino"
  have n: "?n < length ?is" using fs_ok_get [OF s g] by blast
  have sub: "inode_refs ct j \<subseteq># all_refs ct (others ?n ?is)" if "j \<in> set (others ?n ?is)" for j
    using that by (simp add: all_refs_def sum_list_member)
  have h: "inode_holds ct' j c" if "j \<in> set (others ?n ?is)" "inode_holds ct j c" for j c
    by (rule inode_holds_agree [OF ag sub [OF that(1)] that(2)])
  have "all_refs ct' (?is[?n := i']) = inode_refs ct' i' + all_refs ct (others ?n ?is)"
    using n sum_others [of ?n "?is[?n := i']" "inode_refs ct'"] all_refs_agree [OF ag subset_mset.order_refl] by (simp add: all_refs_def)
  moreover have "\<exists>b. inode_holds ct' j b" if j: "j \<in> set (?is[?n := i'])" for j
  proof -
    obtain k where k: "k < length ?is" "j = ?is[?n := i'] ! k" using j by (auto simp: in_set_conv_nth)
    show ?thesis
    proof (cases "k = ?n")
      case False
      then have "j \<in> set (others ?n ?is)" "j \<in> set ?is" using k in_others [of k ?is ?n] by simp_all
      then show ?thesis using s h unfolding fs_ok_def by blast
    qed (use k n h' in auto)
  qed
  ultimately show ok: "fs_ok dev_ok view E U N' ct' s'" using v same(2) by (simp add: fs_ok_def)
  have tb: "itable_ok (fs_inodes s)" "itable_ok (fs_inodes s')" using fs_okD(2) s ok by blast+
  have gi: "itable_get (fs_inodes s') ino = Ok i'" using itable_get_Ok [OF tb(2)] n same(2) by simp
  have other: "inode_same E s s' m" if m: "m \<noteq> ino" for m
  proof -
    have um: "unat m \<noteq> ?n" using m by (simp add: word_unat_eq_iff)
    have eq: "itable_get (fs_inodes s') m = itable_get (fs_inodes s) m"
      using um same(2) by (simp add: itable_get_def)
    have "get_data E s' j = get_data E s j" if j: "itable_get (fs_inodes s) m = Ok j" for j
    proof -
      obtain c where c: "unat m < length ?is" "?is ! unat m = j" "inode_holds ct j c" by (rule fs_ok_get [OF s j])
      then have "j \<in> set (others ?n ?is)" "j \<in> set ?is" "j \<in> set (it_inodes (fs_inodes s'))"
        using in_others [of "unat m" ?is ?n] um same(2) by (auto simp: in_set_conv_nth intro!: exI [of _ "unat m"])
      then show ?thesis using fs_ok_data [OF ev s _ c(3)] fs_ok_data [OF ev ok] h c(3) by simp
    qed
    then show ?thesis using eq by (simp add: inode_same_def)
  qed
  have "i' \<in> set (it_inodes (fs_inodes s'))" using same(2) n by (simp add: set_update_memI)
  then have "get_data E s' i' = Ok b" by (rule fs_ok_data [OF ev ok _ h'])
  moreover have "unat (in_size i') = length b" using h' by (simp add: inode_holds_def)
  ultimately show "file_update E ino b s s'" unfolding file_update_def using g gi same(1) other by blast
qed

end

section \<open>The operations\<close>

text \<open>The records of new contents, and that everything an operation stores is in \<open>U\<close>: the records and,
  when there is more than one, the container with their references.\<close>

definition set_recs :: "bytes \<Rightarrow> bytes list" where
  "set_recs blob = chunks (unat (fst (record_size_for (of_nat (length blob))))) blob"

lemma set_recs_bound:
  assumes "length (set_recs blob) < 2 ^ 32"
  shows "length blob < 2 ^ 47"
proof -
  let ?rs = "unat (fst (record_size_for (of_nat (length blob))))"
  note rs = record_size_for_pos [of "of_nat (length blob)"]
  have "length blob \<le> length (set_recs blob) * ?rs" using nchunks_bound [OF rs(1), of "length blob"] by (simp add: set_recs_def)
  also have "\<dots> \<le> length (set_recs blob) * 32768" using rs(3) by (rule mult_le_mono2)
  finally show ?thesis using assms by simp
qed

definition set_in :: "'d fs_env \<Rightarrow> bytes set \<Rightarrow> bytes \<Rightarrow> 'd fs \<Rightarrow> bool" where
  "set_in E U blob s = (set (set_recs blob) \<subseteq> U \<and>
     (\<forall>refs s1. write_records E (set_recs blob) s = (Ok refs, s1) \<longrightarrow> 2 \<le> length refs \<longrightarrow> encode_refs refs \<in> U))"

definition patch_recs :: "inode \<Rightarrow> bytes \<Rightarrow> u64 \<Rightarrow> bytes \<Rightarrow> bytes list" where
  "patch_recs i b off data = chunks (unat (wc_rs (write_ctx_of i [] off data))) (splice b (unat off) data)"

definition patch_in :: "'d fs_env \<Rightarrow> bytes set \<Rightarrow> inode \<Rightarrow> bytes \<Rightarrow> u64 \<Rightarrow> bytes \<Rightarrow> 'd fs \<Rightarrow> bool" where
  "patch_in E U i b off data s = (set (patch_recs i b off data) \<subseteq> U \<and>
     (\<forall>old refs rel s1. load_refs E s i = Ok old \<longrightarrow>
        write_loop E (write_ctx_of i old off data) [0..<length (patch_recs i b off data)] s = (Ok (refs, rel), s1) \<longrightarrow>
        2 \<le> length refs \<longrightarrow> encode_refs refs \<in> U))"

definition resize :: "nat \<Rightarrow> bytes \<Rightarrow> bytes" where
  "resize n b = take n b @ replicate (n - length b) 0"

lemma regular_Ok: "regular s ino = Ok i \<longleftrightarrow> itable_get (fs_inodes s) ino = Ok i \<and> kind i = TYPE_REGULAR"
  by (auto simp: regular_def res_bind_eq_Ok)

lemma read_file_update: "file_update E ino b s s' \<Longrightarrow> regular s ino = Ok i \<Longrightarrow> read_file E s' ino = Ok b"
  by (auto simp: file_update_def regular_Ok read_file_def same_attrs_def res_bind_eq_Ok)

lemma file_update_refl:
  assumes "itable_ok (fs_inodes s)" "itable_get (fs_inodes s) ino = Ok i" "get_data E s i = Ok b" "unat (in_size i) = length b"
  shows "file_update E ino b s s"
  using assms by (auto simp: file_update_def inode_same_def same_attrs_def)

lemma splice_at_end: "splice b (length b) data = b @ data"
  by (simp add: splice_def copy_at_def)

context block_device begin

lemma fs_ok_contents:
  assumes ev: "env_ok dv U E" and s: "fs_ok dev_ok view E U N ct s" and g: "itable_get (fs_inodes s) ino = Ok i"
  obtains b where "inode_holds ct i b" "get_data E s i = Ok b"
  using fs_ok_get [OF s g] fs_ok_data [OF ev s] by (metis nth_mem)

lemma set_data_ok:
  assumes ev: "env_ok dv U E" and s: "fs_ok dev_ok view E U (Suc (N + length (set_recs blob))) ct s"
    and N: "Suc (N + length (set_recs blob)) < 2 ^ 32" and g: "itable_get (fs_inodes s) ino = Ok i"
    and len: "length blob < 2 ^ 64" and U: "set_in E U blob s" and w: "set_data E ino i blob s = (r, s')"
  shows "\<exists>ct'. fs_ok dev_ok view E U N ct' s' \<and>
    (r = Ok () \<and> file_update E ino blob s s' \<and> same_vfs s s' \<or> (\<exists>e. r = Err e) \<and> (\<forall>m. inode_same E s s' m) \<and> same_rest s s')"
proof -
  let ?M = "all_refs ct (others (unat ino) (it_inodes (fs_inodes s)))"
  obtain b where b: "unat ino < length (it_inodes (fs_inodes s))" "inode_holds ct i b" "inode_typed i"
      "all_refs ct (it_inodes (fs_inodes s)) = inode_refs ct i + ?M" by (rule fs_ok_get [OF s g])
  have v: "vol_ok dev_ok view E U (Suc (N + length (set_recs blob))) ct (inode_refs ct i + ?M) s" using fs_okD(1) [OF s] b(4) by simp
  have Us: "set (set_recs blob) \<subseteq> U" "\<forall>refs s1. write_records E (set_recs blob) s = (Ok refs, s1) \<longrightarrow> 2 \<le> length refs \<longrightarrow> encode_refs refs \<in> U"
    using U by (auto simp: set_in_def)
  from set_data_vol [OF ev v N b(2,3,1) len set_recs_def Us w] show ?thesis
  proof (elim disjE exE conjE)
    fix ct' i'
    assume f: "r = Ok ()" "agree ?M ct ct'" "vol_ok dev_ok view E U N ct' (inode_refs ct' i' + ?M) s'" "inode_holds ct' i' blob"
      "same_attrs i i'" "it_inodes (fs_inodes s') = (it_inodes (fs_inodes s))[unat ino := i']" "same_vfs s s'"
    then show ?thesis using fs_ok_replaced [OF ev s g f(3,2,4-6)] by blast
  next
    fix ct' e
    assume f: "r = Err e" "agree (inode_refs ct i + ?M) ct ct'" "vol_ok dev_ok view E U N ct' (inode_refs ct i + ?M) s'" "same_rest s s'"
    have "fs_inodes s' = fs_inodes s" using f(4) by (simp add: same_rest_def)
    note k = fs_ok_kept [OF ev s f(3,2) [folded b(4)] this]
    show ?thesis using k f(1,4) by blast
  qed
qed

lemma write_at_locked_ok:
  assumes ev: "env_ok dv U E" and s: "fs_ok dev_ok view E U (Suc (N + length (patch_recs i b off data))) ct s"
    and N: "Suc (N + length (patch_recs i b off data)) < 2 ^ 32" and g: "itable_get (fs_inodes s) ino = Ok i" and b: "get_data E s i = Ok b"
    and len: "unat off + length data < 2 ^ 63" and U: "patch_in E U i b off data s" and w: "write_at_locked E ino i off data s = (r, s')"
  shows "\<exists>ct'. fs_ok dev_ok view E U N ct' s' \<and>
    ((\<exists>i'. r = Ok i' \<and> itable_get (fs_inodes s') ino = Ok i') \<and> file_update E ino (if data = [] then b else splice b (unat off) data) s s' \<and> same_vfs s s' \<or>
     (\<exists>e. r = Err e) \<and> (\<forall>m. inode_same E s s' m) \<and> same_rest s s')"
proof -
  let ?M = "all_refs ct (others (unat ino) (it_inodes (fs_inodes s)))" and ?m = "length (patch_recs i b off data)"
  obtain b' where b': "unat ino < length (it_inodes (fs_inodes s))" "it_inodes (fs_inodes s) ! unat ino = i" "inode_holds ct i b'" "inode_typed i"
      "all_refs ct (it_inodes (fs_inodes s)) = inode_refs ct i + ?M" by (rule fs_ok_get [OF s g])
  have bb: "b' = b" using fs_ok_data [OF ev s _ b'(3)] b' b nth_mem by fastforce
  note h = b'(3) [unfolded bb]
  have v: "vol_ok dev_ok view E U (Suc (N + ?m)) ct (inode_refs ct i + ?M) s" using fs_okD(1) [OF s] b'(5) by simp
  show ?thesis
  proof (cases "data = []")
    case True
    then have "r = Ok i" "s' = s" using w by (simp_all add: write_at_locked_def)
    moreover have "fs_ok dev_ok view E U N ct s" using s vol_ok_mono [OF fs_okD(1) [OF s], of _ N] by (auto simp: fs_ok_def)
    moreover have "file_update E ino b s s" using file_update_refl [OF fs_okD(2) [OF s] g b] h by (simp add: inode_holds_def)
    ultimately show ?thesis using True g by (intro exI [of _ ct]) (simp add: same_vfs_def)
  next
    case False
    define wc where "wc = write_ctx_of i (data_refs ct i) off data"
    have lr: "load_refs E s i = Ok (data_refs ct i)" by (rule load_refs_vol [OF ev v _ h]) simp
    have pr: "patch_recs i b off data = chunks (unat (wc_rs wc)) (splice b (unat off) data)" by (simp add: patch_recs_def wc_def write_ctx_of_def Let_def)
    have m: "?m = nchunks (unat (wc_rs wc)) (length (splice b (unat off) data))" by (simp only: pr length_chunks)
    have Us: "set (chunks (unat (wc_rs wc)) (splice b (unat off) data)) \<subseteq> U"
        "\<forall>refs rel s1. write_loop E wc [0..<?m] s = (Ok (refs, rel), s1) \<longrightarrow> 2 \<le> length refs \<longrightarrow> encode_refs refs \<in> U"
    proof -
      show "set (chunks (unat (wc_rs wc)) (splice b (unat off) data)) \<subseteq> U" using U unfolding patch_in_def pr by blast
      show "\<forall>refs rel s1. write_loop E wc [0..<?m] s = (Ok (refs, rel), s1) \<longrightarrow> 2 \<le> length refs \<longrightarrow> encode_refs refs \<in> U"
        using U lr unfolding patch_in_def wc_def by blast
    qed
    from write_at_locked_vol [OF ev h b'(4,1) len False wc_def m v N Us w] show ?thesis
    proof (elim disjE exE conjE)
      fix ct' i'
      assume f: "r = Ok i'" "agree ?M ct ct'" "vol_ok dev_ok view E U N ct' (inode_refs ct' i' + ?M) s'" "inode_holds ct' i' (splice b (unat off) data)"
        "same_attrs i i'" "it_inodes (fs_inodes s') = (it_inodes (fs_inodes s))[unat ino := i']" "same_vfs s s'"
      note k = fs_ok_replaced [OF ev s g f(3,2,4-6)]
      have "itable_get (fs_inodes s') ino = Ok i'" using itable_get_Ok [OF fs_okD(2) [OF k(1)]] b'(1) f(6) by simp
      then show ?thesis using k f(1,7) False by auto
    next
      fix ct' e
      assume f: "r = Err e" "agree (inode_refs ct i + ?M) ct ct'" "vol_ok dev_ok view E U N ct' (inode_refs ct i + ?M) s'" "same_rest s s'"
      have "fs_inodes s' = fs_inodes s" using f(4) by (simp add: same_rest_def)
      note k = fs_ok_kept [OF ev s f(3,2) [folded b'(5)] this]
      show ?thesis using k f(1,4) by blast
    qed
  qed
qed

lemma read_at_ok:
  assumes ev: "env_ok dv U E" and s: "fs_ok dev_ok view E U N ct s" and reg: "regular s ino = Ok i" and b: "get_data E s i = Ok b"
    and len: "unat off + len < 2 ^ 64"
  shows "read_at E s ino off len = Ok (take len (drop (unat off) b))"
proof -
  have g: "itable_get (fs_inodes s) ino = Ok i" using reg by (simp add: regular_Ok)
  obtain b' where b': "unat ino < length (it_inodes (fs_inodes s))" "it_inodes (fs_inodes s) ! unat ino = i" "inode_holds ct i b'"
      "all_refs ct (it_inodes (fs_inodes s)) = inode_refs ct i + all_refs ct (others (unat ino) (it_inodes (fs_inodes s)))" by (rule fs_ok_get [OF s g])
  have bb: "b' = b" using fs_ok_data [OF ev s _ b'(3)] b' b nth_mem by fastforce
  note h = b'(3) [unfolded bb]
  have sz: "unat (in_size i) = length b" using h by (simp add: inode_holds_def)
  show ?thesis
  proof (cases "len = 0 \<or> in_size i \<le> off")
    case True
    then show ?thesis using reg sz by (auto simp: read_at_def word_le_nat_alt)
  next
    case False
    define e where "e = min (off + of_nat len) (in_size i)"
    define rs where "rs = (push_bit (unat (record_size_log2 i) mod 64) 1 :: u64)"
    have ob: "unat off < length b" using False sz by (simp add: word_le_nat_alt)
    then have ne: "b \<noteq> []" by auto
    have ul: "unat (of_nat len :: u64) = len" using len by (intro unat_of_nat_small) simp
    have "unat (off + of_nat len) = unat off + len" using len ul by (subst unat_add_small) simp_all
    then have ue: "unat e = min (unat off + len) (length b)" using sz by (simp add: e_def unat_min)
    have "in_size i > 0" using in_size_0 [OF h] ne by (simp add: word_neq_0_conv [symmetric])
    then have rs: "unat rs = rec_len i" "unat rs \<le> 2 ^ 15"
      using write_rs_spec [OF h, of 0] ne power_increasing [of "unat (record_size_log2 i)" 15 "2 :: nat"] by (simp_all add: write_rs_def rs_def)
    note v = fs_okD(1) [OF s]
    have lr: "load_refs E s i = Ok (data_refs ct i)" by (rule load_refs_vol [OF ev v _ h]) (simp add: b'(4))
    have refs: "set (data_refs ct i) \<subseteq> set_mset (all_refs ct (it_inodes (fs_inodes s)))"
        "map (\<lambda>r. ct (rf_hash r)) (data_refs ct i) = map Some (chunks (unat rs) b)"
      using h ne b'(4) rs(1) by (auto simp: inode_refs_def inode_holds_def)
    have lb: "length b < 2 ^ 47" by (rule holds_length [OF h])
    have oe: "off < e" using ue ob False by (simp add: word_less_nat_alt)
    have eo: "unat (e - off) < 2 ^ 63" using oe ue lb by (subst unat_sub) (simp_all add: less_imp_le)
    have lo: "length b + unat rs < 2 ^ 64" "unat e \<le> length b" "unat off < unat e" "0 < unat rs"
      using lb rs ue oe by (simp_all add: word_less_nat_alt)
    have d: "unat (off div rs) = unat off div unat rs" "unat ((e - 1) div rs) = (unat e - 1) div unat rs"
    proof -
      have "1 \<le> e" using lo(3) by (simp add: word_le_nat_alt)
      then have "unat (e - 1) = unat e - 1" by (subst unat_sub) simp_all
      then show "unat (off div rs) = unat off div unat rs" "unat ((e - 1) div rs) = (unat e - 1) div unat rs"
        by (simp_all add: unat_div)
    qed
    have k: "unat off div unat rs < Suc ((unat e - 1) div unat rs)" using lo(3) by (simp add: less_Suc_eq_le div_le_mono)
    have "read_loop E s (data_refs ct i) rs off e [unat off div unat rs..<Suc ((unat e - 1) div unat rs)] =
        Ok (slice (max (unat off) (unat off div unat rs * unat rs)) (unat e) b)"
      by (rule read_loop_vol [OF ev v refs lo(4,1,2,3) refl k order_refl])
    moreover have "max (unat off) (unat off div unat rs * unat rs) = unat off" by (rule max.absorb1) (rule div_times_less_eq_dividend)
    moreover have "slice (unat off) (unat e) b = take len (drop (unat off) b)"
      using ue by (simp add: slice_def min_def)
    moreover have "read_at E s ino off len = read_loop E s (data_refs ct i) rs off e [unat off div unat rs..<Suc ((unat e - 1) div unat rs)]"
      unfolding read_at_def reg res_bind.simps if_not_P [OF False] Let_def e_def [symmetric] rs_def [symmetric] lr d
      using eo by (simp add: not_le del: upt_Suc)
    ultimately show ?thesis by (simp del: upt_Suc)
  qed
qed

end

end
