(* ===== verification/Mounts.thy ===== *)
theory Mounts
  imports FileOps
begin

text \<open>
  Mounting, formatting and committing a file system of \<^verbatim>\<open>rust/bloomfs-fs\<close>: \<open>format\<close> gives an empty
  file system that satisfies the invariant, and a file system that was committed is mounted again with
  the same inodes and the same contents.  The properties of the file operations follow.
\<close>

section \<open>Mounting a committed state\<close>

lemma fs_mount_eq:
  assumes "cow_mount (fe_crypto E) (fe_dev E) d = Ok (ub, bm, ddt, tbl)" "store_new (fe_crypto E) key = Ok bs"
  shows "fs_mount E clock key d = Ok \<lparr>fs_pool = \<lparr>po_dev = d, po_bm = bm, po_ddt = ddt\<rparr>, fs_ub = ub, fs_inodes = tbl, fs_bs = bs,
    fs_open = [], fs_free = rebuild_free_inodes tbl, fs_clock = clock, fs_reads = 0,
    fs_meta_buf = replicate (unat (ub_meta_blocks ub * BLK)) 0, fs_cache = Some cache_new\<rparr>"
  using assms by (simp add: fs_mount_def)

lemma pool_inv_order:
  assumes "pool_inv C bs V B bm ddt ct" "is_iter iter"
  shows "pool_inv C bs V B bm (iter ddt) ct" "map_of (iter ddt) = map_of ddt"
proof -
  have d: "distinct (map fst ddt)" using pool_inv_facts(3) [OF assms(1)] by (simp add: dedup_ok_def)
  note il = is_iter_D [OF assms(2) d]
  show m: "map_of (iter ddt) = map_of ddt" using il by blast
  have "dedup_ok (iter ddt)" using pool_inv_facts(3) [OF assms(1)] il by (simp add: dedup_ok_def)
  then show "pool_inv C bs V B bm (iter ddt) ct" using assms(1) m by (simp add: pool_inv_def)
qed

context block_device begin

lemma remount_vol:
  assumes ev: "env_ok dv U E" and v: "vol_ok dev_ok view E U N ct M s" and w: "fs_commit E s = (Ok (), s')"
    and seq: "unat (ub_seq (fs_ub s)) + 1 < 2 ^ 64" and key: "store_new (fe_crypto E) key = Ok (fs_bs s)"
  shows "\<exists>s2. fs_mount E clock key (po_dev (fs_pool s')) = Ok s2 \<and> vol_ok dev_ok view E U N ct M s2 \<and>
    fs_inodes s2 = fs_inodes s \<and> fs_root s2 = fs_root s \<and> ub_next_inode (fs_ub s2) = ub_next_inode (fs_ub s)"
proof -
  let ?bm = "po_bm (fs_pool s)" and ?ddt = "po_ddt (fs_pool s)" and ?d = "po_dev (fs_pool s')"
  have e: "fe_dev E = dv" "is_iter (fe_ddt_iter E)" using ev by (auto simp: env_ok_def)
  have v': "vol_ok dev_ok view E U N ct M s'" and sr: "same_rest s s'" using fs_commit_vol [OF ev v w] by auto
  note vd = vol_okD [OF v'] and v0 = vol_okD [OF v]
  note fc = fs_commit_committed [OF ev v w seq]
  note cm = fc(1) [folded e(1)] and pl = fc(3,2) and ds = fc(4)
  define s2 where "s2 = \<lparr>fs_pool = \<lparr>po_dev = ?d, po_bm = ?bm\<lparr>bm_deferred := []\<rparr>, po_ddt = fe_ddt_iter E ?ddt\<rparr>, fs_ub = fs_ub s', fs_inodes = fs_inodes s,
    fs_bs = fs_bs s, fs_open = [], fs_free = rebuild_free_inodes (fs_inodes s), fs_clock = clock, fs_reads = 0,
    fs_meta_buf = replicate (unat (ub_meta_blocks (fs_ub s') * BLK)) 0, fs_cache = Some cache_new\<rparr>"
  have "fs_mount E clock key ?d = Ok s2" unfolding s2_def by (rule fs_mount_eq [OF cm key])
  moreover have "pool_inv (fe_crypto E) (fs_bs s) (view ?d) (unat (blocks dv ?d)) (?bm\<lparr>bm_deferred := []\<rparr>) ?ddt ct"
  proof (rule pool_inv_frame)
    show "pool_inv (fe_crypto E) (fs_bs s) (view ?d) (unat (blocks dv ?d)) (apply_deferred ?bm) ?ddt ct"
      using vd(2) sr pl e(1) by (simp add: same_rest_def)
    note ad = apply_deferred_spec [OF pool_inv_facts(1) [OF v0(2)]]
    show "bitmap_ok (?bm\<lparr>bm_deferred := []\<rparr>)" "bm_total (?bm\<lparr>bm_deferred := []\<rparr>) = bm_total (apply_deferred ?bm)"
      "used_set (apply_deferred ?bm) \<subseteq> used_set (?bm\<lparr>bm_deferred := []\<rparr>)"
      "deferred_set (?bm\<lparr>bm_deferred := []\<rparr>) \<subseteq> deferred_set (apply_deferred ?bm)"
      using pool_inv_facts(1) [OF v0(2)] ad by (auto simp: deferred_set_def)
  qed simp
  note pi = pool_inv_order [OF this e(2)]
  have "vol_ok dev_ok view E U N ct M s2"
    using pi vd(1,3,5,7-12) v0(4) sr pl ds e(1)
    by (simp add: vol_ok_def s2_def deferred_set_def avoids_def refs_below_def owned_def same_rest_def)
  ultimately show ?thesis using sr by (simp add: s2_def fs_root_def same_rest_def)
qed

lemma remount_ok:
  assumes ev: "env_ok dv U E" and s: "fs_ok dev_ok view E U N ct s" and w: "fs_commit E s = (Ok (), s')"
    and seq: "unat (ub_seq (fs_ub s)) + 1 < 2 ^ 64" and key: "store_new (fe_crypto E) key = Ok (fs_bs s)"
  shows "\<exists>s2. fs_mount E clock key (po_dev (fs_pool s')) = Ok s2 \<and> fs_ok dev_ok view E U N ct s2 \<and>
    (\<forall>m. inode_same E s s2 m) \<and> fs_root s2 = fs_root s"
proof -
  obtain s2 where s2: "fs_mount E clock key (po_dev (fs_pool s')) = Ok s2"
      "vol_ok dev_ok view E U N ct (all_refs ct (it_inodes (fs_inodes s))) s2" "fs_inodes s2 = fs_inodes s" "fs_root s2 = fs_root s"
    using remount_vol [OF ev fs_okD(1) [OF s] w seq key] by blast
  note k = fs_ok_kept [OF ev s s2(2) agree_refl s2(3)]
  show ?thesis using s2 k by blast
qed

end

section \<open>Formatting\<close>

definition root_inode :: "u64 \<Rightarrow> inode" where
  "root_inode now = inode_default\<lparr>kind := TYPE_DIR, nlink := 2, mode := 493, atime := now, mtime := now, ctime := now\<rparr>"

lemma fresh_pool_inv:
  assumes "bitmap_ok bm" "unat (bm_total bm) = B" "bm_deferred bm = []"
  shows "pool_inv C bs V B bm [] Map.empty"
  using assms by (simp add: pool_inv_def deferred_set_def dedup_ok_def runs_disjoint_def)

lemma all_refs_empty: "\<forall>i \<in> set is. in_size i = 0 \<Longrightarrow> all_refs ct is = {#}"
  using empty_inode by (induction "is") (auto simp: all_refs_def)

text \<open>Storing an inode with no contents in a slot with no contents.\<close>

lemma put_empty_vol:
  assumes s: "fs_ok dok V E U N ct s" and ino: "unat ino < length (it_inodes (fs_inodes s))" "in_size (it_inodes (fs_inodes s) ! unat ino) = 0"
    and i: "inode_typed i" "in_size i = 0" and w: "put_inode ino i s = (r, s')"
  shows "fs_ok dok V E U N ct s' \<and> r = Ok () \<and> it_inodes (fs_inodes s') = (it_inodes (fs_inodes s))[unat ino := i] \<and>
    fs_pool s' = fs_pool s \<and> fs_ub s' = fs_ub s \<and> same_vfs s s'"
proof -
  let ?is = "it_inodes (fs_inodes s)"
  note tb = fs_okD(2) [OF s]
  define t where "t = snd (itable_put (fs_inodes s) ino i)"
  have pt: "itable_put (fs_inodes s) ino i = (Ok (), t)" "it_inodes t = ?is[unat ino := i]"
    using itable_put_Ok [OF tb ino(1)] by (simp_all add: t_def)
  have s': "s' = s\<lparr>fs_inodes := t\<rparr>" "r = Ok ()" using w pt(1) by (simp_all add: put_inode_def)
  have "itable_ok t" using itable_put_ok(1) [OF tb i(1) pt(1)] .
  moreover have "all_refs ct (?is[unat ino := i]) = all_refs ct ?is"
    using sum_others [OF ino(1), of "inode_refs ct"] sum_others [of "unat ino" "?is[unat ino := i]" "inode_refs ct"] ino i empty_inode
    by (simp add: all_refs_def)
  ultimately have "vol_ok dok V E U N ct (all_refs ct (?is[unat ino := i])) s'"
    using vol_ok_cong [OF fs_okD(1) [OF s], of s'] by (simp add: s' itable_cap_def pt(2))
  moreover have "\<exists>b. inode_holds ct j b" if "j \<in> set (?is[unat ino := i])" for j
    using that s empty_inode [OF i(2)] set_update_subset_insert [of ?is "unat ino" i] by (auto simp: fs_ok_def)
  ultimately show ?thesis using s' pt(2) by (simp add: fs_ok_def same_vfs_def)
qed

context block_device begin

lemma fresh_vol:
  assumes ev: "env_ok dv U E" and ok: "dev_ok d" and tot: "tot = blocks dv d" and fits: "fmt_fits tot ic dr"
    and room: "2 + 2 * unat (fmt_blocks tot ic dr) < unat tot"
    and cm: "committed (fe_crypto E) (view d) (unat tot) (fmt_uber tot ic dr, fmt_bitmap tot ic dr, [], itable_new (fmt_inodes ic))"
    and key: "store_new (fe_crypto E) key = Ok bs"
  shows "\<exists>s. fs_mount E clock key d = Ok s \<and> fs_ok dev_ok view E U N Map.empty s \<and> fs_ub s = fmt_uber tot ic dr \<and>
    po_bm (fs_pool s) = fmt_bitmap tot ic dr \<and> po_ddt (fs_pool s) = [] \<and> fs_inodes s = itable_new (fmt_inodes ic) \<and>
    fs_bs s = bs \<and> fs_clock s = clock \<and> fs_reads s = 0 \<and> fs_open s = [] \<and> fs_cache s = Some cache_new"
proof -
  let ?ub = "fmt_uber tot ic dr" and ?bm = "fmt_bitmap tot ic dr" and ?tbl = "itable_new (fmt_inodes ic)"
  have e: "fe_dev E = dv" using ev by (simp add: env_ok_def)
  have "cow_mount (fe_crypto E) (fe_dev E) d = Ok (?ub, ?bm, [], ?tbl)" using mount_committed [OF ok] cm tot e by simp
  note m = fs_mount_eq [OF this key, of clock]
  note fp = fmt_parts [OF fits room] and fg = fmt_geom [OF fits room]
  define s where "s = \<lparr>fs_pool = \<lparr>po_dev = d, po_bm = ?bm, po_ddt = []\<rparr>, fs_ub = ?ub, fs_inodes = ?tbl, fs_bs = bs,
    fs_open = [], fs_free = rebuild_free_inodes ?tbl, fs_clock = clock, fs_reads = 0,
    fs_meta_buf = replicate (unat (ub_meta_blocks ?ub * BLK)) 0, fs_cache = Some cache_new\<rparr>"
  have z: "\<forall>i \<in> set (it_inodes ?tbl). in_size i = 0" by (simp add: itable_new_def inode_default_def)
  have pi: "pool_inv (fe_crypto E) bs (view d) (unat tot) ?bm [] Map.empty"
    using fp by (intro fresh_pool_inv) (simp_all add: parts_ok_def)
  have "{0..<unat (ub_data_start ?ub)} = used_set ?bm" using fp(2) fmt_data_start [OF fits] by simp
  moreover have "parse_uber (fe_crypto E) (view d (uslot ?ub)) = Ok ?ub" using cm by (simp add: committed_def best_uber_def)
  moreover have "itable_cap ?tbl = ub_inode_count ?ub" by (simp add: fmt_uber_def itable_cap_def itable_new_def)
  ultimately have "vol_ok dev_ok view E U N Map.empty {#} s"
    using ok pi fg(1) fp(1,4) tot e by (simp add: vol_ok_def s_def parts_ok_def deferred_set_def avoids_def refs_below_def owned_def)
  moreover have it: "fs_inodes s = ?tbl" by (simp add: s_def)
  moreover have "\<exists>b. inode_holds Map.empty i b" if "i \<in> set (it_inodes ?tbl)" for i using empty_inode [OF bspec [OF z that]] by blast
  ultimately have "fs_ok dev_ok view E U N Map.empty s" unfolding fs_ok_def it all_refs_empty [OF z] by blast
  then show ?thesis using m by (simp add: s_def)
qed

lemma format_ok:
  assumes ev: "env_ok dv U E" and ok: "dev_ok d" and tot: "tot = blocks dv d" and fits: "fmt_fits tot DEFAULT_INODE_COUNT DEFAULT_DDT_RESERVE"
    and room: "2 + 2 * unat (fmt_blocks tot DEFAULT_INODE_COUNT DEFAULT_DDT_RESERVE) < unat tot"
    and other: "\<forall>u. parse_uber (fe_crypto E) (view d 0) = Ok u \<longrightarrow> ub_seq u < 1" and key: "store_new (fe_crypto E) key = Ok bs"
  shows "\<exists>s. fs_format E clock key d = (Ok s, po_dev (fs_pool s)) \<and> fs_ok dev_ok view E U N Map.empty s \<and> fs_root s = 0 \<and>
    it_inodes (fs_inodes s) = (replicate 4096 inode_default)[0 := root_inode (clock 0)] \<and> po_ddt (fs_pool s) = [] \<and>
    used_set (po_bm (fs_pool s)) = {0..<unat (ub_data_start (fs_ub s))} \<and> fs_bs s = bs \<and> fs_cache s = Some cache_new \<and>
    unat (ub_data_start (fs_ub s)) = 2 + 2 * unat (fmt_blocks tot DEFAULT_INODE_COUNT DEFAULT_DDT_RESERVE) \<and>
    blocks dv (po_dev (fs_pool s)) = tot \<and> ub_seq (fs_ub s) = 2"
proof -
  let ?ic = DEFAULT_INODE_COUNT and ?dr = DEFAULT_DDT_RESERVE
  let ?ub = "fmt_uber tot ?ic ?dr" and ?bm = "fmt_bitmap tot ?ic ?dr"
  have e: "fe_dev E = dv" "crypto_ok (fe_crypto E)" "is_iter (fe_ddt_iter E)" using ev by (auto simp: env_ok_def)
  have ic: "fmt_inodes ?ic = ?ic" "unat ?ic = 4096" by (simp_all add: DEFAULT_INODE_COUNT_def)
  obtain d1 where d1: "cow_format (fe_crypto E) (fe_ddt_iter E) dv ?ic ?dr d = (Ok ?ub, d1)" "dev_ok d1" "blocks dv d1 = blocks dv d"
      "committed (fe_crypto E) (view d1) (unat tot) (?ub, ?bm, [], itable_new (fmt_inodes ?ic))"
    using format_committed [OF e(2,3) ok tot fits room refl other] by blast
  have tot1: "tot = blocks dv d1" using d1(3) tot by simp
  obtain s0 where s0: "fs_mount E clock key d1 = Ok s0" "fs_ok dev_ok view E U N Map.empty s0" "fs_ub s0 = ?ub" "po_bm (fs_pool s0) = ?bm"
      "po_ddt (fs_pool s0) = []" "fs_inodes s0 = itable_new ?ic" "fs_bs s0 = bs" "fs_clock s0 = clock" "fs_reads s0 = 0" "fs_cache s0 = Some cache_new"
    using fresh_vol [OF ev d1(2) tot1 fits room d1(4) key, of clock N] unfolding ic(1) by blast
  define s1 where "s1 = s0\<lparr>fs_reads := 1\<rparr>"
  have now: "fs_now s0 = (clock 0, s1)" using s0 by (simp add: fs_now_def s1_def)
  have k1: "fs_ok dev_ok view E U N Map.empty s1"
    using s0(2) vol_ok_cong [OF fs_okD(1) [OF s0(2)], of s1] fs_okD(2) [OF s0(2)] by (simp add: fs_ok_def s1_def)
  obtain r2 s2 where w2: "put_inode 0 (root_inode (clock 0)) s1 = (r2, s2)" by fastforce
  have n: "it_inodes (fs_inodes s1) = replicate 4096 inode_default" using s0(6) ic(2) by (simp add: s1_def itable_new_def)
  have k2: "fs_ok dev_ok view E U N Map.empty s2" "r2 = Ok ()" "it_inodes (fs_inodes s2) = (replicate 4096 inode_default)[0 := root_inode (clock 0)]"
      "fs_pool s2 = fs_pool s0" "fs_ub s2 = ?ub" "same_vfs s1 s2"
    using put_empty_vol [OF k1 _ _ _ _ w2] n s0(3) by (simp_all add: s1_def root_inode_def inode_default_def inode_typed_def)
  have cnt: "it_count (fs_inodes s2) = 1"
    using w2 s0(6) by (auto simp: put_inode_def s1_def itable_put_def itable_new_def DEFAULT_INODE_COUNT_def split: if_splits)
  obtain r3 s3 where w3: "fs_commit E s2 = (r3, s3)" by fastforce
  have fit: "snap_len (po_bm (fs_pool s2)) (po_ddt (fs_pool s2)) (fs_inodes s2) \<le> mblocks (fs_ub s2) * SIZE"
  proof -
    note fp = fmt_parts [OF fits room]
    have "length (bm_bits ?bm) = unat (div_ceil tot 64)" using fp(1,5) by (simp add: parts_ok_def bitmap_ok_def)
    also have "\<dots> \<le> unat tot div 64 + 1" by (subst unat_div_ceil) simp_all
    finally have "bitmap_marshal_len ?bm \<le> 16 + unat tot div 8" by (simp add: bitmap_marshal_len_def)
    moreover have "mblocks (fs_ub s2) = unat (fmt_blocks tot ?ic ?dr)" using k2(5) by (simp add: fmt_uber_def)
    moreover have "64 + 8 + unat tot div 8 + unat ?dr + unat ?ic * INODE_SIZE \<le> unat (fmt_blocks tot ?ic ?dr) * SIZE"
      using fmt_blocks_bounds(1) [OF fits refl] unfolding ic(1) .
    ultimately show ?thesis
      using k2(4) s0(4,5) cnt by (simp add: snap_len_def dedup_marshal_len_def itable_marshal_len_def DEFAULT_INODE_COUNT_def INODE_SIZE_def)
  qed
  have c: "vol_ok dev_ok view E U N Map.empty (all_refs Map.empty (it_inodes (fs_inodes s2))) s3" "same_rest s2 s3" "r3 = Ok ()"
    using fs_commit_vol [OF ev fs_okD(1) [OF k2(1)] w3] fit by auto
  have k3: "fs_ok dev_ok view E U N Map.empty s3"
    by (rule fs_ok_kept(1) [OF ev k2(1) c(1) agree_refl]) (use c(2) in \<open>simp add: same_rest_def\<close>)
  have sq: "unat (ub_seq (fs_ub s2)) + 1 < 2 ^ 64" using k2(5) by (simp add: fmt_uber_def)
  note fc = fs_commit_committed [OF ev fs_okD(1) [OF k2(1)] w3 [unfolded c(3)] sq]
  have us: "used_set (po_bm (fs_pool s3)) = {0..<2 + 2 * unat (fmt_blocks tot ?ic ?dr)}"
    using fc(2) k2(4) s0(4) fmt_parts [OF fits room] apply_deferred_spec(2) [of ?bm] by (simp add: parts_ok_def deferred_set_def)
  have ds: "unat (ub_data_start (fs_ub s3)) = 2 + 2 * unat (fmt_blocks tot ?ic ?dr)" using fc(4) k2(5) fmt_data_start [OF fits] by simp
  have "fs_format E clock key d = (Ok s3, po_dev (fs_pool s3))"
    using d1(1) s0(1,3) now w2 k2(2) w3 c(3) e(1)
    by (simp add: fs_format_def Let_def root_inode_def [symmetric] s1_def [symmetric] fmt_uber_def st_bind_def) (simp add: s1_def fmt_uber_def)
  moreover have "unat (blocks dv (po_dev (fs_pool s3))) = unat tot"
    using pool_inv_facts(2) [OF vol_okD(2) [OF c(1)]] fc(2) k2(4) s0(4) e(1) fmt_parts [OF fits room] apply_deferred_spec(4) [of ?bm] by (simp add: parts_ok_def)
  then have "blocks dv (po_dev (fs_pool s3)) = tot" by (simp add: word_unat_eq_iff)
  moreover have "fs_root s3 = 0" using c(2) k2(5) by (simp add: same_rest_def fs_root_def fmt_uber_def)
  moreover have "fs_bs s3 = bs" "fs_cache s3 = Some cache_new" using c(2) k2(6) s0(7,10) by (simp_all add: same_rest_def same_vfs_def s1_def)
  moreover have "fs_inodes s3 = fs_inodes s2" using c(2) by (simp add: same_rest_def)
  moreover have "po_ddt (fs_pool s3) = []" using fc(3) k2(4) s0(5) by simp
  moreover have "ub_seq (fs_ub s3) = 2" using fc(5) k2(5) by (simp add: fmt_uber_def)
  ultimately show ?thesis using k3 k2(3) us ds by (intro exI [of _ s3]) simp
qed

end

end
