(* ===== verification/FileProps.thy ===== *)
theory FileProps
  imports Mounts
begin

text \<open>
  The properties of files on a mounted file image: what a write, a truncation and a read at an offset
  do to the contents, that all other inodes are left alone, that a failed operation changes nothing,
  and that a commit makes the state survive a remount.
\<close>

section \<open>A formatted image\<close>

abbreviation file_fs_ok :: "file_device fs_env \<Rightarrow> bytes set \<Rightarrow> nat \<Rightarrow> (key \<rightharpoonup> bytes) \<Rightarrow> file_device fs \<Rightarrow> bool" where
  "file_fs_ok \<equiv> fs_ok (\<lambda>d. file_healthy (fd_f d) (fd_blocks d)) file_view"

text \<open>The invariant of a file system on a file image, with room for \<open>N\<close> more references.\<close>

definition fs_inv :: "file_device fs_env \<Rightarrow> bytes set \<Rightarrow> nat \<Rightarrow> file_device fs \<Rightarrow> bool" where
  "fs_inv E U N s = (\<exists>ct. file_fs_ok E U N ct s)"

text \<open>A zeroed image of 600 blocks, a formatted file system on it, and a regular file in its table.\<close>

definition sample_env :: "file_device fs_env" where
  "sample_env = \<lparr>fe_crypto = plain_crypto, fe_dev = file_dev,
     fe_dir = \<lparr>xxh128 = \<lambda>b s. 5, xxh64 = \<lambda>b. 3, floats = zero_f64, index_iter = id\<rparr>,
     fe_ddt_iter = id, fe_dirty_iter = id, fe_cache_iter = id\<rparr>"

definition image600 :: file_device where
  "image600 = \<lparr>fd_f = \<lparr>fl_bytes = replicate (600 * SIZE) 0, fl_faults = []\<rparr>, fd_blocks = 600\<rparr>"

definition empty_file :: inode where
  "empty_file = inode_default\<lparr>kind := TYPE_REGULAR, nlink := 1\<rparr>"

lemma sample_env_ok:
  assumes "inj_on (blake3 plain_crypto) U" "\<forall>pt \<in> U. length pt < 2 ^ 32"
  shows "env_ok file_dev U sample_env"
  using assms by (simp add: env_ok_def sample_env_def plain_crypto_ok is_iter_def)

lemma image600_facts:
  "file_healthy (fd_f image600) (fd_blocks image600)" "fmt_fits 600 DEFAULT_INODE_COUNT DEFAULT_DDT_RESERVE"
  "unat (fmt_blocks 600 DEFAULT_INODE_COUNT DEFAULT_DDT_RESERVE) = 193" "parse_uber C (file_view image600 0) = Err BadUber"
proof -
  show "file_healthy (fd_f image600) (fd_blocks image600)" by (simp add: file_healthy_def file_fits_def SIZE_def image600_def)
  show "fmt_fits 600 DEFAULT_INODE_COUNT DEFAULT_DDT_RESERVE"
    by (simp add: fmt_fits_def SIZE_def INODE_SIZE_def DEFAULT_INODE_COUNT_def DEFAULT_DDT_RESERVE_def)
  show "unat (fmt_blocks 600 DEFAULT_INODE_COUNT DEFAULT_DDT_RESERVE) = 193" by code_simp
  have "file_view image600 0 = replicate SIZE 0" by (simp add: block_view_def image600_def)
  then show "parse_uber C (file_view image600 0) = Err BadUber" by (simp add: zero_block_no_uber)
qed

lemma sample_fs:
  assumes "inj_on (blake3 plain_crypto) U" "\<forall>pt \<in> U. length pt < 2 ^ 32"
  obtains s where "fs_format sample_env clock None image600 = (Ok s, po_dev (fs_pool s))" "file_fs_ok sample_env U N Map.empty s" "fs_root s = 0"
    "it_inodes (fs_inodes s) = (replicate 4096 inode_default)[0 := root_inode (clock 0)]" "po_ddt (fs_pool s) = []"
    "used_set (po_bm (fs_pool s)) = {0..<388}" "fs_bs s = \<lparr>bs_cipher = None\<rparr>" "bm_total (po_bm (fs_pool s)) = 600"
    "mblocks (fs_ub s) = 193" "ub_seq (fs_ub s) = 2"
proof -
  note ev = sample_env_ok [OF assms] and f = image600_facts
  have r: "2 + 2 * unat (fmt_blocks 600 DEFAULT_INODE_COUNT DEFAULT_DDT_RESERVE) < unat (600 :: u64)" by (simp add: f(3))
  have b: "600 = blocks file_dev image600" by (simp add: blocks_file_dev image600_def)
  have k: "store_new (fe_crypto sample_env) None = Ok \<lparr>bs_cipher = None\<rparr>" by (simp add: store_new_def)
  have o: "\<forall>u. parse_uber (fe_crypto sample_env) (file_view image600 0) = Ok u \<longrightarrow> ub_seq u < 1" by (simp add: f(4))
  obtain s where s: "fs_format sample_env clock None image600 = (Ok s, po_dev (fs_pool s))" "file_fs_ok sample_env U N Map.empty s" "fs_root s = 0"
      "it_inodes (fs_inodes s) = (replicate 4096 inode_default)[0 := root_inode (clock 0)]" "po_ddt (fs_pool s) = []"
      "used_set (po_bm (fs_pool s)) = {0..<unat (ub_data_start (fs_ub s))}" "fs_bs s = \<lparr>bs_cipher = None\<rparr>"
      "unat (ub_data_start (fs_ub s)) = 2 + 2 * unat (fmt_blocks 600 DEFAULT_INODE_COUNT DEFAULT_DDT_RESERVE)" "blocks file_dev (po_dev (fs_pool s)) = 600"
      "ub_seq (fs_ub s) = 2"
    using fil.format_ok [OF ev f(1) b f(2) r o k, of clock N] by (elim exE conjE)
  have "unat (bm_total (po_bm (fs_pool s))) = unat (600 :: u64)"
    using pool_inv_facts(2) [OF vol_okD(2) [OF fs_okD(1) [OF s(2)]]] s(9) by (simp add: sample_env_def)
  then have "bm_total (po_bm (fs_pool s)) = 600" by (simp only: word_unat_eq_iff)
  moreover have "mblocks (fs_ub s) = 193" using vol_okD(3) [OF fs_okD(1) [OF s(2)]] s(8) f(3) by (simp add: geom_def)
  ultimately show thesis using s f(3) by (intro that) simp_all
qed

lemma sample_file:
  assumes "inj_on (blake3 plain_crypto) U" "\<forall>pt \<in> U. length pt < 2 ^ 32"
  obtains s where "file_fs_ok sample_env U N Map.empty s" "regular s 1 = Ok empty_file" "po_ddt (fs_pool s) = []"
    "used_set (po_bm (fs_pool s)) = {0..<388}" "fs_bs s = \<lparr>bs_cipher = None\<rparr>" "bm_total (po_bm (fs_pool s)) = 600"
proof -
  obtain s where s: "file_fs_ok sample_env U N Map.empty s" "it_inodes (fs_inodes s) = (replicate 4096 inode_default)[0 := root_inode 0]"
      "po_ddt (fs_pool s) = []" "used_set (po_bm (fs_pool s)) = {0..<388}" "fs_bs s = \<lparr>bs_cipher = None\<rparr>" "bm_total (po_bm (fs_pool s)) = 600"
    by (rule sample_fs [OF assms, of "\<lambda>_. 0" N])
  obtain r s' where w: "put_inode 1 empty_file s = (r, s')" by fastforce
  have k: "file_fs_ok sample_env U N Map.empty s'" "it_inodes (fs_inodes s') = (it_inodes (fs_inodes s))[unat (1 :: u64) := empty_file]"
      "fs_pool s' = fs_pool s" "same_vfs s s'"
    using put_empty_vol [OF s(1) _ _ _ _ w] s(2) by (simp_all add: empty_file_def inode_default_def inode_typed_def)
  have "regular s' 1 = Ok empty_file"
    using itable_get_Ok [OF fs_okD(2) [OF k(1)], of 1] k(2) s(2) by (simp add: regular_Ok empty_file_def)
  then show thesis using that [of s'] k s by (simp add: same_vfs_def)
qed

text \<open>There is room for one more block.\<close>

lemma sample_write:
  assumes s: "file_fs_ok sample_env U N Map.empty s" "po_ddt (fs_pool s) = []" "used_set (po_bm (fs_pool s)) = {0..<388}"
      "bm_total (po_bm (fs_pool s)) = 600" and pt: "length pt < 2 ^ 32" "clusters (length pt) = 1"
  shows "\<exists>rf s'. bs_write sample_env pt s = (Ok rf, s') \<and> fs_inodes s' = fs_inodes s"
proof -
  note vd = vol_okD [OF fs_okD(1) [OF s(1)]]
  let ?p = "fs_pool s"
  have e: "fe_dev sample_env = file_dev" "fe_crypto sample_env = plain_crypto" by (simp_all add: sample_env_def)
  note inv = vd(2) [unfolded e blocks_file_dev]
  have ch: "chosen pt pt = (pt, True)" "zstd_encode plain_crypto pt = Some pt" by (simp_all add: chosen_def plain_crypto_def)
  obtain ra bm where al: "bitmap_alloc (clusters (length pt)) (po_bm ?p) = (ra, bm)" by fastforce
  have "free_run (po_bm ?p) 1 400" using s(3,4) by (simp add: free_run_def)
  then obtain st where st: "ra = Ok st"
    using al bitmap_alloc_Err(2) [of 1 "po_bm ?p" _ bm] bitmap_alloc_no_panic [of 1 "po_bm ?p"] by (cases ra) (auto simp: pt(2))
  have "map_of (po_ddt ?p) (blake3 plain_crypto pt) = None" using s(2) by simp
  from fil.store_write_stored [unfolded blocks_file_dev, OF plain_crypto_ok vd(1) inv _ ch(2,1) this al [unfolded st]] pt(1)
  obtain r p' where "store_write plain_crypto file_dev (fs_bs s) pt ?p = (Ok r, p')" by auto
  then show ?thesis by (simp add: bs_write_def e)
qed

text \<open>The sample file, after three bytes were written to it.\<close>

lemma sample_write_file:
  assumes U: "inj_on (blake3 plain_crypto) U" "\<forall>pt \<in> U. length pt < 2 ^ 32" "[1, 2, 3] \<in> U"
  obtains s s' where "file_fs_ok sample_env U N Map.empty s" "regular s 1 = Ok empty_file" "set_in sample_env U [1, 2, 3] s"
    "write_file sample_env 1 [1, 2, 3] s = (Ok (), s')"
proof -
  obtain s where s: "file_fs_ok sample_env U N Map.empty s" "regular s 1 = Ok empty_file" "po_ddt (fs_pool s) = []"
    "used_set (po_bm (fs_pool s)) = {0..<388}" "bm_total (po_bm (fs_pool s)) = 600" by (rule sample_file [OF U(1,2)])
  have rs: "set_recs [1, 2, 3 :: u8] = [[1, 2, 3]]" by code_simp
  have si: "set_in sample_env U [1, 2, 3] s" unfolding set_in_def rs using U(3) by (auto simp: st_bind_def st_return_def split: prod.splits res.splits)
  have c: "clusters (length [1, 2, 3 :: u8]) = 1" by code_simp
  obtain rf s1 where b: "bs_write sample_env [1, 2, 3] s = (Ok rf, s1)" "fs_inodes s1 = fs_inodes s"
    using sample_write [OF s(1,3-5) _ c] by auto
  have sr: "split_records [1, 2, 3 :: u8] 4096 = [[1, 2, 3]]" by code_simp
  have g: "unat (1 :: u64) < length (it_inodes (fs_inodes s))"
    using s(2) itable_get_Ok [OF fs_okD(2) [OF s(1)], of 1 empty_file] by (simp add: regular_Ok)
  obtain r s' where w: "write_file sample_env 1 [1, 2, 3] s = (r, s')" by fastforce
  have "r = Ok ()"
    using w b s(2) sr g itable_put_Ok [OF fs_okD(2) [OF s(1)], of 1]
    by (simp add: write_file_def st_bind_def st_return_def set_data_def record_size_for_def store_refs_def Let_def release_data_def
      empty_file_def inode_default_def touch_mod_def fs_now_def put_inode_def)
  then show thesis using that s(1,2) si w by blast
qed

lemma sample_data:
  obtains s where "fs_inv sample_env {[1, 2, 3]} 5 s" "read_file sample_env s 1 = Ok [1, 2, 3]"
proof -
  have U: "inj_on (blake3 plain_crypto) {[1, 2, 3]}" "\<forall>pt \<in> {[1, 2, 3 :: u8]}. length pt < 2 ^ 32" "[1, 2, 3] \<in> {[1, 2, 3 :: u8]}" by simp_all
  obtain s s' where s: "file_fs_ok sample_env {[1, 2, 3]} 7 Map.empty s" "regular s 1 = Ok empty_file" "set_in sample_env {[1, 2, 3]} [1, 2, 3] s"
    "write_file sample_env 1 [1, 2, 3] s = (Ok (), s')" by (rule sample_write_file [OF U])
  have "set_recs [1, 2, 3 :: u8] = [[1, 2, 3]]" by code_simp
  then have k: "file_fs_ok sample_env {[1, 2, 3]} (Suc (5 + length (set_recs [1, 2, 3 :: u8]))) Map.empty s"
      "Suc (5 + length (set_recs [1, 2, 3 :: u8])) < 2 ^ 32" "length [1, 2, 3 :: u8] < 2 ^ 64" using s(1) by simp_all
  have g: "itable_get (fs_inodes s) 1 = Ok empty_file" using s(2) by (simp add: regular_Ok)
  have w: "set_data sample_env 1 empty_file [1, 2, 3] s = (Ok (), s')" using s(2,4) by (simp add: write_file_def st_bind_def)
  from fil.set_data_ok [OF sample_env_ok [OF U(1,2)] k(1,2) g k(3) s(3) w] read_file_update [OF _ s(2)]
  show thesis using that unfolding fs_inv_def by blast
qed

section \<open>Properties\<close>

text \<open>C6. Writing a whole file and reading it back: on a file image that does not fail, \<open>write_file\<close>
  either makes the new bytes the contents of the file, which \<open>read_file\<close> then returns, with the
  attributes of the file other than its size and its times of modification and change, and every
  other inode and its contents, as they were, or fails (for lack of space) and leaves every inode and
  its contents as they were; records stored before the failure may stay allocated.  This holds through deduplication,
  compression, encryption, block maps with one or many records, and a commit forced half-way by a
  full device.\<close>

theorem write_file_round_trip:
  assumes "env_ok file_dev U E" "fs_inv E U (Suc (N + length (set_recs blob))) s" "Suc (N + length (set_recs blob)) < 2 ^ 32"
    and "regular s ino = Ok i" "length blob < 2 ^ 64" "set_in E U blob s" "write_file E ino blob s = (r, s')"
  shows "fs_inv E U N s' \<and>
    (r = Ok () \<and> file_update E ino blob s s' \<and> read_file E s' ino = Ok blob \<or> (\<exists>e. r = Err e) \<and> (\<forall>m. inode_same E s s' m))"
proof -
  obtain ct where s: "file_fs_ok E U (Suc (N + length (set_recs blob))) ct s" using assms(2) by (auto simp: fs_inv_def)
  have g: "itable_get (fs_inodes s) ino = Ok i" using assms(4) by (simp add: regular_Ok)
  have w: "set_data E ino i blob s = (r, s')" using assms(4,7) by (simp add: write_file_def st_bind_def)
  from fil.set_data_ok [OF assms(1) s assms(3) g assms(5,6) w] read_file_update [OF _ assms(4)]
  show ?thesis unfolding fs_inv_def by blast
qed

theorem write_file_round_trip_witness:
  "\<exists>s s'. regular s 1 = Ok empty_file \<and> write_file sample_env 1 [1, 2, 3] s = (Ok (), s') \<and> read_file sample_env s' 1 = Ok [1, 2, 3] \<and>
     fs_inv sample_env {[1, 2, 3]} 5 s'"
proof -
  let ?U = "{[1, 2, 3 :: u8]}"
  have U: "inj_on (blake3 plain_crypto) ?U" "\<forall>pt \<in> ?U. length pt < 2 ^ 32" "[1, 2, 3] \<in> ?U" by simp_all
  obtain s s' where s: "file_fs_ok sample_env ?U 7 Map.empty s" "regular s 1 = Ok empty_file" "set_in sample_env ?U [1, 2, 3] s"
    "write_file sample_env 1 [1, 2, 3] s = (Ok (), s')" by (rule sample_write_file [OF U])
  have rs: "set_recs [1, 2, 3 :: u8] = [[1, 2, 3]]" by code_simp
  have "fs_inv sample_env ?U (Suc (5 + length (set_recs [1, 2, 3 :: u8]))) s" using s(1) unfolding rs fs_inv_def by auto
  from write_file_round_trip [OF sample_env_ok [OF U(1,2)] this _ s(2) _ s(3,4)] rs s(2,4) show ?thesis by auto
qed

text \<open>C4. Writing at an offset splices the data into the contents: on success the file holds its old
  bytes with the data at the offset, zeros in any gap between its old end and the offset, and nothing
  else, although only the records the write touches are rewritten; the attributes other than the size
  and the times of modification and change, and all other inodes, are as they were.  On failure every
  inode and its contents are as they were; records stored before the failure may stay allocated.\<close>

theorem write_at_splices:
  assumes "env_ok file_dev U E" "fs_inv E U (Suc (N + length (patch_recs i b off data))) s"
    and "Suc (N + length (patch_recs i b off data)) < 2 ^ 32" "regular s ino = Ok i" "get_data E s i = Ok b"
    and "unat off + length data < 2 ^ 63" "patch_in E U i b off data s" "write_at E ino off data s = (r, s')"
  shows "fs_inv E U N s' \<and>
    (r = Ok () \<and> file_update E ino (if data = [] then b else splice b (unat off) data) s s' \<or>
     (\<exists>e. r = Err e) \<and> (\<forall>m. inode_same E s s' m))"
proof -
  obtain ct where s: "file_fs_ok E U (Suc (N + length (patch_recs i b off data))) ct s" using assms(2) by (auto simp: fs_inv_def)
  have g: "itable_get (fs_inodes s) ino = Ok i" using assms(4) by (simp add: regular_Ok)
  obtain r1 where w: "write_at_locked E ino i off data s = (r1, s')" "r = (case r1 of Ok i \<Rightarrow> Ok () | Err e \<Rightarrow> Err e | Panic \<Rightarrow> Panic)"
    using assms(4,8) by (auto simp: write_at_def st_bind_def st_return_def split: prod.splits res.splits)
  from fil.write_at_locked_ok [OF assms(1) s assms(3) g assms(5-7) w(1)] w(2)
  show ?thesis unfolding fs_inv_def by auto
qed

theorem write_at_splices_witness:
  "\<exists>s s'. regular s 1 = Ok empty_file \<and> write_at sample_env 1 1 [7] s = (Ok (), s') \<and> file_update sample_env 1 [0, 7] s s' \<and>
     fs_inv sample_env {[0, 7]} 5 s'"
proof -
  let ?U = "{[0, 7 :: u8]}" and ?w = "write_ctx_of empty_file [] 1 [7]"
  have U: "inj_on (blake3 plain_crypto) ?U" "\<forall>pt \<in> ?U. length pt < 2 ^ 32" by simp_all
  obtain s where s: "file_fs_ok sample_env ?U 7 Map.empty s" "regular s 1 = Ok empty_file" "po_ddt (fs_pool s) = []"
    "used_set (po_bm (fs_pool s)) = {0..<388}" "bm_total (po_bm (fs_pool s)) = 600" by (rule sample_file [OF U])
  have pr: "patch_recs empty_file [] 1 [7] = [[0, 7]]" "splice [] (unat (1 :: u64)) [7 :: u8] = [0, 7]" by code_simp+
  have ev: "fill_record ?w 0 None = [0, 7]" "wc_old_refs ?w = []" "in_size empty_file = 0" "flags empty_file AND FLAG_INLINE_EXTENTS = 0"
    "div_ceil 2 (wc_rs ?w) = 1" "wc_new_size ?w = 2" "clusters (length [0, 7 :: u8]) = 1" by code_simp+
  have ld: "load_refs sample_env s empty_file = Ok []" "get_data sample_env s empty_file = Ok []" by (simp_all add: load_refs_def get_data_def ev(3))
  obtain rf s1 where b: "bs_write sample_env [0, 7] s = (Ok rf, s1)" "fs_inodes s1 = fs_inodes s"
    using sample_write [OF s(1,3-5) _ ev(7)] by auto
  have st: "write_step sample_env ?w 0 s = (Ok (rf, []), s1)" using b(1) by (simp add: write_step_def Let_def ev st_return_def)
  have pi: "patch_in sample_env ?U empty_file [] 1 [7] s" unfolding patch_in_def pr using st by (auto simp: ld st_bind_def st_return_def)
  have g: "unat (1 :: u64) < length (it_inodes (fs_inodes s))"
    using s(2) itable_get_Ok [OF fs_okD(2) [OF s(1)], of 1 empty_file] by (simp add: regular_Ok)
  obtain r s' where w: "write_at sample_env 1 1 [7] s = (r, s')" by fastforce
  have wl: "write_loop sample_env ?w [0] s = (Ok ([rf], []), s1)" using st by (simp add: st_bind_def st_return_def)
  obtain i' where "store_refs sample_env empty_file [rf] 2 (snd (write_rs empty_file 2)) s1 = (Ok i', s1)" by (simp add: store_refs_def Let_def)
  then have "fst (write_at_locked sample_env 1 empty_file 1 [7] s) = Ok (fst (touch_mod i' s1))"
    using b(2) g itable_put_Ok [OF fs_okD(2) [OF s(1)], of 1]
    unfolding write_at_locked_def by (simp add: ld Let_def ev wl st_bind_def touch_mod_def fs_now_def put_inode_def st_return_def del: write_loop.simps)
  then have "r = Ok ()"
    using w s(2) by (auto simp: write_at_def st_bind_def st_return_def split: prod.splits res.splits)
  moreover have "fs_inv sample_env ?U (Suc (5 + length (patch_recs empty_file [] 1 [7]))) s" using s(1) unfolding pr fs_inv_def by auto
  from write_at_splices [OF sample_env_ok [OF U] this _ s(2) ld(2) _ pi w] pr have "fs_inv sample_env ?U 5 s' \<and>
      (r = Ok () \<and> file_update sample_env 1 [0, 7] s s' \<or> (\<exists>e. r = Err e) \<and> (\<forall>m. inode_same sample_env s s' m))" by simp
  ultimately show ?thesis using w s(2) by auto
qed

text \<open>C7. Reading at an offset is a slice of the contents: \<open>read_at\<close>, which reads only the records
  that overlap the range, returns the bytes of \<open>read_file\<close> from the offset on, at most as many as
  asked for.\<close>

theorem read_at_slice:
  assumes "env_ok file_dev U E" "fs_inv E U N s" "read_file E s ino = Ok b" "unat off + len < 2 ^ 64"
  shows "read_at E s ino off len = Ok (take len (drop (unat off) b))"
proof -
  obtain ct where s: "file_fs_ok E U N ct s" using assms(2) by (auto simp: fs_inv_def)
  obtain i where i: "regular s ino = Ok i" "get_data E s i = Ok b" using assms(3) by (auto simp: read_file_def res_bind_eq_Ok)
  show ?thesis by (rule fil.read_at_ok [OF assms(1) s i assms(4)])
qed

theorem read_at_slice_witness:
  "\<exists>s. read_file sample_env s 1 = Ok [1, 2, 3] \<and> read_at sample_env s 1 1 5 = Ok [2, 3]"
proof -
  have U: "inj_on (blake3 plain_crypto) {[1, 2, 3]}" "\<forall>pt \<in> {[1, 2, 3 :: u8]}. length pt < 2 ^ 32" by simp_all
  obtain s where s: "fs_inv sample_env {[1, 2, 3]} 5 s" "read_file sample_env s 1 = Ok [1, 2, 3]" by (rule sample_data)
  from read_at_slice [OF sample_env_ok [OF U] s, of 1 5] s(2) show ?thesis by auto
qed

text \<open>C8. Truncation: \<open>truncate\<close> to any length other than the current one makes the contents the old
  ones cut to that length, or filled up to it with zeros; to the current length it does nothing.  On
  failure every inode and its contents are as they were; records stored before the failure may stay
  allocated.\<close>

theorem truncate_resizes:
  assumes "env_ok file_dev U E" "fs_inv E U (Suc (N + length (set_recs (resize (unat n) b)))) s"
    and "Suc (N + length (set_recs (resize (unat n) b))) < 2 ^ 32" "regular s ino = Ok i" "get_data E s i = Ok b"
    and "set_in E U (resize (unat n) b) s" "fs_truncate E ino n s = (r, s')"
  shows "fs_inv E U N s' \<and>
    (r = Ok () \<and> file_update E ino (resize (unat n) b) s s' \<or> (\<exists>e. r = Err e) \<and> (\<forall>m. inode_same E s s' m))"
proof -
  let ?nb = "resize (unat n) b"
  obtain ct where s: "file_fs_ok E U (Suc (N + length (set_recs ?nb))) ct s" using assms(2) by (auto simp: fs_inv_def)
  have g: "itable_get (fs_inodes s) ino = Ok i" using assms(4) by (simp add: regular_Ok)
  obtain b' where "inode_holds ct i b'" "get_data E s i = Ok b'" by (rule fil.fs_ok_contents [OF assms(1) s g])
  then have h: "inode_holds ct i b" using assms(5) by simp
  have sz: "length b = unat (in_size i)" "length b < 2 ^ 47" using h holds_length [OF h] by (simp_all add: inode_holds_def)
  have un: "unat (of_nat (length b) :: u64) = length b" using sz(1) by simp
  have len: "length ?nb < 2 ^ 64" using unsigned_less [of n, where ?'a = nat] by (simp add: resize_def)
  show ?thesis
  proof (cases "n = in_size i")
    case True
    then have w: "r = Ok ()" "s' = s" using assms(4,7) by (simp_all add: fs_truncate_def st_bind_def)
    have "?nb = b" using True sz(1) by (simp add: resize_def)
    moreover have "file_update E ino b s s" using file_update_refl [OF fs_okD(2) [OF s] g assms(5)] sz(1) by simp
    moreover have "file_fs_ok E U N ct s" using s vol_ok_mono [OF fs_okD(1) [OF s], of _ N] by (auto simp: fs_ok_def)
    ultimately show ?thesis using w by (auto simp: fs_inv_def)
  next
    case False
    have "unat n < 2 ^ 47" using set_recs_bound [of ?nb] assms(3) by (simp add: resize_def)
    moreover have "take (unat n) b = ?nb" if "n \<le> of_nat (length b)"
      using that un by (simp add: resize_def word_le_nat_alt)
    moreover have "copy_at 0 b (replicate (unat n) 0) = ?nb" if "\<not> n \<le> of_nat (length b)"
      using that un by (simp add: resize_def copy_at_prefix word_le_nat_alt)
    ultimately have "set_data E ino i ?nb s = (r, s')" using assms(4,5,7) False by (simp add: fs_truncate_def st_bind_def split: if_splits)
    from fil.set_data_ok [OF assms(1) s assms(3) g len assms(6) this] show ?thesis unfolding fs_inv_def by blast
  qed
qed

theorem truncate_resizes_witness:
  "\<exists>s s' r. regular s 1 = Ok empty_file \<and> fs_truncate sample_env 1 2 s = (r, s') \<and> fs_inv sample_env {[0, 0]} 5 s' \<and>
     (r = Ok () \<and> file_update sample_env 1 [0, 0] s s' \<or> (\<exists>e. r = Err e) \<and> (\<forall>m. inode_same sample_env s s' m))"
proof -
  let ?U = "{[0, 0 :: u8]}"
  have U: "inj_on (blake3 plain_crypto) ?U" "\<forall>pt \<in> ?U. length pt < 2 ^ 32" by simp_all
  obtain s where s: "file_fs_ok sample_env ?U 7 Map.empty s" "regular s 1 = Ok empty_file" by (rule sample_file [OF U])
  have rz: "resize (unat (2 :: u64)) [] = [0, 0]" "set_recs [0, 0 :: u8] = [[0, 0]]" by code_simp+
  have gd: "get_data sample_env s empty_file = Ok []" by (simp add: get_data_def empty_file_def inode_default_def)
  have si: "set_in sample_env ?U (resize (unat (2 :: u64)) []) s"
    unfolding set_in_def rz by (auto simp: st_bind_def st_return_def split: prod.splits res.splits)
  have k: "fs_inv sample_env ?U (Suc (5 + length (set_recs (resize (unat (2 :: u64)) [])))) s"
      "Suc (5 + length (set_recs (resize (unat (2 :: u64)) []))) < 2 ^ 32" using s(1) unfolding rz fs_inv_def by auto
  obtain r s' where w: "fs_truncate sample_env 1 2 s = (r, s')" by fastforce
  note truncate_resizes [OF sample_env_ok [OF U] k s(2) gd si w]
  then show ?thesis using s(2) w unfolding rz by blast
qed

text \<open>C5. What \<open>fsync\<close> committed survives: after a commit that succeeded, mounting the device again with
  the same key gives a file system that satisfies the invariant, with the same root, the same inodes
  and the same contents of every inode.\<close>

theorem fsync_durable:
  assumes "env_ok file_dev U E" "fs_inv E U N s" "fs_fsync E s = (Ok (), s')"
    and "unat (ub_seq (fs_ub s)) + 1 < 2 ^ 64" "store_new (fe_crypto E) key = Ok (fs_bs s)"
  shows "\<exists>s2. fs_mount E clock key (po_dev (fs_pool s')) = Ok s2 \<and> fs_inv E U N s2 \<and>
    (\<forall>m. inode_same E s s2 m) \<and> fs_root s2 = fs_root s"
proof -
  obtain ct where s: "file_fs_ok E U N ct s" using assms(2) by (auto simp: fs_inv_def)
  have "fs_commit E s = (Ok (), s')" using assms(3) by (simp add: fs_fsync_def)
  from fil.remount_ok [OF assms(1) s this assms(4,5)] show ?thesis unfolding fs_inv_def by blast
qed

theorem fsync_durable_witness:
  "\<exists>s s' s2. fs_fsync sample_env s = (Ok (), s') \<and> fs_mount sample_env (\<lambda>_. 0) None (po_dev (fs_pool s')) = Ok s2 \<and>
     itable_get (fs_inodes s2) 0 = Ok (root_inode 0) \<and> fs_root s2 = 0"
proof -
  have U: "inj_on (blake3 plain_crypto) {}" "\<forall>pt \<in> {}. length pt < 2 ^ 32" by simp_all
  obtain s where s: "file_fs_ok sample_env {} 5 Map.empty s" "fs_root s = 0" "it_inodes (fs_inodes s) = (replicate 4096 inode_default)[0 := root_inode 0]"
      "po_ddt (fs_pool s) = []" "fs_bs s = \<lparr>bs_cipher = None\<rparr>" "bm_total (po_bm (fs_pool s)) = 600" "mblocks (fs_ub s) = 193" "ub_seq (fs_ub s) = 2"
    by (rule sample_fs [OF U, of "\<lambda>_. 0" 5])
  note vd = vol_okD [OF fs_okD(1) [OF s(1)]]
  have "length (bm_bits (po_bm (fs_pool s))) = unat (div_ceil (600 :: u64) 64)"
    using pool_inv_facts(1) [OF vd(2)] s(6) by (simp add: bitmap_ok_def)
  moreover have "unat (div_ceil (600 :: u64) 64) = 10" by code_simp
  moreover have "unat (it_count (fs_inodes s)) \<le> 4096" using vd(7) s(3) by (simp add: itable_ok_def)
  ultimately have fit: "snap_len (po_bm (fs_pool s)) (po_ddt (fs_pool s)) (fs_inodes s) \<le> mblocks (fs_ub s) * SIZE"
    using s(4,7) by (simp add: snap_len_def bitmap_marshal_len_def dedup_marshal_len_def itable_marshal_len_def INODE_SIZE_def SIZE_def)
  obtain r s' where w: "fs_commit sample_env s = (r, s')" by fastforce
  then have "fs_fsync sample_env s = (Ok (), s')"
    using fil.fs_commit_vol [OF sample_env_ok [OF U] fs_okD(1) [OF s(1)] w] fit by (simp add: fs_fsync_def)
  moreover have "fs_inv sample_env {} 5 s" using s(1) by (auto simp: fs_inv_def)
  moreover have "store_new (fe_crypto sample_env) None = Ok (fs_bs s)" using s(5) by (simp add: store_new_def)
  moreover have "unat (ub_seq (fs_ub s)) + 1 < 2 ^ 64" using s(8) by simp
  ultimately obtain s2 where "fs_mount sample_env (\<lambda>_. 0) None (po_dev (fs_pool s')) = Ok s2" "inode_same sample_env s s2 0" "fs_root s2 = 0"
      "fs_fsync sample_env s = (Ok (), s')"
    using fsync_durable [OF sample_env_ok [OF U], of 5 s s' None "\<lambda>_. 0"] s(2) by auto
  moreover have "itable_get (fs_inodes s) 0 = Ok (root_inode 0)" using itable_get_Ok [OF fs_okD(2) [OF s(1)], of 0] s(3) by simp
  ultimately show ?thesis unfolding inode_same_def by (intro exI [of _ s] exI [of _ s'] exI [of _ s2]) simp
qed

lemma readdir_empty:
  assumes "itable_get (fs_inodes s) ino = Ok i" "kind i = TYPE_DIR" "in_size i = 0" "fs_cache s = Some cache_new"
  shows "fst (fs_readdir E ino s) = Ok []"
proof -
  have "load_dir E s ino = load_pages (fe_dir E) [] \<lparr>cd_dir = dir_new (fe_dir E), cd_inode = i, cd_pages = [], cd_used = [],
      cd_page_of = [], cd_dirty = [], cd_tick = 0\<rparr>"
    using assms(1-3) by (simp add: load_dir_def get_data_def)
  then show ?thesis
    using assms(4) by (simp add: fs_readdir_def cache_peek_def cache_new_def load_pages.simps cache_insert_def Let_def page_names_def st_bind_def DIR_CACHE_CAP_def)
qed

text \<open>C9. Formatting a large enough image whose slot 0 holds no valid uberblock gives a mounted file
  system that satisfies the invariant, whose root is an empty directory of mode 0755 with two links,
  whose inode table is otherwise empty, and in which only the uberblocks and the metadata slots are
  in use.\<close>

theorem format_fresh:
  assumes "env_ok file_dev U E" "file_healthy (fd_f d) (fd_blocks d)" "fmt_fits (fd_blocks d) DEFAULT_INODE_COUNT DEFAULT_DDT_RESERVE"
    and "2 + 2 * unat (fmt_blocks (fd_blocks d) DEFAULT_INODE_COUNT DEFAULT_DDT_RESERVE) < unat (fd_blocks d)"
    and "\<forall>u. parse_uber (fe_crypto E) (file_view d 0) = Ok u \<longrightarrow> ub_seq u < 1" "store_new (fe_crypto E) key = Ok bs"
  shows "\<exists>s. fs_format E clock key d = (Ok s, po_dev (fs_pool s)) \<and> fs_inv E U N s \<and> fs_root s = 0 \<and>
    itable_get (fs_inodes s) 0 = Ok (root_inode (clock 0)) \<and> fst (fs_readdir E 0 s) = Ok [] \<and>
    (\<forall>m. 0 < unat m \<and> unat m < 4096 \<longrightarrow> itable_get (fs_inodes s) m = Ok inode_default) \<and>
    used_set (po_bm (fs_pool s)) = {0..<unat (ub_data_start (fs_ub s))}"
proof -
  have b: "fd_blocks d = blocks file_dev d" by (simp add: blocks_file_dev)
  obtain s where s: "fs_format E clock key d = (Ok s, po_dev (fs_pool s))" "file_fs_ok E U N Map.empty s" "fs_root s = 0"
      "it_inodes (fs_inodes s) = (replicate 4096 inode_default)[0 := root_inode (clock 0)]"
      "used_set (po_bm (fs_pool s)) = {0..<unat (ub_data_start (fs_ub s))}" "fs_cache s = Some cache_new"
    using fil.format_ok [OF assms(1,2) b assms(3-6), of clock N] by (elim exE conjE)
  have g: "itable_get (fs_inodes s) m = Ok (it_inodes (fs_inodes s) ! unat m)" if "unat m < 4096" for m
    using that itable_get_Ok [OF fs_okD(2) [OF s(2)]] s(4) by simp
  have r: "itable_get (fs_inodes s) 0 = Ok (root_inode (clock 0))" using g [of 0] s(4) by simp
  have "fst (fs_readdir E 0 s) = Ok []" by (rule readdir_empty [OF r _ _ s(6)]) (simp_all add: root_inode_def inode_default_def)
  then show ?thesis using s r g by (intro exI [of _ s]) (auto simp: fs_inv_def)
qed

theorem format_fresh_witness:
  "\<exists>s. fs_format sample_env (\<lambda>_. 9) None image600 = (Ok s, po_dev (fs_pool s)) \<and> fst (fs_readdir sample_env 0 s) = Ok [] \<and>
     fs_inv sample_env {} 5 s"
proof -
  have U: "inj_on (blake3 plain_crypto) {}" "\<forall>pt \<in> {}. length pt < 2 ^ 32" by simp_all
  note f = image600_facts
  have fb: "fd_blocks image600 = 600" by (simp add: image600_def)
  have k: "fmt_fits (fd_blocks image600) DEFAULT_INODE_COUNT DEFAULT_DDT_RESERVE"
    "2 + 2 * unat (fmt_blocks (fd_blocks image600) DEFAULT_INODE_COUNT DEFAULT_DDT_RESERVE) < unat (fd_blocks image600)"
    "\<forall>u. parse_uber (fe_crypto sample_env) (file_view image600 0) = Ok u \<longrightarrow> ub_seq u < 1"
    "store_new (fe_crypto sample_env) None = Ok \<lparr>bs_cipher = None\<rparr>"
    using f by (simp_all add: fb store_new_def)
  from format_fresh [OF sample_env_ok [OF U] f(1) k, of "\<lambda>_. 9" 5] show ?thesis by auto
qed

end
