(* ===== verification/Fuse.thy ===== *)
theory Fuse
  imports Vfs
begin

text \<open>
  The FUSE binding of \<^verbatim>\<open>rust/bloomfs-fuse\<close>: the struct \<open>BloomFuse\<close> as the record \<open>bfuse\<close>, and one
  definition per method of its \<open>Filesystem\<close> implementation.  A handler takes the arguments it reads
  and returns the reply it sends, \<open>Err\<close> of an errno for \<open>reply.error\<close>, with the state it leaves.  The
  names of the arguments that the code ignores (the underscored ones) are left out.

  Outside the code: the \<open>fuser\<close> session, which calls the handlers one at a time, its directory reply
  buffer, which says when it is full, and the readings of \<open>SystemTime::now\<close> are arguments.  A
  \<open>SystemTime\<close> is its distance to the epoch in nanoseconds.
\<close>

section \<open>Translation of ids, types, times and errors\<close>

datatype errno = ENOENT | EEXIST | ENOTDIR | EISDIR | ENOTEMPTY | ENOSPC | EINVAL | EACCES | EIO | EOPNOTSUPP

datatype file_type = Directory | Symlink | RegularFile

text \<open>In seconds.\<close>

definition TTL :: nat where
  "TTL = 1"

text \<open>The flag of Linux.\<close>

definition O_TRUNC :: "32 word" where
  "O_TRUNC = 512"

definition ino_of :: "u64 \<Rightarrow> u64" where
  "ino_of ino = ino + 1"

definition id_of :: "u64 \<Rightarrow> u64" where
  "id_of ino = ino - 1"

definition file_type_of :: "u8 \<Rightarrow> file_type" where
  "file_type_of k = (if k = TYPE_DIR then Directory else if k = TYPE_LINK then Symlink else RegularFile)"

definition to_systime :: "u64 \<Rightarrow> int" where
  "to_systime ns = uint ns"

definition from_systime :: "int \<Rightarrow> u64" where
  "from_systime t = (if t < 0 then 0 else word_of_int t)"

fun errno_of :: "fs_error \<Rightarrow> errno" where
  "errno_of NotFound = ENOENT"
| "errno_of FsExists = EEXIST"
| "errno_of NotDir = ENOTDIR"
| "errno_of IsDir = EISDIR"
| "errno_of NotEmpty = ENOTEMPTY"
| "errno_of NoInodes = ENOSPC"
| "errno_of FsNoSpace = ENOSPC"
| "errno_of Invalid = EINVAL"
| "errno_of NotFile = EINVAL"
| "errno_of Permission = EACCES"
| "errno_of _ = EIO"

record file_attr =
  fa_ino :: u64
  fa_size :: u64
  fa_blocks :: u64
  fa_atime :: int
  fa_mtime :: int
  fa_ctime :: int
  fa_crtime :: int
  fa_kind :: file_type
  fa_perm :: u16
  fa_nlink :: u32
  fa_uid :: u32
  fa_gid :: u32
  fa_rdev :: u32
  fa_blksize :: u32
  fa_flags :: u32

definition fill_attr :: "fs_stat \<Rightarrow> file_attr" where
  "fill_attr st =
     \<lparr>fa_ino = ino_of (st_ino st), fa_size = st_size st, fa_blocks = div_ceil (st_size st) 512,
      fa_atime = to_systime (st_atime st), fa_mtime = to_systime (st_mtime st),
      fa_ctime = to_systime (st_ctime st), fa_crtime = to_systime (st_ctime st),
      fa_kind = file_type_of (st_kind st), fa_perm = st_mode st AND 4095, fa_nlink = st_nlink st,
      fa_uid = st_uid st, fa_gid = st_gid st, fa_rdev = 0, fa_blksize = of_nat SIZE, fa_flags = 0\<rparr>"

section \<open>State and replies\<close>

record snap_entry =
  sn_ino :: u64
  sn_kind :: file_type
  sn_name :: name

record 'd bfuse =
  bf_fs :: "'d fs"
  bf_handles :: "(u64 \<times> handle) list"
  bf_dir_handles :: "(u64 \<times> snap_entry list) list"
  bf_next_fh :: u64

text \<open>A row of a directory reply is the entry with the cookie that resumes after it.\<close>

type_synonym dir_row = "u64 \<times> snap_entry"

datatype (plugins only: code) reply =
    REntry nat file_attr u64
  | RAttr nat file_attr
  | RData bytes
  | REmpty
  | ROpened u64
  | RWritten u32
  | RCreated nat file_attr u64 u64
  | RRows "dir_row list"
  | RStatfs u64 u64 u64 u64 u64 u32 u32 u32

record request_ids =
  rq_uid :: u32
  rq_gid :: u32

datatype time_or_now = SpecificTime int | Now

definition snapshot_dir :: "'d fs_env \<Rightarrow> u64 \<Rightarrow> 'd fs \<Rightarrow> (fs_error, snap_entry list) res \<times> 'd fs" where
  "snapshot_dir E ino s =
     st_bind (fs_readdirents E (id_of ino)) (\<lambda>ents.
       st_return (\<lparr>sn_ino = ino, sn_kind = Directory, sn_name = [46]\<rparr>
                  # \<lparr>sn_ino = ino, sn_kind = Directory, sn_name = [46, 46]\<rparr>
                  # map (\<lambda>e. \<lparr>sn_ino = ino_of (dt_ino e), sn_kind = file_type_of (dt_kind e), sn_name = dt_name e\<rparr>)
                      ents)) s"

definition bfuse_new :: "'d fs \<Rightarrow> 'd bfuse" where
  "bfuse_new s = \<lparr>bf_fs = s, bf_handles = [], bf_dir_handles = [], bf_next_fh = 1\<rparr>"

definition insert_handle :: "handle \<Rightarrow> 'd bfuse \<Rightarrow> u64 \<times> 'd bfuse" where
  "insert_handle h b =
     (bf_next_fh b, b\<lparr>bf_next_fh := bf_next_fh b + 1,
                      bf_handles := AList.update (bf_next_fh b) h (bf_handles b)\<rparr>)"

text \<open>The result of the final commit is dropped; a panic in it is not caught.\<close>

definition bfuse_drop :: "'d fs_env \<Rightarrow> 'd bfuse \<Rightarrow> (errno, unit) res \<times> 'd bfuse" where
  "bfuse_drop E b =
     (case fs_fsync E (bf_fs b) of
        (Panic, s) \<Rightarrow> (Panic, b\<lparr>bf_fs := s\<rparr>)
      | (_, s) \<Rightarrow> (Ok (), b\<lparr>bf_fs := s\<rparr>))"

text \<open>The forwarding every handler does: an operation of the file system, its error answered with
  the errno.\<close>

definition on_fs :: "('d fs \<Rightarrow> (fs_error, 'a) res \<times> 'd fs) \<Rightarrow> 'd bfuse \<Rightarrow> (errno, 'a) res \<times> 'd bfuse" where
  "on_fs m b = (case m (bf_fs b) of (r, s) \<Rightarrow> (map_err errno_of r, b\<lparr>bf_fs := s\<rparr>))"

text \<open>\<open>OsStr::to_str\<close> and the early return of the handlers.\<close>

definition with_str :: "bytes \<Rightarrow> (name \<Rightarrow> 'd bfuse \<Rightarrow> (errno, 'a) res \<times> 'd bfuse) \<Rightarrow> 'd bfuse \<Rightarrow> (errno, 'a) res \<times> 'd bfuse" where
  "with_str n k b = (if is_utf8 n then k n b else (Err EINVAL, b))"

definition fuse_stat :: "u64 \<Rightarrow> 'd bfuse \<Rightarrow> (errno, fs_stat) res \<times> 'd bfuse" where
  "fuse_stat ino b = on_fs (\<lambda>s. (fs_stat_of s ino, s)) b"

definition reply_entry :: "u64 \<Rightarrow> 'd bfuse \<Rightarrow> (errno, reply) res \<times> 'd bfuse" where
  "reply_entry ino b =
     st_bind (fuse_stat ino) (\<lambda>st. st_return (REntry TTL (fill_attr st) (ucast (st_generation st)))) b"

section \<open>Handlers of the name space\<close>

definition fuse_lookup :: "'d fs_env \<Rightarrow> u64 \<Rightarrow> bytes \<Rightarrow> 'd bfuse \<Rightarrow> (errno, reply) res \<times> 'd bfuse" where
  "fuse_lookup E parent name b =
     with_str name (\<lambda>name.
       st_bind (on_fs (fs_lookup E (id_of parent) name)) (\<lambda>found b.
         case found of
           Some ino \<Rightarrow> reply_entry ino b
         | None \<Rightarrow> (Err ENOENT, b))) b"

definition fuse_getattr :: "u64 \<Rightarrow> 'd bfuse \<Rightarrow> (errno, reply) res \<times> 'd bfuse" where
  "fuse_getattr ino b = st_bind (fuse_stat (id_of ino)) (\<lambda>st. st_return (RAttr TTL (fill_attr st))) b"

fun resolve_time :: "time_or_now option \<Rightarrow> int \<Rightarrow> u64 \<Rightarrow> u64" where
  "resolve_time (Some (SpecificTime v)) now cur = from_systime v"
| "resolve_time (Some Now) now cur = from_systime now"
| "resolve_time None now cur = cur"

text \<open>\<open>now_a\<close> and \<open>now_m\<close> are the readings of the clock for the two times.\<close>

definition fuse_setattr ::
  "'d fs_env \<Rightarrow> u64 \<Rightarrow> u32 option \<Rightarrow> u32 option \<Rightarrow> u32 option \<Rightarrow> u64 option \<Rightarrow> time_or_now option \<Rightarrow> time_or_now option \<Rightarrow>
     int \<Rightarrow> int \<Rightarrow> 'd bfuse \<Rightarrow> (errno, reply) res \<times> 'd bfuse" where
  "fuse_setattr E ino md u g sz ta tm now_a now_m b =
     (let ino = id_of ino in
      st_bind (case sz of Some n \<Rightarrow> on_fs (fs_truncate E ino n) | None \<Rightarrow> st_return ()) (\<lambda>_.
      st_bind (case md of Some m \<Rightarrow> on_fs (fs_chmod ino (ucast (m AND 4095))) | None \<Rightarrow> st_return ()) (\<lambda>_.
      st_bind (if u \<noteq> None \<or> g \<noteq> None then
                 st_bind (fuse_stat ino) (\<lambda>st.
                   on_fs (fs_chown ino (case u of Some v \<Rightarrow> v | None \<Rightarrow> st_uid st)
                                       (case g of Some v \<Rightarrow> v | None \<Rightarrow> st_gid st)))
               else st_return ()) (\<lambda>_.
      st_bind (if ta \<noteq> None \<or> tm \<noteq> None then
                 st_bind (fuse_stat ino) (\<lambda>st.
                   on_fs (fs_utimes ino (resolve_time ta now_a (st_atime st)) (resolve_time tm now_m (st_mtime st))))
               else st_return ()) (\<lambda>_.
      st_bind (fuse_stat ino) (\<lambda>st. st_return (RAttr TTL (fill_attr st))))))) b)"

definition fuse_readlink :: "'d fs_env \<Rightarrow> u64 \<Rightarrow> 'd bfuse \<Rightarrow> (errno, reply) res \<times> 'd bfuse" where
  "fuse_readlink E ino b =
     st_bind (on_fs (\<lambda>s. (fs_readlink E s (id_of ino), s))) (\<lambda>target. st_return (RData target)) b"

definition fuse_mkdir :: "'d fs_env \<Rightarrow> request_ids \<Rightarrow> u64 \<Rightarrow> bytes \<Rightarrow> u32 \<Rightarrow> 'd bfuse \<Rightarrow> (errno, reply) res \<times> 'd bfuse" where
  "fuse_mkdir E rq parent name md b =
     with_str name (\<lambda>name.
       st_bind (on_fs (fs_mkdir E (id_of parent) name)) (\<lambda>ino.
         st_bind (on_fs (fs_chmod ino (ucast (md AND 4095)))) (\<lambda>_.
           st_bind (on_fs (fs_chown ino (rq_uid rq) (rq_gid rq))) (\<lambda>_. reply_entry ino)))) b"

definition fuse_unlink :: "'d fs_env \<Rightarrow> u64 \<Rightarrow> bytes \<Rightarrow> 'd bfuse \<Rightarrow> (errno, reply) res \<times> 'd bfuse" where
  "fuse_unlink E parent name b =
     with_str name (\<lambda>name. st_bind (on_fs (fs_unlink E (id_of parent) name)) (\<lambda>_. st_return REmpty)) b"

definition fuse_rmdir :: "'d fs_env \<Rightarrow> u64 \<Rightarrow> bytes \<Rightarrow> 'd bfuse \<Rightarrow> (errno, reply) res \<times> 'd bfuse" where
  "fuse_rmdir E parent name b =
     with_str name (\<lambda>name. st_bind (on_fs (fs_rmdir E (id_of parent) name)) (\<lambda>_. st_return REmpty)) b"

definition fuse_symlink :: "'d fs_env \<Rightarrow> request_ids \<Rightarrow> u64 \<Rightarrow> bytes \<Rightarrow> bytes \<Rightarrow> 'd bfuse \<Rightarrow> (errno, reply) res \<times> 'd bfuse" where
  "fuse_symlink E rq parent link_name target b =
     with_str link_name (\<lambda>name. with_str target (\<lambda>target.
       st_bind (on_fs (fs_symlink E (id_of parent) name target)) (\<lambda>ino.
         st_bind (on_fs (fs_chown ino (rq_uid rq) (rq_gid rq))) (\<lambda>_. reply_entry ino)))) b"

text \<open>\<open>None\<close> when the subtree walk of \<open>FS::rename\<close> does not end.\<close>

definition fuse_rename :: "'d fs_env \<Rightarrow> u64 \<Rightarrow> bytes \<Rightarrow> u64 \<Rightarrow> bytes \<Rightarrow> 'd bfuse \<Rightarrow> ((errno, reply) res \<times> 'd bfuse) option" where
  "fuse_rename E parent name newparent newname b =
     (if \<not> is_utf8 name \<or> \<not> is_utf8 newname then Some (Err EINVAL, b)
      else case fs_rename E (id_of parent) name (id_of newparent) newname (bf_fs b) of
        None \<Rightarrow> None
      | Some (r, s) \<Rightarrow> Some (res_bind (map_err errno_of r) (\<lambda>_. Ok REmpty), b\<lparr>bf_fs := s\<rparr>))"

definition fuse_link :: "'d fs_env \<Rightarrow> u64 \<Rightarrow> u64 \<Rightarrow> bytes \<Rightarrow> 'd bfuse \<Rightarrow> (errno, reply) res \<times> 'd bfuse" where
  "fuse_link E ino newparent newname b =
     with_str newname (\<lambda>newname.
       st_bind (on_fs (fs_link E (id_of newparent) newname (id_of ino))) (\<lambda>_. reply_entry (id_of ino))) b"

section \<open>Handlers of files\<close>

definition fuse_create :: "'d fs_env \<Rightarrow> request_ids \<Rightarrow> u64 \<Rightarrow> bytes \<Rightarrow> u32 \<Rightarrow> 'd bfuse \<Rightarrow> (errno, reply) res \<times> 'd bfuse" where
  "fuse_create E rq parent name md b =
     with_str name (\<lambda>name.
       st_bind (on_fs (fs_create E (id_of parent) name)) (\<lambda>ino.
         st_bind (on_fs (fs_chmod ino (ucast (md AND 4095)))) (\<lambda>_.
           st_bind (on_fs (fs_chown ino (rq_uid rq) (rq_gid rq))) (\<lambda>_.
             st_bind (fuse_stat ino) (\<lambda>st.
               st_bind (on_fs (fs_open_file ino)) (\<lambda>h b.
                 case insert_handle h b of (fh, b) \<Rightarrow>
                   (Ok (RCreated TTL (fill_attr st) (ucast (st_generation st)) fh), b))))))) b"

text \<open>The handle is closed again when the truncation fails; the result of that is dropped.\<close>

definition fuse_open :: "'d fs_env \<Rightarrow> u64 \<Rightarrow> 32 word \<Rightarrow> 'd bfuse \<Rightarrow> (errno, reply) res \<times> 'd bfuse" where
  "fuse_open E ino fl b =
     (let ino = id_of ino in
      st_bind (on_fs (fs_open_file ino)) (\<lambda>h b.
        case (if fl AND O_TRUNC \<noteq> 0 then on_fs (fs_truncate E ino 0) b else (Ok (), b)) of
          (Ok _, b) \<Rightarrow> (case insert_handle h b of (fh, b) \<Rightarrow> (Ok (ROpened fh), b))
        | (Panic, b) \<Rightarrow> (Panic, b)
        | (Err e, b) \<Rightarrow>
          (case fs_close E h (bf_fs b) of
             (Panic, _, s) \<Rightarrow> (Panic, b\<lparr>bf_fs := s\<rparr>)
           | (_, _, s) \<Rightarrow> (Err e, b\<lparr>bf_fs := s\<rparr>))) b)"

text \<open>The offsets are \<open>i64\<close> and cast to \<open>u64\<close>, which keeps the bits.\<close>

definition fuse_read :: "'d fs_env \<Rightarrow> u64 \<Rightarrow> 64 word \<Rightarrow> u32 \<Rightarrow> 'd bfuse \<Rightarrow> (errno, reply) res \<times> 'd bfuse" where
  "fuse_read E ino offset sz b =
     st_bind (on_fs (\<lambda>s. (read_at E s (id_of ino) offset (unat sz), s))) (\<lambda>data. st_return (RData data)) b"

definition fuse_write :: "'d fs_env \<Rightarrow> u64 \<Rightarrow> 64 word \<Rightarrow> bytes \<Rightarrow> 'd bfuse \<Rightarrow> (errno, reply) res \<times> 'd bfuse" where
  "fuse_write E ino offset data b =
     st_bind (on_fs (write_at E (id_of ino) offset data)) (\<lambda>_. st_return (RWritten (of_nat (length data)))) b"

definition fuse_flush :: "'d bfuse \<Rightarrow> (errno, reply) res \<times> 'd bfuse" where
  "fuse_flush b = (Ok REmpty, b)"

definition fuse_fsync :: "'d fs_env \<Rightarrow> 'd bfuse \<Rightarrow> (errno, reply) res \<times> 'd bfuse" where
  "fuse_fsync E b = st_bind (on_fs (fs_fsync E)) (\<lambda>_. st_return REmpty) b"

definition fuse_fallocate :: "u64 \<Rightarrow> 64 word \<Rightarrow> 32 word \<Rightarrow> 'd bfuse \<Rightarrow> (errno, reply) res \<times> 'd bfuse" where
  "fuse_fallocate ino len md b =
     (if md \<noteq> 0 then (Err EOPNOTSUPP, b)
      else if sint len \<le> 0 then (Ok REmpty, b)
      else st_bind (on_fs (\<lambda>s. (fallocate s (id_of ino) len, s))) (\<lambda>_. st_return REmpty) b)"

definition fuse_release :: "'d fs_env \<Rightarrow> u64 \<Rightarrow> 'd bfuse \<Rightarrow> (errno, reply) res \<times> 'd bfuse" where
  "fuse_release E fh b =
     (case map_of (bf_handles b) fh of
        None \<Rightarrow> (Ok REmpty, b)
      | Some h \<Rightarrow>
        (case fs_close E h (bf_fs b) of
           (r, _, s) \<Rightarrow> (res_bind (map_err errno_of r) (\<lambda>_. Ok REmpty),
                        b\<lparr>bf_handles := AList.delete fh (bf_handles b), bf_fs := s\<rparr>)))"

section \<open>Handlers of directory streams\<close>

definition fuse_opendir :: "'d fs_env \<Rightarrow> u64 \<Rightarrow> 'd bfuse \<Rightarrow> (errno, reply) res \<times> 'd bfuse" where
  "fuse_opendir E ino b =
     st_bind (on_fs (snapshot_dir E ino)) (\<lambda>snap b.
       (Ok (ROpened (bf_next_fh b)),
        b\<lparr>bf_next_fh := bf_next_fh b + 1,
          bf_dir_handles := AList.update (bf_next_fh b) snap (bf_dir_handles b)\<rparr>)) b"

text \<open>The loop over the snapshot: \<open>full rows row\<close> is \<open>reply.add\<close>, true when the buffer that holds \<open>rows\<close>
  has no room for \<open>row\<close>.\<close>

fun add_rows :: "(dir_row list \<Rightarrow> dir_row \<Rightarrow> bool) \<Rightarrow> (nat \<times> snap_entry) list \<Rightarrow> dir_row list \<Rightarrow> dir_row list" where
  "add_rows full [] rows = rows"
| "add_rows full ((i, e) # es) rows =
     (if full rows (of_nat (i + 1), e) then rows else add_rows full es (rows @ [(of_nat (i + 1), e)]))"

definition fuse_readdir ::
  "'d fs_env \<Rightarrow> (dir_row list \<Rightarrow> dir_row \<Rightarrow> bool) \<Rightarrow> u64 \<Rightarrow> u64 \<Rightarrow> 64 word \<Rightarrow> 'd bfuse \<Rightarrow> (errno, reply) res \<times> 'd bfuse" where
  "fuse_readdir E full ino fh offset b =
     st_bind (case map_of (bf_dir_handles b) fh of
                Some snap \<Rightarrow> st_return snap
              | None \<Rightarrow> on_fs (snapshot_dir E ino)) (\<lambda>entries.
       st_return (RRows (add_rows full (drop (unat offset) (List.enumerate 0 entries)) []))) b"

definition fuse_releasedir :: "u64 \<Rightarrow> 'd bfuse \<Rightarrow> (errno, reply) res \<times> 'd bfuse" where
  "fuse_releasedir fh b = (Ok REmpty, b\<lparr>bf_dir_handles := AList.delete fh (bf_dir_handles b)\<rparr>)"

definition fuse_access :: "request_ids \<Rightarrow> u64 \<Rightarrow> 32 word \<Rightarrow> 'd bfuse \<Rightarrow> (errno, reply) res \<times> 'd bfuse" where
  "fuse_access rq ino msk b =
     st_bind (on_fs (\<lambda>s. (fs_access s (id_of ino) msk (rq_uid rq) (rq_gid rq) [], s))) (\<lambda>_. st_return REmpty) b"

definition fuse_statfs :: "'d bfuse \<Rightarrow> (errno, reply) res \<times> 'd bfuse" where
  "fuse_statfs b =
     (let s = statfs (bf_fs b)
      in (Ok (RStatfs (sf_blocks s) (sf_blocks_free s) (sf_blocks_free s) (sf_files s) (sf_files_free s)
                      (ucast (sf_block_size s)) 255 (ucast (sf_block_size s))), b))"

section \<open>Sessions\<close>

text \<open>The requests of the kernel, one constructor per handler, and a session: the handlers run one
  after another.  A panic, or a rename that does not end, ends the session (\<open>None\<close>).\<close>

datatype (plugins only: code) fuse_request =
    Lookup u64 bytes
  | Getattr u64
  | Setattr u64 "u32 option" "u32 option" "u32 option" "u64 option" "time_or_now option" "time_or_now option" int int
  | Readlink u64
  | Mkdir request_ids u64 bytes u32
  | Unlink u64 bytes
  | Rmdir u64 bytes
  | MkSymlink request_ids u64 bytes bytes
  | Rename u64 bytes u64 bytes
  | Link u64 u64 bytes
  | Create request_ids u64 bytes u32
  | Open u64 "32 word"
  | Read u64 "64 word" u32
  | Write u64 "64 word" bytes
  | Flush
  | Fsync
  | Fallocate u64 "64 word" "32 word"
  | Release u64
  | Opendir u64
  | Readdir "dir_row list \<Rightarrow> dir_row \<Rightarrow> bool" u64 u64 "64 word"
  | Releasedir u64
  | Access request_ids u64 "32 word"
  | Statfs

primrec fuse_handle :: "'d fs_env \<Rightarrow> fuse_request \<Rightarrow> 'd bfuse \<Rightarrow> ((errno, reply) res \<times> 'd bfuse) option" where
  "fuse_handle E (Lookup p n) b = Some (fuse_lookup E p n b)"
| "fuse_handle E (Getattr i) b = Some (fuse_getattr i b)"
| "fuse_handle E (Setattr i md u g sz ta tm na nm) b = Some (fuse_setattr E i md u g sz ta tm na nm b)"
| "fuse_handle E (Readlink i) b = Some (fuse_readlink E i b)"
| "fuse_handle E (Mkdir rq p n md) b = Some (fuse_mkdir E rq p n md b)"
| "fuse_handle E (Unlink p n) b = Some (fuse_unlink E p n b)"
| "fuse_handle E (Rmdir p n) b = Some (fuse_rmdir E p n b)"
| "fuse_handle E (MkSymlink rq p n t) b = Some (fuse_symlink E rq p n t b)"
| "fuse_handle E (Rename p n q m) b = fuse_rename E p n q m b"
| "fuse_handle E (Link i p n) b = Some (fuse_link E i p n b)"
| "fuse_handle E (Create rq p n md) b = Some (fuse_create E rq p n md b)"
| "fuse_handle E (Open i fl) b = Some (fuse_open E i fl b)"
| "fuse_handle E (Read i off sz) b = Some (fuse_read E i off sz b)"
| "fuse_handle E (Write i off data) b = Some (fuse_write E i off data b)"
| "fuse_handle E Flush b = Some (fuse_flush b)"
| "fuse_handle E Fsync b = Some (fuse_fsync E b)"
| "fuse_handle E (Fallocate i len md) b = Some (fuse_fallocate i len md b)"
| "fuse_handle E (Release fh) b = Some (fuse_release E fh b)"
| "fuse_handle E (Opendir i) b = Some (fuse_opendir E i b)"
| "fuse_handle E (Readdir full i fh off) b = Some (fuse_readdir E full i fh off b)"
| "fuse_handle E (Releasedir fh) b = Some (fuse_releasedir fh b)"
| "fuse_handle E (Access rq i msk) b = Some (fuse_access rq i msk b)"
| "fuse_handle E Statfs b = Some (fuse_statfs b)"

fun fuse_run :: "'d fs_env \<Rightarrow> fuse_request list \<Rightarrow> 'd bfuse \<Rightarrow> 'd bfuse option" where
  "fuse_run E [] b = Some b"
| "fuse_run E (r # rs) b =
     (case fuse_handle E r b of
        Some (Ok _, b) \<Rightarrow> fuse_run E rs b
      | Some (Err _, b) \<Rightarrow> fuse_run E rs b
      | _ \<Rightarrow> None)"

end
