(* ===== verification/Cli.thy ===== *)
theory Cli
  imports Fuse
begin

text \<open>
  The command-line tool \<^verbatim>\<open>rust/bloomfs-cli\<close>: decoding of the key, and the two commands.  A command
  returns its result and the device it leaves.

  Outside the code: \<open>clap\<close>, which parses the arguments, the kind of file the path names, the outcomes
  of opening it, of \<open>set_len\<close> and of \<open>metadata\<close>, the caller's ids, the outcome of starting the FUSE session and of installing the
  signal handler, and the requests the session serves until the signal are arguments.  The messages
  the tool prints are left out; an error is a constructor instead of a text.
\<close>

section \<open>Keys\<close>

datatype cli_error =
    OddHexDigits
  | InvalidHexDigit
  | BadKeyHex cli_error
  | BadKeyLength nat
  | OpenDevice block_error
  | CreateImage block_error
  | OpenImage block_error
  | FormatFailed fs_error
  | ChownRoot fs_error
  | CommitFailed fs_error
  | MountFailed fs_error
  | FuseMountFailed
  | SignalHandlerFailed

text \<open>\<open>u8::from_str_radix(s, 16)\<close>: one leading plus sign is allowed before the digits.\<close>

definition hex_digit :: "u8 \<Rightarrow> u8 option" where
  "hex_digit c =
     (if 48 \<le> c \<and> c \<le> 57 then Some (c - 48)
      else if 97 \<le> c \<and> c \<le> 102 then Some (c - 97 + 10)
      else if 65 \<le> c \<and> c \<le> 70 then Some (c - 65 + 10)
      else None)"

fun radix_16_loop :: "bytes \<Rightarrow> u8 \<Rightarrow> u8 option" where
  "radix_16_loop [] acc = Some acc"
| "radix_16_loop (c # cs) acc =
     (case hex_digit c of
        None \<Rightarrow> None
      | Some v \<Rightarrow> if unat acc * 16 + unat v > 255 then None else radix_16_loop cs (acc * 16 + v))"

definition from_str_radix_16 :: "bytes \<Rightarrow> u8 option" where
  "from_str_radix_16 s =
     (case s of
        [] \<Rightarrow> None
      | c # cs \<Rightarrow> if cs = [] \<and> (c = 43 \<or> c = 45) then None
                  else radix_16_loop (if c = 43 then cs else s) 0)"

text \<open>\<open>str::is_char_boundary\<close>; slicing a string anywhere else panics.\<close>

definition is_char_boundary :: "bytes \<Rightarrow> nat \<Rightarrow> bool" where
  "is_char_boundary s i = (i = 0 \<or> i = length s \<or> i < length s \<and> \<not> is_cont (s ! i))"

fun hex_pairs :: "bytes \<Rightarrow> nat list \<Rightarrow> (cli_error, bytes) res" where
  "hex_pairs s [] = Ok []"
| "hex_pairs s (i # is) =
     (if \<not> is_char_boundary s i \<or> \<not> is_char_boundary s (i + 2) then Panic
      else case from_str_radix_16 (slice i (i + 2) s) of
        None \<Rightarrow> Err InvalidHexDigit
      | Some b \<Rightarrow> res_bind (hex_pairs s is) (\<lambda>bs. Ok (b # bs)))"

definition decode_hex :: "bytes \<Rightarrow> (cli_error, bytes) res" where
  "decode_hex s =
     (if length s mod 2 \<noteq> 0 then Err OddHexDigits
      else hex_pairs s (map (\<lambda>k. 2 * k) [0..<length s div 2]))"

definition parse_key :: "bytes \<Rightarrow> (cli_error, bytes option) res" where
  "parse_key h =
     (if h = [] then Ok None
      else res_bind (map_err BadKeyHex (decode_hex h)) (\<lambda>key.
        if length key \<noteq> 32 \<and> length key \<noteq> 64 then Err (BadKeyLength (length key)) else Ok (Some key)))"

section \<open>Formatting\<close>

definition do_format_on ::
  "'d fs_env \<Rightarrow> (nat \<Rightarrow> u64) \<Rightarrow> u32 \<Rightarrow> u32 \<Rightarrow> bytes option \<Rightarrow> 'd \<Rightarrow> (cli_error, unit) res \<times> 'd" where
  "do_format_on E clock u g key dev =
     (case fs_format E clock key dev of
        (Err e, d) \<Rightarrow> (Err (FormatFailed e), d)
      | (Panic, d) \<Rightarrow> (Panic, d)
      | (Ok s, d) \<Rightarrow>
        (case st_bind (\<lambda>s. case fs_chown (fs_root s) u g s of (r, s) \<Rightarrow> (map_err ChownRoot r, s)) (\<lambda>_ s.
                case fs_fsync E s of (r, s) \<Rightarrow> (map_err CommitFailed r, s)) s of
           (r, s) \<Rightarrow> (r, po_dev (fs_pool s))))"

text \<open>A device of the kind that was opened.\<close>

datatype image_device = RawImage raw_device | FileImage file_device

definition do_format ::
  "raw_device fs_env \<Rightarrow> file_device fs_env \<Rightarrow> (nat \<Rightarrow> u64) \<Rightarrow> u32 \<Rightarrow> u32 \<Rightarrow> bool \<Rightarrow> (string, os_file) res \<Rightarrow>
     (string, unit) res \<Rightarrow> (os_file \<Rightarrow> (string, u64) res) \<Rightarrow> u64 \<Rightarrow> bytes \<Rightarrow> (cli_error, unit) res \<times> image_device option" where
  "do_format ER EF clock u g is_blk opened len_set blk_size size_mib key_hex =
     (case parse_key key_hex of
        Err e \<Rightarrow> (Err e, None)
      | Panic \<Rightarrow> (Panic, None)
      | Ok key \<Rightarrow>
        if is_blk then
          (case raw_open opened blk_size of
             Err e \<Rightarrow> (Err (OpenDevice e), None)
           | Panic \<Rightarrow> (Panic, None)
           | Ok dev \<Rightarrow> (case do_format_on ER clock u g key dev of (r, d) \<Rightarrow> (r, Some (RawImage d))))
        else
          (case file_create opened len_set (size_mib * 1024 * 1024 div of_nat SIZE) of
             Err e \<Rightarrow> (Err (CreateImage e), None)
           | Panic \<Rightarrow> (Panic, None)
           | Ok dev \<Rightarrow> (case do_format_on EF clock u g key dev of (r, d) \<Rightarrow> (r, Some (FileImage d)))))"

section \<open>Mounting\<close>

text \<open>The file system is dropped, and so commits, also when the session or the signal handler cannot
  be set up.  \<open>None\<close> when a request ends the session without an answer.\<close>

definition do_mount_on ::
  "'d fs_env \<Rightarrow> (nat \<Rightarrow> u64) \<Rightarrow> bytes option \<Rightarrow> bool \<Rightarrow> bool \<Rightarrow> bool \<Rightarrow> fuse_request list \<Rightarrow> 'd \<Rightarrow>
     ((cli_error, unit) res \<times> 'd) option" where
  "do_mount_on E clock key no_dir_cache spawned handler_set reqs dev =
     (case fs_mount E clock key dev of
        Err e \<Rightarrow> Some (Err (MountFailed e), dev)
      | Panic \<Rightarrow> Some (Panic, dev)
      | Ok s \<Rightarrow>
        let s = (if no_dir_cache then set_dir_cache False s else s)
        in (case fuse_run E (if spawned then reqs else []) (bfuse_new s) of
              None \<Rightarrow> None
            | Some b \<Rightarrow>
              (case bfuse_drop E b of
                 (Panic, b) \<Rightarrow> Some (Panic, po_dev (fs_pool (bf_fs b)))
               | (_, b) \<Rightarrow> Some (if \<not> spawned then Err FuseMountFailed
                                else if \<not> handler_set then Err SignalHandlerFailed
                                else Ok (), po_dev (fs_pool (bf_fs b))))))"

definition do_mount ::
  "raw_device fs_env \<Rightarrow> file_device fs_env \<Rightarrow> (nat \<Rightarrow> u64) \<Rightarrow> bool \<Rightarrow> (string, os_file) res \<Rightarrow>
     (string, unit) res \<Rightarrow> (os_file \<Rightarrow> (string, u64) res) \<Rightarrow> bool \<Rightarrow> bool \<Rightarrow> fuse_request list \<Rightarrow> bytes \<Rightarrow> bool \<Rightarrow>
     ((cli_error, unit) res \<times> image_device option) option" where
  "do_mount ER EF clock is_blk opened stat blk_size spawned handler_set reqs key_hex no_dir_cache =
     (case parse_key key_hex of
        Err e \<Rightarrow> Some (Err e, None)
      | Panic \<Rightarrow> Some (Panic, None)
      | Ok key \<Rightarrow>
        if is_blk then
          (case raw_open opened blk_size of
             Err e \<Rightarrow> Some (Err (OpenDevice e), None)
           | Panic \<Rightarrow> Some (Panic, None)
           | Ok dev \<Rightarrow> map_option (\<lambda>(r, d). (r, Some (RawImage d)))
                         (do_mount_on ER clock key no_dir_cache spawned handler_set reqs dev))
        else
          (case file_open opened stat of
             Err e \<Rightarrow> Some (Err (OpenImage e), None)
           | Panic \<Rightarrow> Some (Panic, None)
           | Ok dev \<Rightarrow> map_option (\<lambda>(r, d). (r, Some (FileImage d)))
                         (do_mount_on EF clock key no_dir_cache spawned handler_set reqs dev)))"

end
