(* ===== verification/Frames.thy ===== *)
theory Frames
  imports Fuse
begin

text \<open>
  What every operation of the file system keeps, by rules over outcomes: \<open>okay P Q Z out\<close> says that the
  outcome \<open>out\<close>, a result and a state, leaves \<open>P\<close>, that a value it returns satisfies \<open>Q\<close> and an error \<open>Z\<close>.
  There is one rule per construct the operations are written with and one per operation, collected in
  \<open>held\<close>; the proof for an operation applies them to its body.

  The instance: the inode table stays well-typed, the open counts are only changed by \<open>open\<close> and
  \<open>close\<close>, no operation but \<open>fallocate\<close> reports
  \<open>NoSpace\<close>, and none but the creating ones \<open>NoInodes\<close>.
\<close>

section \<open>Outcomes\<close>

definition okay :: "('s \<Rightarrow> bool) \<Rightarrow> ('a \<Rightarrow> bool) \<Rightarrow> ('e \<Rightarrow> bool) \<Rightarrow> ('e, 'a) res \<times> 's \<Rightarrow> bool" where
  "okay P Q Z out = (P (snd out) \<and> (\<forall>x. fst out = Ok x \<longrightarrow> Q x) \<and> (\<forall>e. fst out = Err e \<longrightarrow> Z e))"

named_theorems held "outcomes of the constructs and of the operations"

lemma okay_Ok [held]: "P s \<Longrightarrow> Q x \<Longrightarrow> okay P Q Z (Ok x, s)"
  by (simp add: okay_def)

lemma okay_Err [held]: "P s \<Longrightarrow> Z e \<Longrightarrow> okay P Q Z (Err e, s)"
  by (simp add: okay_def)

lemma okay_Panic [held]: "P s \<Longrightarrow> okay P Q Z (Panic, s)"
  by (simp add: okay_def)

lemma okay_return [held]: "P s \<Longrightarrow> Q x \<Longrightarrow> okay P Q Z (st_return x s)"
  by (simp add: okay_def st_return_def)

lemma okay_bind [held]:
  "okay P Q Z (m s) \<Longrightarrow> (\<And>x s'. P s' \<Longrightarrow> Q x \<Longrightarrow> okay P Q' Z (k x s')) \<Longrightarrow> okay P Q' Z (st_bind m k s)"
  by (auto simp: okay_def st_bind_def split: prod.splits res.splits)

lemma okay_if [held]: "(c \<Longrightarrow> okay P Q Z a) \<Longrightarrow> (\<not> c \<Longrightarrow> okay P Q Z b) \<Longrightarrow> okay P Q Z (if c then a else b)"
  by simp

lemma okay_option [held]:
  "(x = None \<Longrightarrow> okay P Q Z a) \<Longrightarrow> (\<And>y. x = Some y \<Longrightarrow> okay P Q Z (f y)) \<Longrightarrow>
     okay P Q Z (case x of None \<Rightarrow> a | Some y \<Rightarrow> f y)"
  by (simp split: option.split)

lemma okay_prod [held]: "(\<And>a b. p = (a, b) \<Longrightarrow> okay P Q Z (f a b)) \<Longrightarrow> okay P Q Z (case p of (a, b) \<Rightarrow> f a b)"
  by (simp split: prod.split)

lemma okay_prod_app [held]:
  "(\<And>a b. p = (a, b) \<Longrightarrow> okay P Q Z (f a b s)) \<Longrightarrow> okay P Q Z ((case p of (a, b) \<Rightarrow> f a b) s)"
  by (simp split: prod.split)

lemma okay_Let [held]: "(\<And>y. y = x \<Longrightarrow> okay P Q Z (f y)) \<Longrightarrow> okay P Q Z (Let x f)"
  by simp

lemma okay_res [held]:
  "(\<And>x. r = Ok x \<Longrightarrow> okay P Q Z (f x)) \<Longrightarrow> (\<And>e. r = Err e \<Longrightarrow> okay P Q Z (g e)) \<Longrightarrow> (r = Panic \<Longrightarrow> okay P Q Z h) \<Longrightarrow>
     okay P Q Z (case r of Ok x \<Rightarrow> f x | Err e \<Rightarrow> g e | Panic \<Rightarrow> h)"
  by (simp split: res.split)

lemma okay_pure: "P s \<Longrightarrow> (\<And>x. r = Ok x \<Longrightarrow> Q x) \<Longrightarrow> (\<And>e. r = Err e \<Longrightarrow> Z e) \<Longrightarrow> okay P Q Z (r, s)"
  by (auto simp: okay_def)

lemma okay_weaken: "okay P Q Z out \<Longrightarrow> (\<And>x. Q x \<Longrightarrow> Q' x) \<Longrightarrow> okay P Q' Z out"
  by (auto simp: okay_def)

lemma okayD:
  "okay P Q Z out \<Longrightarrow> P (snd out)" "okay P Q Z out \<Longrightarrow> fst out = Ok x \<Longrightarrow> Q x" "okay P Q Z out \<Longrightarrow> fst out = Err e \<Longrightarrow> Z e"
  by (auto simp: okay_def)

section \<open>The instance\<close>

text \<open>The digests \<open>[u8; 32]\<close> have their length; the table is well-typed and the open counts are \<open>opn\<close>.\<close>

definition fs_held :: "'d fs_env \<Rightarrow> (u64 \<times> u32) list \<Rightarrow> 'd fs \<Rightarrow> bool" where
  "fs_held E opn s =
     ((\<forall>b. length (blake3 (fe_crypto E) b) = 32) \<and> itable_ok (fs_inodes s) \<and> fs_open s = opn)"

definition hard :: "fs_error \<Rightarrow> bool" where
  "hard e = (e \<noteq> FsNoSpace \<and> e \<noteq> NoInodes)"

definition dir_typed :: "cached_dir \<Rightarrow> bool" where
  "dir_typed h = inode_typed (cd_inode h)"

abbreviation keeping :: "'d fs_env \<Rightarrow> (u64 \<times> u32) list \<Rightarrow> ('a \<Rightarrow> bool) \<Rightarrow> (fs_error, 'a) res \<times> 'd fs \<Rightarrow> bool" where
  "keeping E opn Q \<equiv> okay (fs_held E opn) Q hard"

abbreviation any :: "'a \<Rightarrow> bool" where
  "any \<equiv> \<lambda>_. True"

lemma hard_simps [simp]:
  "hard NotDir" "hard NotFile" "hard FsExists" "hard NotFound" "hard FsCorrupt" "hard IsDir" "hard NotEmpty"
  "hard Invalid" "hard Permission" "hard (FsCow c)" "hard (FsStore t)" "hard (FsInode i)" "\<not> hard FsNoSpace" "\<not> hard NoInodes"
  by (simp_all add: hard_def)

text \<open>Updates of the other fields.\<close>

lemma fs_held_upd [simp]:
  "fs_held E opn (s\<lparr>fs_pool := p\<rparr>) = fs_held E opn s" "fs_held E opn (s\<lparr>fs_ub := u\<rparr>) = fs_held E opn s"
  "fs_held E opn (s\<lparr>fs_free := f\<rparr>) = fs_held E opn s" "fs_held E opn (s\<lparr>fs_reads := n\<rparr>) = fs_held E opn s"
  "fs_held E opn (s\<lparr>fs_meta_buf := b\<rparr>) = fs_held E opn s" "fs_held E opn (s\<lparr>fs_cache := c\<rparr>) = fs_held E opn s"
  "fs_held E opn (s\<lparr>fs_clock := cl\<rparr>) = fs_held E opn s"
  by (simp_all add: fs_held_def)

lemma inode_typed_upd [simp]:
  "inode_typed (i\<lparr>in_size := a\<rparr>) = inode_typed i" "inode_typed (i\<lparr>nlink := b\<rparr>) = inode_typed i"
  "inode_typed (i\<lparr>generation := b\<rparr>) = inode_typed i" "inode_typed (i\<lparr>uid := b\<rparr>) = inode_typed i"
  "inode_typed (i\<lparr>gid := b\<rparr>) = inode_typed i" "inode_typed (i\<lparr>atime := a\<rparr>) = inode_typed i"
  "inode_typed (i\<lparr>mtime := a\<rparr>) = inode_typed i" "inode_typed (i\<lparr>ctime := a\<rparr>) = inode_typed i"
  "inode_typed (i\<lparr>mode := c\<rparr>) = inode_typed i" "inode_typed (i\<lparr>kind := d\<rparr>) = inode_typed i"
  "inode_typed (i\<lparr>record_size_log2 := d\<rparr>) = inode_typed i" "inode_typed (i\<lparr>flags := d\<rparr>) = inode_typed i"
  by (simp_all add: inode_typed_def)

lemma dir_typed_upd [simp]: "dir_typed (h\<lparr>cd_inode := i\<rparr>) = inode_typed i" "dir_typed (h\<lparr>cd_dirty := d\<rparr>) = dir_typed h"
  by (simp_all add: dir_typed_def)

lemma itable_get_typed: "itable_ok t \<Longrightarrow> itable_get t ino = Ok i \<Longrightarrow> inode_typed i"
  by (auto simp: itable_ok_def itable_get_def list_all_iff word_le_nat_alt itable_cap_def split: if_splits)

section \<open>Inodes, clock and commits\<close>

lemma get_inode_held [held]: "fs_held E opn s \<Longrightarrow> keeping E opn inode_typed (get_inode ino s)"
  unfolding get_inode_def
  by (rule okay_pure) (auto simp: fs_held_def intro: itable_get_typed elim: map_err.elims)

lemma put_inode_held [held]: "fs_held E opn s \<Longrightarrow> inode_typed i \<Longrightarrow> keeping E opn any (put_inode ino i s)"
  by (auto simp: put_inode_def fs_held_def okay_def dest: itable_put_ok split: prod.split elim!: map_err.elims)

lemmas touch_defs = touch_mod_def touch_meta_def fs_now_def

lemma fs_commit_held [held]: "fs_held E opn s \<Longrightarrow> keeping E opn any (fs_commit E s)"
  by (simp add: fs_commit_def Let_def okay_def split: prod.split res.split)

lemma fs_fsync_held [held]: "fs_held E opn s \<Longrightarrow> keeping E opn any (fs_fsync E s)"
  unfolding fs_fsync_def by (rule fs_commit_held)

section \<open>Blocks, block maps and file contents\<close>

lemma store_result_held [held]: "fs_held E opn s \<Longrightarrow> keeping E opn any (map_err FsStore r, s)"
  by (cases r) (simp_all add: okay_def)

lemma store_write_typed:
  "\<forall>b. length (blake3 C b) = 32 \<Longrightarrow> store_write C dv bs b p = (Ok r, p') \<Longrightarrow> ref_ok r"
  by (auto simp: store_write_def Let_def ref_ok_def ref_from_def split: option.splits prod.splits res.splits)

lemma store_written_held:
  "fs_held E opn s \<Longrightarrow> store_write (fe_crypto E) dv bs b q = (r, p) \<Longrightarrow> keeping E opn ref_ok (map_err FsStore r, s\<lparr>fs_pool := p\<rparr>)"
  by (cases r) (auto simp: okay_def fs_held_def dest: store_write_typed)

lemma bs_write_held [held]: "fs_held E opn s \<Longrightarrow> keeping E opn ref_ok (bs_write E b s)"
proof -
  assume s: "fs_held E opn s"
  obtain r p where w: "store_write (fe_crypto E) (fe_dev E) (fs_bs s) b (fs_pool s) = (r, p)" by fastforce
  note first = store_written_held [OF s w]
  show ?thesis
  proof (cases r)
    case (Err e)
    then show ?thesis
      unfolding bs_write_def w using s
      by (simp, intro conjI impI) (auto intro!: okay_bind [OF fs_commit_held] held store_written_held)
  qed (use first w in \<open>simp_all add: bs_write_def\<close>)
qed

lemma bs_release_held [simp]: "fs_held E opn (bs_release r s) = fs_held E opn s"
  by (simp add: bs_release_def)

lemma release_all_held [simp]: "fs_held E opn (fold bs_release rs s) = fs_held E opn s"
  by (induction rs arbitrary: s) simp_all

text \<open>Operations that only read: their errors.\<close>

definition hard_res :: "(fs_error, 'a) res \<Rightarrow> bool" where
  "hard_res r = (\<forall>e. r = Err e \<longrightarrow> hard e)"

lemma hard_res_intros [held]:
  "hard_res (Ok x)" "hard e \<Longrightarrow> hard_res (Err e)" "hard_res Panic"
  "hard_res m \<Longrightarrow> (\<And>x. m = Ok x \<Longrightarrow> hard_res (k x)) \<Longrightarrow> hard_res (res_bind m k)"
  "(c \<Longrightarrow> hard_res a) \<Longrightarrow> (\<not> c \<Longrightarrow> hard_res b) \<Longrightarrow> hard_res (if c then a else b)"
  "(\<And>y. y = z \<Longrightarrow> hard_res (g y)) \<Longrightarrow> hard_res (Let z g)"
  "hard_res (map_err FsStore r1)" "hard_res (map_err FsInode r2)"
  by (auto simp: hard_res_def elim!: map_err.elims res_bind.elims)

lemma hard_res_prod [held]: "(\<And>a b. p = (a, b) \<Longrightarrow> hard_res (f a b)) \<Longrightarrow> hard_res (case p of (a, b) \<Rightarrow> f a b)"
  by (simp split: prod.split)

lemma okay_read [held]: "fs_held E opn s \<Longrightarrow> hard_res r \<Longrightarrow> keeping E opn any (r, s)"
  by (auto simp: okay_def hard_res_def)

lemma hard_resD: "hard_res r \<Longrightarrow> r = Err e \<Longrightarrow> hard e"
  by (simp add: hard_res_def)

lemma bs_read_hard [held]: "hard_res (bs_read E s r)"
  unfolding bs_read_def by (intro held)

lemma decode_refs_hard [held]: "hard_res (decode_refs b)"
  unfolding decode_refs_def by (intro held) simp_all

lemma load_refs_hard [held]: "hard_res (load_refs E s i)"
  unfolding load_refs_def by (intro held)

lemma read_records_hard [held]: "hard_res (read_records E s rs)"
  by (induction rs) (auto intro!: held)

lemma ref_unmarshal_typed: "32 \<le> length b \<Longrightarrow> ref_ok (ref_unmarshal b)"
  by (simp add: ref_ok_def ref_unmarshal_def)

lemma map_ref_ok: "inode_typed i \<Longrightarrow> ref_ok (map_ref i)"
  by (simp add: map_ref_def inode_typed_def REF_SIZE_def BLOCK_MAP_BYTES_def ref_unmarshal_typed)

lemma decode_refs_typed: "decode_refs b = Ok rs \<Longrightarrow> list_all ref_ok rs"
proof -
  assume d: "decode_refs b = Ok rs"
  define n where "n = unat (from_le (slice 0 4 b) :: u32)"
  have n: "4 + n * REF_SIZE \<le> length b" "rs = map (\<lambda>i. ref_unmarshal (drop (4 + i * REF_SIZE) b)) [0..<n]"
    using d by (auto simp: decode_refs_def n_def [symmetric] split: if_splits)
  have "32 \<le> length (drop (4 + i * REF_SIZE) b)" if "i < n" for i
  proof -
    have "(i + 1) * REF_SIZE \<le> n * REF_SIZE" using that by (intro mult_right_mono) auto
    then show ?thesis using n(1) by (simp add: REF_SIZE_def)
  qed
  then show ?thesis unfolding n(2) by (auto simp: list_all_iff intro: ref_unmarshal_typed)
qed

lemma load_refs_typed: "inode_typed i \<Longrightarrow> load_refs E s i = Ok rs \<Longrightarrow> list_all ref_ok rs"
  by (auto simp: load_refs_def res_bind_eq_Ok map_ref_ok intro: decode_refs_typed split: if_splits)

lemma block_map_typed: "ref_ok r \<Longrightarrow> length (copy_at 0 (ref_marshal r) (replicate BLOCK_MAP_BYTES 0)) = BLOCK_MAP_BYTES"
  using length_ref_marshal [of r] by (simp add: REF_SIZE_def BLOCK_MAP_BYTES_def)

lemma get_data_hard [held]: "hard_res (get_data E s i)"
  unfolding get_data_def by (intro held)

lemma store_refs_held [held]:
  "fs_held E opn s \<Longrightarrow> inode_typed i \<Longrightarrow> list_all ref_ok refs \<Longrightarrow> keeping E opn inode_typed (store_refs E i refs sz l2 s)"
proof (cases refs rule: remdups_adj.cases)
qed (auto simp: store_refs_def Let_def inode_typed_def block_map_typed intro!: held)

lemma release_data_held [held]: "fs_held E opn s \<Longrightarrow> keeping E opn any (release_data E i s)"
  unfolding release_data_def
  by (intro held) (auto intro: hard_resD [OF hard_res_intros(4) [OF bs_read_hard decode_refs_hard]])

lemma write_records_held [held]: "fs_held E opn s \<Longrightarrow> keeping E opn (list_all ref_ok) (write_records E recs s)"
proof (induction recs arbitrary: s)
  case (Cons rec recs)
  show ?case unfolding write_records.simps by (rule held Cons | assumption | simp)+
qed (simp add: held)

lemma set_data_held [held]: "fs_held E opn s \<Longrightarrow> inode_typed i \<Longrightarrow> keeping E opn any (set_data E ino i blob s)"
  unfolding set_data_def by (rule held | assumption | force simp: touch_defs)+

lemma write_step_held [held]:
  assumes s: "fs_held E opn s" and w: "list_all ref_ok (wc_old_refs w)"
  shows "keeping E opn (\<lambda>(r, rs). ref_ok r) (write_step E w n s)"
proof -
  have h: "hard_res (if n < length (wc_old_refs w) then res_bind (bs_read E s (wc_old_refs w ! n)) (\<lambda>b. Ok (Some b)) else Ok None)"
    by (intro held)
  show ?thesis unfolding write_step_def Let_def
    by (rule held | assumption | use s w in \<open>force simp: list_all_length intro: hard_resD [OF h]\<close>)+
qed

lemma write_loop_held [held]:
  "fs_held E opn s \<Longrightarrow> list_all ref_ok (wc_old_refs w) \<Longrightarrow> keeping E opn (\<lambda>(rs, rels). list_all ref_ok rs) (write_loop E w ns s)"
proof (induction ns arbitrary: s)
  case (Cons n ns)
  show ?case unfolding write_loop.simps by (rule held Cons | assumption | use Cons.prems in force)+
qed (simp add: held)

lemma write_at_locked_held [held]: "fs_held E opn s \<Longrightarrow> inode_typed i \<Longrightarrow> keeping E opn inode_typed (write_at_locked E ino i off data s)"
  unfolding write_at_locked_def Let_def
  by (rule held | assumption | force simp: write_ctx_of_def Let_def touch_defs intro: hard_resD [OF load_refs_hard] load_refs_typed)+

section \<open>Directories\<close>

lemma decode_entries_hard [held]: "hard_res (decode_entries n b off out)"
  by (induction n b off out rule: decode_entries.induct) (auto simp: Let_def intro!: held)

lemma decode_dir_page_hard [held]: "hard_res (decode_dir_page b)"
  unfolding decode_dir_page_def by (intro held) simp_all

lemma encode_entries_hard: "hard_res (encode_entries es off buf)"
  by (induction es off buf rule: encode_entries.induct) (auto simp: Let_def intro!: held)

lemma encode_dir_page_hard: "hard_res (encode_dir_page es)"
  unfolding encode_dir_page_def by (rule encode_entries_hard)

lemma load_page_inode: "cd_inode (load_page DE es used h) = cd_inode h"
proof -
  have "cd_inode (fold (\<lambda>e h. h\<lparr>cd_dir := f e h, cd_page_of := g e h\<rparr>) es h) = cd_inode h" for f g
    by (induction es arbitrary: h) simp_all
  then show ?thesis by (simp add: load_page_def Let_def)
qed

lemma load_pages_spec: "hard_res (load_pages DE blob h) \<and> (\<forall>h'. load_pages DE blob h = Ok h' \<longrightarrow> cd_inode h' = cd_inode h)"
proof (induction DE blob h rule: load_pages.induct)
  case (1 DE blob h)
  note eq = load_pages.simps [of DE blob h]
  show ?case
  proof (cases "decode_dir_page (take DIR_PAGE_SIZE blob)")
    case (Ok x)
    then show ?thesis using 1 by (auto simp: eq held load_page_inode split: prod.splits)
  qed (use hard_resD [OF decode_dir_page_hard] in \<open>auto simp: eq hard_res_def\<close>)
qed

lemma load_dir_held [held]: "fs_held E opn s \<Longrightarrow> keeping E opn dir_typed (load_dir E s ino, s)"
proof (rule okay_pure)
  have "hard_res (load_dir E s ino)" unfolding load_dir_def by (intro held) (auto simp: load_pages_spec)
  then show "hard e" if "load_dir E s ino = Err e" for e using that by (rule hard_resD)
  show "dir_typed h" if "fs_held E opn s" "load_dir E s ino = Ok h" for h
    using that load_pages_spec [of "fe_dir E"]
    by (auto simp: load_dir_def res_bind_eq_Ok dir_typed_def fs_held_def split: if_splits dest: itable_get_typed)
qed

lemma checkout_dir_held [held]: "fs_held E opn s \<Longrightarrow> keeping E opn dir_typed (checkout_dir E ino s)"
  unfolding checkout_dir_def Let_def by (rule held | assumption | simp)+

lemma flush_pages_held [held]: "fs_held E opn s \<Longrightarrow> dir_typed h \<Longrightarrow> keeping E opn dir_typed (flush_pages E ino ps h s)"
proof (induction ps arbitrary: h s)
  case (Cons p ps)
  show ?case unfolding flush_pages.simps
    by (rule held Cons | assumption | use Cons.prems in \<open>force simp: dir_typed_def intro: hard_resD [OF encode_dir_page_hard]\<close>)+
qed (simp add: held)

lemma flush_dir_held [held]: "fs_held E opn s \<Longrightarrow> dir_typed h \<Longrightarrow> keeping E opn dir_typed (flush_dir E ino h s)"
  unfolding flush_dir_def by (rule held | assumption | simp)+

lemma commit_dir_held [held]: "fs_held E opn s \<Longrightarrow> dir_typed h \<Longrightarrow> keeping E opn any (commit_dir E ino h s)"
  unfolding commit_dir_def by (rule held | assumption | simp split: option.split)+

lemma evict_dir_held [simp]: "fs_held E opn (evict_dir ino s) = fs_held E opn s"
  by (simp add: evict_dir_def split: option.split)

lemma cache_peek_held [held]: "fs_held E opn s \<Longrightarrow> keeping E opn any (cache_peek E ino f s)"
  unfolding cache_peek_def Let_def
  by (rule held | assumption | simp | force dest: okayD(3) [OF load_dir_held])+

lemma read_pages_hard [held]: "hard_res (read_pages blob out)"
proof (induction blob out rule: read_pages.induct)
  case (1 blob out)
  note eq = read_pages.simps [of blob out]
  show ?case
  proof (cases "decode_dir_page (take DIR_PAGE_SIZE blob)")
    case (Ok x)
    then show ?thesis using 1 by (auto simp: eq held split: prod.splits)
  qed (use hard_resD [OF decode_dir_page_hard] in \<open>auto simp: eq hard_res_def\<close>)
qed

lemma read_dir_pages_hard [held]: "hard_res (read_dir_pages E s ino)"
  unfolding read_dir_pages_def by (intro held) simp_all

lemma dir_link_held [held]: "fs_held E opn s \<Longrightarrow> dir_typed h \<Longrightarrow> keeping E opn dir_typed (dir_link E n ino h s)"
  by (auto simp: dir_link_def cd_add_def Let_def okay_def dir_typed_def split: prod.splits bool.splits option.splits)

lemma dir_unlink_held [held]: "fs_held E opn s \<Longrightarrow> dir_typed h \<Longrightarrow> keeping E opn dir_typed (dir_unlink E n h s)"
  by (auto simp: dir_unlink_def cd_del_def Let_def okay_def dir_typed_def split: option.splits)

section \<open>Operations\<close>

lemma hard_option [held]:
  "(x = None \<Longrightarrow> hard_res a) \<Longrightarrow> (\<And>y. x = Some y \<Longrightarrow> hard_res (f y)) \<Longrightarrow> hard_res (case x of None \<Rightarrow> a | Some y \<Rightarrow> f y)"
  by (simp split: option.split)

lemma dirents_of_hard [held]: "hard_res (dirents_of s ps)"
  by (induction s ps rule: dirents_of.induct) (auto intro!: held)

lemma fs_lookup_held [held]: "fs_held E opn s \<Longrightarrow> keeping E opn any (fs_lookup E parent n s)"
  unfolding fs_lookup_def by (rule held okay_read | assumption | simp)+

lemma fs_readdir_held [held]: "fs_held E opn s \<Longrightarrow> keeping E opn any (fs_readdir E ino s)"
  unfolding fs_readdir_def by (rule held okay_read | assumption | simp)+

lemma fs_readdirents_held [held]: "fs_held E opn s \<Longrightarrow> keeping E opn any (fs_readdirents E ino s)"
  unfolding fs_readdirents_def by (rule held okay_read | assumption | simp)+

text \<open>Creating a node may also find the inode table full.\<close>

abbreviation creating :: "'d fs_env \<Rightarrow> (u64 \<times> u32) list \<Rightarrow> ('a \<Rightarrow> bool) \<Rightarrow> (fs_error, 'a) res \<times> 'd fs \<Rightarrow> bool" where
  "creating E opn Q \<equiv> okay (fs_held E opn) Q (\<lambda>e. e \<noteq> FsNoSpace)"

lemma creating: "keeping E opn Q out \<Longrightarrow> creating E opn Q out"
  by (auto simp: okay_def hard_def)

lemma alloc_inode_held [held]: "fs_held E opn s \<Longrightarrow> creating E opn any (alloc_inode s)"
  unfolding alloc_inode_def by (rule held | assumption | simp)+

lemmas creating_held = checkout_dir_held [THEN creating] get_inode_held [THEN creating] put_inode_held [THEN creating]
  dir_link_held [THEN creating] commit_dir_held [THEN creating] set_data_held [THEN creating]

lemma new_child_typed: "inode_typed (new_child typ md prev now)"
  by (simp add: new_child_def Let_def inode_typed_def inode_default_def)

lemma create_node_held [held]: "fs_held E opn s \<Longrightarrow> creating E opn any (create_node E parent n typ md s)"
  unfolding create_node_def Let_def by (rule held creating_held new_child_typed | assumption | force simp: fs_now_def | simp add: dir_typed_def)+

lemma fs_mkdir_held [held]: "fs_held E opn s \<Longrightarrow> creating E opn any (fs_mkdir E parent n s)"
  unfolding fs_mkdir_def by (rule create_node_held)

lemma fs_create_held [held]: "fs_held E opn s \<Longrightarrow> creating E opn any (fs_create E parent n s)"
  unfolding fs_create_def by (rule create_node_held)

lemma fs_symlink_held [held]: "fs_held E opn s \<Longrightarrow> creating E opn any (fs_symlink E parent n t s)"
  unfolding fs_symlink_def by (rule held creating_held | assumption | simp)+

lemma fs_readlink_hard [held]: "hard_res (fs_readlink E s ino)"
  unfolding fs_readlink_def by (intro held) simp_all

lemma regular_held [held]: "fs_held E opn s \<Longrightarrow> keeping E opn inode_typed (regular s ino, s)"
  unfolding regular_def
  by (rule okay_pure) (auto simp: fs_held_def res_bind_eq_Ok dest: itable_get_typed elim!: res_bind.elims map_err.elims split: if_splits)

lemma regular_hard [held]: "hard_res (regular s ino)"
  unfolding regular_def by (intro held) simp_all

lemma write_at_held [held]: "fs_held E opn s \<Longrightarrow> keeping E opn any (write_at E ino off data s)"
  unfolding write_at_def by (rule held | assumption | simp)+

lemma fs_truncate_held [held]: "fs_held E opn s \<Longrightarrow> keeping E opn any (fs_truncate E ino n s)"
  unfolding fs_truncate_def by (rule held okay_read | assumption | simp)+

lemma read_loop_hard [held]: "hard_res (read_loop E s refs rs off e ns)"
  by (induction ns) (auto simp: Let_def intro!: held)

lemma read_at_hard [held]: "hard_res (read_at E s ino off len)"
  unfolding read_at_def Let_def by (intro held)

lemma reclaim_held [held]: "fs_held E opn s \<Longrightarrow> keeping E opn any (reclaim E ino i s)"
  unfolding reclaim_def by (rule held | assumption | simp)+

lemma fs_unlink_held [held]: "fs_held E opn s \<Longrightarrow> keeping E opn any (fs_unlink E parent n s)"
  unfolding fs_unlink_def Let_def by (rule held | assumption | force simp: touch_defs)+

lemma fs_rmdir_held [held]: "fs_held E opn s \<Longrightarrow> keeping E opn any (fs_rmdir E parent n s)"
  unfolding fs_rmdir_def Let_def by (rule held | assumption | simp add: dir_typed_def)+

lemma mutate_inode_held [held]:
  "fs_held E opn s \<Longrightarrow> (\<And>i. inode_typed i \<Longrightarrow> inode_typed (f i)) \<Longrightarrow> keeping E opn any (mutate_inode ino f s)"
  unfolding mutate_inode_def by (rule held | assumption | simp)+

lemma fs_chmod_held [held]: "fs_held E opn s \<Longrightarrow> keeping E opn any (fs_chmod ino md s)"
  unfolding fs_chmod_def by (rule held | assumption | force simp: fs_now_def)+

lemma fs_chown_held [held]: "fs_held E opn s \<Longrightarrow> keeping E opn any (fs_chown ino u g s)"
  unfolding fs_chown_def by (rule held | assumption | force simp: fs_now_def)+

lemma fs_utimes_held [held]: "fs_held E opn s \<Longrightarrow> keeping E opn any (fs_utimes ino ta tm s)"
  unfolding fs_utimes_def by (rule held | assumption | force simp: fs_now_def)+

lemma fs_link_held [held]: "fs_held E opn s \<Longrightarrow> keeping E opn any (fs_link E parent n t s)"
  unfolding fs_link_def by (rule held | assumption | force simp: touch_defs)+

lemma rename_overwrite_held [held]:
  "fs_held E opn s \<Longrightarrow> dir_typed dh \<Longrightarrow> keeping E opn (\<lambda>(same, dh). dir_typed dh) (rename_overwrite E dh dn ino s)"
  unfolding rename_overwrite_def Let_def by (rule held | assumption | force simp: touch_defs)+

lemma touch_moved_held [held]: "fs_held E opn s \<Longrightarrow> keeping E opn any (touch_moved ino s)"
  unfolding touch_moved_def
  by (rule held | assumption | force simp: touch_defs fs_held_def intro: itable_get_typed)+

lemma rename_same_held [held]:
  "fs_held E opn s \<Longrightarrow> dir_typed sh \<Longrightarrow> keeping E opn any (rename_same E sp sh sn dn ino s)"
  unfolding rename_same_def by (rule held | assumption | force)+

lemma rename_across_held [held]:
  "fs_held E opn s \<Longrightarrow> dir_typed sh \<Longrightarrow> keeping E opn any (rename_across E sp sh sn dp dn ino s)"
  unfolding rename_across_def by (rule held | assumption | force)+

end
