(* ===== verification/Sessions.thy ===== *)
theory Sessions
  imports Frames
begin

text \<open>
  Sessions of the FUSE binding.  \<open>fuse_ok\<close> is what every request keeps: the inode table is well-typed,
  the file handles given to the kernel are fresh and distinct, and the open count of an inode is the
  number of its live handles.  A directory stream is read in pieces, between which any other requests
  are served, and still shows its snapshot exactly once.
\<close>

section \<open>Requests that leave the handles alone\<close>

definition fuse_kept :: "'d fs_env \<Rightarrow> 'd bfuse \<Rightarrow> 'd bfuse \<Rightarrow> bool" where
  "fuse_kept E b0 b = (fs_held E (fs_open (bf_fs b0)) (bf_fs b) \<and> bf_handles b = bf_handles b0 \<and>
     bf_dir_handles b = bf_dir_handles b0 \<and> bf_next_fh b = bf_next_fh b0)"

abbreviation serving :: "'d fs_env \<Rightarrow> 'd bfuse \<Rightarrow> (errno, 'a) res \<times> 'd bfuse \<Rightarrow> bool" where
  "serving E b0 \<equiv> okay (fuse_kept E b0) any any"

lemma on_fs_kept [held]:
  assumes "fuse_kept E b0 b" and "fs_held E (fs_open (bf_fs b0)) (bf_fs b) \<Longrightarrow> okay (fs_held E (fs_open (bf_fs b0))) Q Z (m (bf_fs b))"
  shows "serving E b0 (on_fs m b)"
  using assms by (auto simp: on_fs_def okay_def fuse_kept_def split: prod.splits)

lemma serving_bind: "serving E b0 (m b) \<Longrightarrow> (\<And>x b'. fuse_kept E b0 b' \<Longrightarrow> serving E b0 (k x b')) \<Longrightarrow> serving E b0 (st_bind m k b)"
  by (rule okay_bind)

lemma with_str_kept [held]: "fuse_kept E b0 b \<Longrightarrow> serving E b0 (k n b) \<Longrightarrow> serving E b0 (with_str n k b)"
  by (simp add: with_str_def okay_def)

lemma stat_hard [held]: "hard_res (fs_stat_of s ino)"
  unfolding fs_stat_of_def by (intro held)

lemma fuse_stat_kept [held]: "fuse_kept E b0 b \<Longrightarrow> serving E b0 (fuse_stat ino b)"
  unfolding fuse_stat_def by (rule held okay_read | assumption)+

lemma reply_entry_kept [held]: "fuse_kept E b0 b \<Longrightarrow> serving E b0 (reply_entry ino b)"
  unfolding reply_entry_def by (rule serving_bind held | assumption | simp)+

lemma snapshot_dir_held [held]: "fs_held E opn s \<Longrightarrow> keeping E opn any (snapshot_dir E ino s)"
  unfolding snapshot_dir_def by (rule held | assumption | simp)+

lemma fs_access_hard [held]: "hard_res (fs_access s ino msk u g gids)"
  unfolding fs_access_def Let_def by (intro held) simp_all

lemma fallocate_held: "fs_held E opn s \<Longrightarrow> okay (fs_held E opn) any any (fallocate s ino len, s)"
  by (simp add: okay_def)

lemma okay_if_app [held]: "(c \<Longrightarrow> okay P Q Z (f s)) \<Longrightarrow> (\<not> c \<Longrightarrow> okay P Q Z (g s)) \<Longrightarrow> okay P Q Z ((if c then f else g) s)"
  by simp

lemma okay_option_app [held]:
  "(x = None \<Longrightarrow> okay P Q Z (f s)) \<Longrightarrow> (\<And>y. x = Some y \<Longrightarrow> okay P Q Z (g y s)) \<Longrightarrow>
     okay P Q Z ((case x of None \<Rightarrow> f | Some y \<Rightarrow> g y) s)"
  by (simp split: option.split)

lemma namespace_kept [held]:
  assumes "fuse_kept E b0 b"
  shows "serving E b0 (fuse_lookup E p n b)" "serving E b0 (fuse_getattr i b)" "serving E b0 (fuse_readlink E i b)"
    "serving E b0 (fuse_mkdir E rq p n md b)" "serving E b0 (fuse_unlink E p n b)" "serving E b0 (fuse_rmdir E p n b)"
    "serving E b0 (fuse_symlink E rq p n t b)" "serving E b0 (fuse_link E i p n b)"
  unfolding fuse_lookup_def fuse_getattr_def fuse_readlink_def fuse_mkdir_def fuse_unlink_def fuse_rmdir_def
    fuse_symlink_def fuse_link_def
  by (rule serving_bind held okay_read assms | assumption | simp)+

lemma setattr_kept [held]: "fuse_kept E b0 b \<Longrightarrow> serving E b0 (fuse_setattr E i md u g sz ta tm na nm b)"
  unfolding fuse_setattr_def Let_def by (rule serving_bind held | assumption | simp)+

lemma file_kept [held]:
  assumes "fuse_kept E b0 b"
  shows "serving E b0 (fuse_read E i off sz b)" "serving E b0 (fuse_write E i off data b)" "serving E b0 (fuse_flush b)"
    "serving E b0 (fuse_fsync E b)" "serving E b0 (fuse_fallocate i len md b)" "serving E b0 (fuse_access rq i msk b)"
    "serving E b0 (fuse_statfs b)" "serving E b0 (fuse_readdir E full i fh off b)"
  unfolding fuse_read_def fuse_write_def fuse_flush_def fuse_fsync_def fuse_fallocate_def fuse_access_def fuse_statfs_def
    fuse_readdir_def Let_def
  by (rule serving_bind held okay_read fallocate_held assms | assumption | simp)+

lemma subdirs_hard [held]: "hard_res (subdirs s es)"
  by (induction es) (auto intro!: held)

lemma subtree_walk_hard: "subtree_walk E s target st = Some r \<Longrightarrow> hard_res r"
proof (induction E s target st r rule: subtree_walk.raw_induct [rotated, consumes 1, case_names step])
  case (step walk E s target st r)
  have h: "hard_res (res_bind (read_dir_pages E s d) (subdirs s))" for d by (intro held)
  from step show ?case by (auto simp: held intro: hard_res_intros hard_resD [OF h] split: list.splits if_splits res.splits)
qed

lemma rename_loops_hard: "rename_loops E s sp dp ino = Some (Err e) \<Longrightarrow> hard e"
  by (auto simp: rename_loops_def dir_subtree_contains_def dest: subtree_walk_hard [THEN hard_resD] split: if_splits res.splits)

lemma fs_rename_held: "fs_held E opn s \<Longrightarrow> fs_rename E sp sn dp dn s = Some out \<Longrightarrow> keeping E opn any out"
proof -
  assume s: "fs_held E opn s" and r: "fs_rename E sp sn dp dn s = Some out"
  obtain r1 s1 where c: "checkout_dir E sp s = (r1, s1)" by fastforce
  have k: "fs_held E opn s1" "\<And>h. r1 = Ok h \<Longrightarrow> dir_typed h" "\<And>e. r1 = Err e \<Longrightarrow> hard e"
    using checkout_dir_held [OF s, of sp] by (simp_all add: c okay_def)
  show ?thesis
  proof (cases r1)
    case (Ok sh)
    consider "out = (Err NotFound, s1)" | "out = (Err Invalid, s1)" | e where "\<exists>i. rename_loops E s1 sp dp i = Some (Err e)" "out = (Err e, s1)"
      | "out = (Panic, s1)" | ino where "out = rename_same E sp sh sn dn ino s1" | ino where "out = rename_across E sp sh sn dp dn ino s1"
      using r by (auto simp: fs_rename_def c Ok split: option.splits if_splits res.splits bool.splits)
    then show ?thesis
    proof cases
      case 3
      then show ?thesis using k(1) by (auto intro: okay_Err rename_loops_hard)
    qed (use k Ok in \<open>auto intro: held\<close>)
  qed (use r k in \<open>auto simp: fs_rename_def c okay_def\<close>)
qed

lemma rename_kept: "fuse_kept E b0 b \<Longrightarrow> fuse_rename E p n q m b = Some out \<Longrightarrow> serving E b0 out"
proof -
  assume k: "fuse_kept E b0 b" and r: "fuse_rename E p n q m b = Some out"
  show ?thesis
  proof (cases "fs_rename E (id_of p) n (id_of q) m (bf_fs b)")
    case (Some x)
    have "fs_held E (fs_open (bf_fs b0)) (snd x)"
      using fs_rename_held [OF _ Some] k by (simp add: fuse_kept_def okay_def)
    then show ?thesis using k r by (auto simp: fuse_rename_def Some okay_def fuse_kept_def split: if_splits prod.splits)
  qed (use k r in \<open>auto simp: fuse_rename_def okay_def split: if_splits\<close>)
qed

section \<open>Handles and open counts\<close>

definition live :: "(u64 \<times> handle) list \<Rightarrow> u64 \<Rightarrow> nat" where
  "live hs ino = length (filter (\<lambda>(fh, h). hd_id h = ino) hs)"

definition fuse_ok :: "'d fs_env \<Rightarrow> nat \<Rightarrow> 'd bfuse \<Rightarrow> bool" where
  "fuse_ok E n b =
     (fs_held E (fs_open (bf_fs b)) (bf_fs b) \<and> n < 2 ^ 32 \<and> bf_next_fh b = of_nat n \<and>
      distinct (map fst (bf_handles b)) \<and> (\<forall>(fh, h) \<in> set (bf_handles b). unat fh < n \<and> \<not> hd_closed h) \<and>
      (\<forall>(fh, snap) \<in> set (bf_dir_handles b). unat fh < n) \<and>
      (\<forall>ino. open_count_of (bf_fs b) ino = of_nat (live (bf_handles b) ino)))"

lemma fuse_okD:
  assumes "fuse_ok E n b"
  shows "fs_held E (fs_open (bf_fs b)) (bf_fs b)" "n < 2 ^ 32" "bf_next_fh b = of_nat n" "distinct (map fst (bf_handles b))"
    "\<And>fh h. (fh, h) \<in> set (bf_handles b) \<Longrightarrow> unat fh < n \<and> \<not> hd_closed h"
    "\<And>fh sn. (fh, sn) \<in> set (bf_dir_handles b) \<Longrightarrow> unat fh < n"
    "\<And>ino. open_count_of (bf_fs b) ino = of_nat (live (bf_handles b) ino)"
  using assms by (auto simp: fuse_ok_def)

lemma kept_refl: "fuse_ok E n b \<Longrightarrow> fuse_kept E b b"
  by (simp add: fuse_ok_def fuse_kept_def)

lemma kept_ok: "fuse_ok E n b \<Longrightarrow> fuse_kept E b b' \<Longrightarrow> fuse_ok E n b'"
  by (auto simp: fuse_ok_def fuse_kept_def fs_held_def open_count_of_def)

lemma serving_ok: "fuse_ok E n b \<Longrightarrow> serving E b (r, b') \<Longrightarrow> fuse_ok E n b'"
  using kept_ok okayD(1) by fastforce

text \<open>There are at most as many handles as were given out, so the counts do not wrap.\<close>

lemma live_bound: "fuse_ok E n b \<Longrightarrow> live (bf_handles b) ino \<le> n"
proof -
  assume ok: "fuse_ok E n b"
  let ?ks = "map (unat \<circ> fst) (bf_handles b)"
  have "distinct ?ks" using fuse_okD(4) [OF ok] by (simp add: comp_inj_on distinct_map inj_on_def word_unat_eq_iff)
  moreover have "set ?ks \<subseteq> {0..<n}" using fuse_okD(5) [OF ok] by fastforce
  ultimately have "length ?ks \<le> card {0..<n}" by (metis card_mono distinct_card finite_atLeastLessThan)
  moreover have "live (bf_handles b) ino \<le> length (bf_handles b)" by (simp add: live_def)
  ultimately show ?thesis by simp
qed

lemma open_count_update: "open_count_of (s\<lparr>fs_open := AList.update i c (fs_open s)\<rparr>) j = (if j = i then c else open_count_of s j)"
  by (simp add: open_count_of_def update_conv')

lemma open_count_delete: "open_count_of (s\<lparr>fs_open := AList.delete i (fs_open s)\<rparr>) j = (if j = i then 0 else open_count_of s j)"
  by (simp add: open_count_of_def delete_conv')

lemma fs_open_file_cases:
  assumes "fs_open_file ino s = (r, s')"
  obtains "r = Ok \<lparr>hd_id = ino, hd_closed = False\<rparr>" "s' = s\<lparr>fs_open := AList.update ino (open_count_of s ino + 1) (fs_open s)\<rparr>"
    | "\<nexists>h. r = Ok h" "s' = s"
  using assms by (auto simp: fs_open_file_def st_bind_def split: res.splits)

text \<open>\<open>close\<close> takes one off the count, whatever becomes of the inode.\<close>

lemma fs_close_counts:
  assumes s: "fs_held E (fs_open s) s" and h: "\<not> hd_closed h" and c: "open_count_of s (hd_id h) > 0"
    and w: "fs_close E h s = (r, h', s')"
  shows "fs_held E (fs_open s') s' \<and> (\<forall>j. open_count_of s' j = (if j = hd_id h then open_count_of s j - 1 else open_count_of s j))"
proof -
  let ?ino = "hd_id h"
  obtain v where v: "map_of (fs_open s) ?ino = Some v" "v > 0" using c by (auto simp: open_count_of_def split: option.splits)
  define s1 where "s1 = s\<lparr>fs_open := AList.update ?ino (v - 1) (fs_open s)\<rparr>"
  have s1: "fs_held E (fs_open s1) s1" "\<And>j. open_count_of s1 j = (if j = ?ino then open_count_of s j - 1 else open_count_of s j)"
    using s v(1) by (simp_all add: s1_def fs_held_def open_count_update) (simp add: open_count_of_def)
  show ?thesis
  proof (cases "open_count_of s1 ?ino = 0")
    case True
    define s2 where "s2 = s1\<lparr>fs_open := AList.delete ?ino (fs_open s1)\<rparr>"
    have s2: "fs_held E (fs_open s2) s2" "\<And>j. open_count_of s2 j = open_count_of s1 j"
      using s1(1) True by (simp_all add: s2_def fs_held_def open_count_delete)
    have "keeping E (fs_open s2) any (st_bind (get_inode ?ino) (\<lambda>i s. if nlink i = 0 then reclaim E ?ino i s else (Ok (), s)) s2)"
      by (rule held s2 | assumption | simp)+
    moreover have "st_bind (get_inode ?ino) (\<lambda>i s. if nlink i = 0 then reclaim E ?ino i s else (Ok (), s)) s2 = (r, s')"
      using w h v True by (simp add: fs_close_def s1_def [symmetric] s2_def [symmetric] Let_def cong: if_cong split: prod.splits)
    ultimately have "fs_held E (fs_open s2) s'" by (simp add: okay_def)
    then show ?thesis using s1(2) s2(2) by (auto simp: fs_held_def open_count_of_def)
  next
    case False
    then have "s' = s1" using w h v by (simp add: fs_close_def s1_def [symmetric] Let_def)
    then show ?thesis using s1 by simp
  qed
qed

lemma fresh_handle:
  assumes ok: "fuse_ok E n b"
  shows "(of_nat n :: u64) \<notin> fst ` set (bf_handles b)" "(of_nat n :: u64) \<notin> fst ` set (bf_dir_handles b)"
proof -
  have n: "unat (of_nat n :: u64) = n" using fuse_okD(2) [OF ok] by simp
  show "(of_nat n :: u64) \<notin> fst ` set (bf_handles b)" using fuse_okD(5) [OF ok, of "of_nat n"] n by auto
  show "(of_nat n :: u64) \<notin> fst ` set (bf_dir_handles b)" using fuse_okD(6) [OF ok, of "of_nat n"] n by auto
qed

lemma fuse_ok_opened:
  assumes ok: "fuse_ok E n b" and n: "Suc n < 2 ^ 32" and s: "fs_held E (fs_open s) s"
    and c: "\<And>j. open_count_of s j = (if j = ino then open_count_of (bf_fs b) j + 1 else open_count_of (bf_fs b) j)"
    and i: "insert_handle \<lparr>hd_id = ino, hd_closed = False\<rparr> (b\<lparr>bf_fs := s\<rparr>) = (fh, b')"
  shows "fuse_ok E (Suc n) b'"
proof -
  note d = fuse_okD [OF ok]
  let ?h = "\<lparr>hd_id = ino, hd_closed = False\<rparr>"
  have b': "bf_fs b' = s" "bf_next_fh b' = of_nat (Suc n)" "bf_handles b' = bf_handles b @ [(of_nat n, ?h)]" "bf_dir_handles b' = bf_dir_handles b"
    using i d(3) update_fresh [OF fresh_handle(1) [OF ok], of ?h] by (auto simp: insert_handle_def add.commute)
  have u: "unat (of_nat n :: u64) = n" using d(2) by simp
  have "distinct (map fst (bf_handles b'))" using d(4) fresh_handle(1) [OF ok] by (simp add: b')
  moreover have "\<forall>(fh, h) \<in> set (bf_handles b'). unat fh < Suc n \<and> \<not> hd_closed h" using d(5) u by (auto simp: b' less_SucI)
  moreover have "\<forall>(fh, sn) \<in> set (bf_dir_handles b'). unat fh < Suc n" using d(6) by (auto simp: b' less_SucI)
  moreover have "open_count_of (bf_fs b') j = of_nat (live (bf_handles b') j)" for j using c d(7) by (simp add: b' live_def add.commute)
  ultimately show ?thesis using s n by (simp add: fuse_ok_def b')
qed

lemma fuse_ok_counts:
  "fuse_ok E n b \<Longrightarrow> fs_held E (fs_open s) s \<Longrightarrow> (\<And>j. open_count_of s j = open_count_of (bf_fs b) j) \<Longrightarrow> fuse_ok E n (b\<lparr>bf_fs := s\<rparr>)"
  by (auto simp: fuse_ok_def)

definition after :: "'d fs_env \<Rightarrow> nat \<Rightarrow> 'd bfuse \<Rightarrow> bool" where
  "after E n b = (fuse_ok E n b \<or> fuse_ok E (Suc n) b)"

lemma opened_count:
  assumes ok: "fuse_ok E n b" and n: "Suc n < 2 ^ 32"
  shows "open_count_of (bf_fs b) ino + 1 \<noteq> 0"
proof -
  have l: "Suc (live (bf_handles b) ino) < 2 ^ 32" using live_bound [OF ok, of ino] n by linarith
  then have "unat (of_nat (Suc (live (bf_handles b) ino)) :: u32) = Suc (live (bf_handles b) ino)" by (intro unat_of_nat_small) simp
  then have "(of_nat (Suc (live (bf_handles b) ino)) :: u32) \<noteq> 0" by (metis Suc_not_Zero unat_0)
  then show ?thesis using fuse_okD(7) [OF ok, of ino] by (simp add: add.commute)
qed

lemma open_ok:
  assumes ok: "fuse_ok E n b" and n: "Suc n < 2 ^ 32" and w: "fuse_open E i fl b = (r, b')" "r \<noteq> Panic"
  shows "after E n b'"
proof -
  obtain r1 s1 where o: "fs_open_file (id_of i) (bf_fs b) = (r1, s1)" by fastforce
  from o show ?thesis
  proof (cases rule: fs_open_file_cases)
    case 1
    let ?h = "\<lparr>hd_id = id_of i, hd_closed = False\<rparr>"
    obtain r2 b2 where t: "(if fl AND O_TRUNC \<noteq> 0 then on_fs (fs_truncate E (id_of i) 0) (b\<lparr>bf_fs := s1\<rparr>) else (Ok (), b\<lparr>bf_fs := s1\<rparr>)) = (r2, b2)"
      by fastforce
    have c1: "open_count_of s1 j = (if j = id_of i then open_count_of (bf_fs b) j + 1 else open_count_of (bf_fs b) j)" for j
      by (simp add: 1 open_count_update)
    have s1: "fs_held E (fs_open s1) s1" using fuse_okD(1) [OF ok] by (simp add: 1 fs_held_def)
    have "keeping E (fs_open s1) any (fs_truncate E (id_of i) 0 s1)" by (rule fs_truncate_held [OF s1])
    then obtain s2 where s2: "b2 = b\<lparr>bf_fs := s2\<rparr>" "fs_held E (fs_open s1) s2"
      using t s1 by (auto simp: on_fs_def okay_def split: if_splits prod.splits)
    then have k2: "fs_held E (fs_open s2) s2" "\<And>j. open_count_of s2 j = open_count_of s1 j" by (simp_all add: fs_held_def open_count_of_def)
    have w': "(case r2 of Ok _ \<Rightarrow> (case insert_handle ?h b2 of (fh, b) \<Rightarrow> (Ok (ROpened fh), b)) | Panic \<Rightarrow> (Panic, b2)
        | Err e \<Rightarrow> (case fs_close E ?h s2 of (Panic, _, s) \<Rightarrow> (Panic, b\<lparr>bf_fs := s2, bf_fs := s\<rparr>) | (_, _, s) \<Rightarrow> (Err e, b\<lparr>bf_fs := s2, bf_fs := s\<rparr>))) = (r, b')"
      using w(1) o t s2(1) by (simp add: fuse_open_def on_fs_def [of "fs_open_file _"] 1(1) Let_def st_bind_def split: res.splits)
    show ?thesis
    proof (cases r2)
      case (Ok u)
      then have "insert_handle ?h (b\<lparr>bf_fs := s2\<rparr>) = (fst (insert_handle ?h b2), b')" using w' s2(1) by (auto split: prod.splits)
      from fuse_ok_opened [OF ok n k2(1) _ this] show ?thesis using k2(2) c1 by (simp add: after_def)
    next
      case (Err e)
      obtain r3 h3 s3 where c: "fs_close E ?h s2 = (r3, h3, s3)" by (cases "fs_close E ?h s2") auto
      have "open_count_of s2 (hd_id ?h) > 0" using opened_count [OF ok n, of "id_of i"] k2(2) c1 by (simp add: word_gt_0)
      from fs_close_counts [OF k2(1) _ this c] have "fs_held E (fs_open s3) s3" "\<And>j. open_count_of s3 j = open_count_of (bf_fs b) j"
        using k2(2) c1 by simp_all
      then have "fuse_ok E n (b\<lparr>bf_fs := s3\<rparr>)" by (rule fuse_ok_counts [OF ok])
      moreover have "b' = b\<lparr>bf_fs := s3\<rparr>" using w' c Err s2(1) by (auto split: res.splits)
      ultimately show ?thesis by (simp add: after_def)
    qed (use w' w(2) in auto)
  next
    case 2
    then have "b' = b\<lparr>bf_fs := bf_fs b\<rparr>" using w(1) o by (cases r1) (auto simp: fuse_open_def on_fs_def Let_def st_bind_def)
    then show ?thesis using ok by (simp add: after_def)
  qed
qed

lemma okay_last:
  "okay P any Z (m s) \<Longrightarrow> (\<And>x s'. P s' \<Longrightarrow> okay P' Q' Z (k x s')) \<Longrightarrow> (\<And>s. P s \<Longrightarrow> P' s) \<Longrightarrow> okay P' Q' Z (st_bind m k s)"
  by (auto simp: okay_def st_bind_def split: prod.splits res.splits)

lemma create_opened:
  assumes ok: "fuse_ok E n b" and n: "Suc n < 2 ^ 32"
  shows "okay (after E n) any any (st_bind (on_fs (fs_open_file ino)) (\<lambda>h b.
    case insert_handle h b of (fh, b) \<Rightarrow> (Ok (RCreated TTL a g fh), b)) b)"
proof -
  obtain r1 s1 where o: "fs_open_file ino (bf_fs b) = (r1, s1)" by fastforce
  from o show ?thesis
  proof (cases rule: fs_open_file_cases)
    case 1
    let ?h = "\<lparr>hd_id = ino, hd_closed = False\<rparr>"
    obtain fh b' where i: "insert_handle ?h (b\<lparr>bf_fs := s1\<rparr>) = (fh, b')" by fastforce
    have "fs_held E (fs_open s1) s1" using fuse_okD(1) [OF ok] by (simp add: 1 fs_held_def)
    from fuse_ok_opened [OF ok n this _ i] show ?thesis
      using i o 1 by (simp add: okay_def st_bind_def on_fs_def open_count_update after_def)
  next
    case 2
    then show ?thesis using ok o by (cases r1) (auto simp: okay_def st_bind_def on_fs_def after_def)
  qed
qed

lemma create_ok:
  assumes ok: "fuse_ok E n b" and n: "Suc n < 2 ^ 32"
  shows "okay (after E n) any any (fuse_create E rq p nm md b)"
proof -
  have a: "after E n b'" if "fuse_kept E b b'" for b' using kept_ok [OF ok that] by (simp add: after_def)
  have c: "okay (after E n) any any (st_bind (on_fs (fs_open_file ino)) (\<lambda>h b.
      case insert_handle h b of (fh, b) \<Rightarrow> (Ok (RCreated TTL fa g fh), b)) b')" if "fuse_kept E b b'" for b' ino fa g
    by (rule create_opened [OF kept_ok [OF ok that] n])
  show ?thesis
  proof (cases "is_utf8 nm")
    case True
    show ?thesis unfolding fuse_create_def with_str_def if_P [OF True]
      by (rule c okay_last [where P = "fuse_kept E b"] held kept_refl [OF ok] a | assumption)+
  next
    case False
    then show ?thesis using ok by (simp add: fuse_create_def with_str_def okay_def after_def)
  qed
qed

lemma live_delete:
  assumes "map_of hs fh = Some h" "distinct (map fst hs)"
  shows "live hs j = live (AList.delete fh hs) j + (if j = hd_id h then 1 else 0)"
proof -
  obtain xs ys where hs: "hs = xs @ (fh, h) # ys" "AList.delete fh hs = xs @ ys" by (rule alist_split [OF assms])
  show ?thesis unfolding hs(2) by (simp add: live_def hs(1))
qed

lemma release_ok:
  assumes ok: "fuse_ok E n b" and w: "fuse_release E fh b = (r, b')"
  shows "fuse_ok E n b'"
proof (cases "map_of (bf_handles b) fh")
  case (Some h)
  note d = fuse_okD [OF ok]
  obtain r1 h1 s1 where c: "fs_close E h (bf_fs b) = (r1, h1, s1)" by (cases "fs_close E h (bf_fs b)") auto
  note l = live_delete [OF Some d(4)]
  have "0 < live (bf_handles b) (hd_id h)" "live (bf_handles b) (hd_id h) < 2 ^ 32"
    using l [of "hd_id h"] live_bound [OF ok, of "hd_id h"] d(2) by simp_all
  then have "open_count_of (bf_fs b) (hd_id h) > 0" using d(7) by (simp add: word_less_nat_alt)
  moreover have "\<not> hd_closed h" using d(5) map_of_SomeD [OF Some] by blast
  ultimately have k: "fs_held E (fs_open s1) s1"
      "\<And>j. open_count_of s1 j = (if j = hd_id h then open_count_of (bf_fs b) j - 1 else open_count_of (bf_fs b) j)"
    using fs_close_counts [OF d(1) _ _ c] by auto
  have b': "bf_fs b' = s1" "bf_handles b' = AList.delete fh (bf_handles b)" "bf_dir_handles b' = bf_dir_handles b" "bf_next_fh b' = bf_next_fh b"
    using w Some c by (auto simp: fuse_release_def)
  have "set (bf_handles b') \<subseteq> set (bf_handles b)" by (auto simp: b' AList.delete_eq)
  moreover have "open_count_of s1 j = of_nat (live (bf_handles b') j)" for j unfolding k(2) d(7) l [of j] b' by simp
  moreover have "distinct (map fst (bf_handles b'))" using d(4) by (simp add: b' distinct_delete)
  ultimately show ?thesis using k(1) d(2,3,6) d(5) unfolding fuse_ok_def b' by blast
qed (use ok w in \<open>simp add: fuse_release_def\<close>)

lemma opendir_ok:
  assumes ok: "fuse_ok E n b" and n: "Suc n < 2 ^ 32" and w: "fuse_opendir E i b = (r, b')"
  shows "after E n b'"
proof -
  obtain r1 b1 where s: "on_fs (snapshot_dir E i) b = (r1, b1)" by fastforce
  have "serving E b (on_fs (snapshot_dir E i) b)" by (rule held kept_refl [OF ok] | assumption)+
  then have ok1: "fuse_ok E n b1" using serving_ok [OF ok] s by metis
  show ?thesis
  proof (cases r1)
    case (Ok sn)
    note d = fuse_okD [OF ok1]
    have b': "b' = b1\<lparr>bf_next_fh := of_nat (Suc n), bf_dir_handles := bf_dir_handles b1 @ [(of_nat n, sn)]\<rparr>"
      using w s Ok d(3) update_fresh [OF fresh_handle(2) [OF ok1], of sn] by (auto simp: fuse_opendir_def st_bind_def add.commute)
    have "unat (of_nat n :: u64) = n" using d(2) by simp
    then have "\<forall>(fh, sn) \<in> set (bf_dir_handles b'). unat fh < Suc n" using d(6) by (auto simp: b' less_SucI)
    moreover have "\<forall>(fh, h) \<in> set (bf_handles b'). unat fh < Suc n \<and> \<not> hd_closed h" using d(5) by (auto simp: b' less_SucI)
    ultimately have "fuse_ok E (Suc n) b'" using d n by (simp add: fuse_ok_def b')
    then show ?thesis by (simp add: after_def)
  qed (use w s ok1 in \<open>auto simp: fuse_opendir_def st_bind_def after_def\<close>)
qed

lemma releasedir_ok: "fuse_ok E n b \<Longrightarrow> fuse_releasedir fh b = (r, b') \<Longrightarrow> fuse_ok E n b'"
  by (auto simp: fuse_releasedir_def fuse_ok_def AList.delete_eq)

text \<open>Every request keeps the invariant.\<close>

lemma served: "fuse_ok E n b \<Longrightarrow> serving E b out \<Longrightarrow> out = (r, b') \<Longrightarrow> after E n b'"
  using serving_ok by (auto simp: after_def)

lemma handle_ok:
  assumes ok: "fuse_ok E n b" and n: "Suc n < 2 ^ 32" and w: "fuse_handle E req b = Some (r, b')" "r \<noteq> Panic"
  shows "after E n b'"
proof -
  note k = kept_refl [OF ok]
  note kept = namespace_kept [OF k, THEN served [OF ok]] setattr_kept [OF k, THEN served [OF ok]] file_kept [OF k, THEN served [OF ok]]
  show ?thesis
  proof (cases req)
    case (Create rq p nm md)
    then show ?thesis using create_ok [OF ok n, of rq p nm md] w(1) by (simp add: okay_def)
  next
    case (Rename p nm q m)
    then have "fuse_rename E p nm q m b = Some (r, b')" using w(1) by simp
    from served [OF ok rename_kept [OF k this] refl] show ?thesis .
  next
    case (Release fh)
    then show ?thesis using release_ok [OF ok] w(1) by (simp add: after_def)
  next
    case (Releasedir fh)
    then show ?thesis using releasedir_ok [OF ok] w(1) by (simp add: after_def)
  qed (use w in \<open>simp_all add: open_ok [OF ok n] opendir_ok [OF ok n] kept\<close>)
qed

lemma run_ok:
  "fuse_ok E n b \<Longrightarrow> n + length reqs < 2 ^ 32 \<Longrightarrow> fuse_run E reqs b = Some b' \<Longrightarrow> \<exists>n' \<le> n + length reqs. n \<le> n' \<and> fuse_ok E n' b'"
proof (induction reqs arbitrary: n b)
  case (Cons r rs)
  obtain res b1 where h: "fuse_handle E r b = Some (res, b1)" "res \<noteq> Panic" "fuse_run E rs b1 = Some b'"
    using Cons.prems(3) by (auto split: option.splits prod.splits res.splits)
  have "after E n b1" using handle_ok [OF Cons.prems(1) _ h(1,2)] Cons.prems(2) by simp
  then consider "fuse_ok E n b1" | "fuse_ok E (Suc n) b1" by (auto simp: after_def)
  then show ?case
  proof cases
    case 1
    from Cons.IH [OF this _ h(3)] Cons.prems(2) show ?thesis by (auto intro: le_SucI)
  next
    case 2
    from Cons.IH [OF this _ h(3)] Cons.prems(2) show ?thesis by (auto intro: Suc_leD)
  qed
qed auto

section \<open>Directory streams\<close>

abbreviation streams_kept :: "(u64 \<times> snap_entry list) list \<Rightarrow> (errno, 'a) res \<times> 'd bfuse \<Rightarrow> bool" where
  "streams_kept D \<equiv> okay (\<lambda>b. bf_dir_handles b = D) any any"

lemma streams_bind:
  "streams_kept D (m b) \<Longrightarrow> (\<And>x b'. bf_dir_handles b' = D \<Longrightarrow> streams_kept D (k x b')) \<Longrightarrow> streams_kept D (st_bind m k b)"
  by (rule okay_bind)

lemma on_fs_streams: "bf_dir_handles b = D \<Longrightarrow> streams_kept D (on_fs m b)"
  by (auto simp: on_fs_def okay_def split: prod.splits)

lemma insert_streams: "bf_dir_handles b = D \<Longrightarrow> streams_kept D (case insert_handle h b of (fh, b) \<Rightarrow> (Ok (f fh), b))"
  by (simp add: insert_handle_def okay_def)

lemma create_dirs: "bf_dir_handles b = D \<Longrightarrow> streams_kept D (fuse_create E rq p nm md b)"
  unfolding fuse_create_def with_str_def fuse_stat_def
  by (rule okay_if streams_bind on_fs_streams insert_streams okay_Err | assumption | simp)+

lemma open_dirs: "fuse_open E i fl b = (r, b') \<Longrightarrow> bf_dir_handles b' = bf_dir_handles b"
  by (auto simp: fuse_open_def Let_def st_bind_def on_fs_def insert_handle_def split: prod.splits res.splits if_splits)

lemma release_dirs: "fuse_release E fh b = (r, b') \<Longrightarrow> bf_dir_handles b' = bf_dir_handles b"
  by (auto simp: fuse_release_def split: option.splits prod.splits)

lemma opendir_cases:
  assumes "fuse_opendir E i b = (r, b')"
  obtains snap s where "snapshot_dir E i (bf_fs b) = (Ok snap, s)" "r = Ok (ROpened (bf_next_fh b))"
      "b' = b\<lparr>bf_fs := s, bf_next_fh := bf_next_fh b + 1, bf_dir_handles := AList.update (bf_next_fh b) snap (bf_dir_handles b)\<rparr>"
    | "\<nexists>x. r = Ok x" "bf_dir_handles b' = bf_dir_handles b"
  using assms by (auto simp: fuse_opendir_def on_fs_def st_bind_def split: prod.splits res.splits)

lemma served_dirs: "serving E b out \<Longrightarrow> out = (r, b') \<Longrightarrow> bf_dir_handles b' = bf_dir_handles b"
  by (auto simp: okay_def fuse_kept_def)

text \<open>The snapshot of an open stream stays while it is not released.\<close>

lemma handle_snapshot:
  assumes ok: "fuse_ok E n b" and w: "fuse_handle E req b = Some (r, b')"
    and sn: "map_of (bf_dir_handles b) fh = Some snap" and req: "req \<noteq> Releasedir fh"
  shows "map_of (bf_dir_handles b') fh = Some snap"
proof -
  note k = kept_refl [OF ok]
  note kept = namespace_kept [OF k, THEN served_dirs] setattr_kept [OF k, THEN served_dirs] file_kept [OF k, THEN served_dirs]
    open_dirs release_dirs
  show ?thesis
  proof (cases req)
    case (Create rq p nm md)
    then show ?thesis using create_dirs [OF refl, of b E rq p nm md] w sn by (simp add: okay_def)
  next
    case (Rename p nm q m)
    then have "fuse_rename E p nm q m b = Some (r, b')" using w by simp
    from served_dirs [OF rename_kept [OF k this] refl] show ?thesis using sn by simp
  next
    case (Opendir i)
    then have "fuse_opendir E i b = (r, b')" using w by simp
    then show ?thesis
    proof (cases rule: opendir_cases)
      case (1 snap' s)
      have "fh \<noteq> of_nat n" using fresh_handle(2) [OF ok] sn by (force dest: map_of_SomeD)
      then show ?thesis using sn fuse_okD(3) [OF ok] by (simp add: 1 update_conv')
    qed (use sn in simp)
  next
    case (Releasedir fh')
    then show ?thesis using w sn req by (auto simp: fuse_releasedir_def delete_conv')
  qed (use w sn in \<open>simp_all add: kept\<close>)
qed

lemma run_snapshot:
  assumes "fuse_ok E n b" "n + length reqs < 2 ^ 32" "fuse_run E reqs b = Some b'"
    and "map_of (bf_dir_handles b) fh = Some snap" "Releasedir fh \<notin> set reqs"
  shows "map_of (bf_dir_handles b') fh = Some snap"
  using assms
proof (induction reqs arbitrary: n b)
  case (Cons r rs)
  obtain res b1 where h: "fuse_handle E r b = Some (res, b1)" "res \<noteq> Panic" "fuse_run E rs b1 = Some b'"
    using Cons.prems(3) by (auto split: option.splits prod.splits res.splits)
  have sn: "map_of (bf_dir_handles b1) fh = Some snap" using handle_snapshot [OF Cons.prems(1) h(1) Cons.prems(4)] Cons.prems(5) by auto
  have "after E n b1" using handle_ok [OF Cons.prems(1) _ h(1,2)] Cons.prems(2) by simp
  then show ?case using Cons.IH [OF _ _ h(3) sn] Cons.prems(2,5) by (auto simp: after_def)
qed simp

text \<open>A reply holds the next entries, at least one while there are any.\<close>

definition rows_of :: "nat \<Rightarrow> nat \<Rightarrow> snap_entry list \<Rightarrow> dir_row list" where
  "rows_of k m snap = map (\<lambda>i. (of_nat (i + 1), snap ! i)) [k..<k + m]"

lemma add_rows_prefix:
  assumes "k \<le> length snap"
  shows "\<exists>m. k + m \<le> length snap \<and> add_rows full (drop k (List.enumerate 0 snap)) rows = rows @ rows_of k m snap \<and>
    (k < length snap \<and> (\<forall>row. \<not> full rows row) \<longrightarrow> 0 < m)"
  using assms
proof (induction "length snap - k" arbitrary: k rows)
  case 0
  then show ?case by (intro exI [of _ 0]) (simp add: rows_of_def)
next
  case (Suc d)
  then have k: "k < length snap" and k': "Suc k \<le> length snap" and d: "d = length snap - Suc k" by simp_all
  have e: "drop k (List.enumerate 0 snap) = (k, snap ! k) # drop (Suc k) (List.enumerate 0 snap)"
    using k by (simp add: Cons_nth_drop_Suc [symmetric] nth_enumerate_eq)
  show ?case
  proof (cases "full rows (of_nat (k + 1), snap ! k)")
    case True
    then show ?thesis using k by (intro exI [of _ 0]) (auto simp: e rows_of_def)
  next
    case False
    obtain m where m: "Suc k + m \<le> length snap"
        "add_rows full (drop (Suc k) (List.enumerate 0 snap)) (rows @ [(of_nat (k + 1), snap ! k)]) =
          (rows @ [(of_nat (k + 1), snap ! k)]) @ rows_of (Suc k) m snap"
      using Suc.hyps(1) [OF d k', of "rows @ [(of_nat (k + 1), snap ! k)]"] by blast
    have "rows_of k (Suc m) snap = (of_nat (k + 1), snap ! k) # rows_of (Suc k) m snap"
      by (simp add: rows_of_def upt_conv_Cons del: upt_Suc)
    then show ?thesis using m False by (intro exI [of _ "Suc m"]) (simp add: e)
  qed
qed

lemma readdir_rows:
  assumes sn: "map_of (bf_dir_handles b) fh = Some snap" and k: "k \<le> length snap" "length snap < 2 ^ 64"
  obtains m where "k + m \<le> length snap" "fuse_readdir E full ino fh (of_nat k) b = (Ok (RRows (rows_of k m snap)), b)"
    "k < length snap \<and> (\<forall>row. \<not> full [] row) \<longrightarrow> 0 < m"
proof -
  have "unat (of_nat k :: u64) = k" using k by simp
  then show thesis
    using add_rows_prefix [OF k(1), of full "[]"] that sn by (auto simp: fuse_readdir_def st_bind_def st_return_def)
qed

text \<open>A client that reads a directory to its end: before each call other requests are served, each call
  resumes at the cookie of the last row it got, and an empty reply ends the stream.  \<open>None\<close> when the
  session ended.\<close>

fun scan ::
  "'d fs_env \<Rightarrow> u64 \<Rightarrow> u64 \<Rightarrow> u64 \<Rightarrow> (fuse_request list \<times> (dir_row list \<Rightarrow> dir_row \<Rightarrow> bool)) list \<Rightarrow> 'd bfuse \<Rightarrow> dir_row list option" where
  "scan E ino fh cookie [] b = Some []"
| "scan E ino fh cookie ((reqs, full) # calls) b =
     (case fuse_run E reqs b of
        None \<Rightarrow> None
      | Some b \<Rightarrow>
        (case fuse_readdir E full ino fh cookie b of
           (Ok (RRows rows), b) \<Rightarrow>
             if rows = [] then Some [] else map_option (append rows) (scan E ino fh (fst (last rows)) calls b)
         | _ \<Rightarrow> None))"

lemma scan_rest:
  assumes "fuse_ok E n b" "n + length (concat (map fst calls)) < 2 ^ 32" "map_of (bf_dir_handles b) fh = Some snap"
    and "length snap < 2 ^ 64" "k \<le> length snap" "length snap - k \<le> length calls"
    and "\<forall>(reqs, full) \<in> set calls. Releasedir fh \<notin> set reqs \<and> (\<forall>row. \<not> full [] row)"
    and "scan E ino fh (of_nat k) calls b = Some rows"
  shows "rows = rows_of k (length snap - k) snap"
  using assms
proof (induction calls arbitrary: n b k rows)
  case Nil
  then show ?case by (simp add: rows_of_def)
next
  case (Cons c calls)
  obtain reqs full where c: "c = (reqs, full)" by fastforce
  obtain b1 where r: "fuse_run E reqs b = Some b1" using Cons.prems(8) by (auto simp: c split: option.splits)
  have nr: "Releasedir fh \<notin> set reqs" "\<forall>row. \<not> full [] row" "n + length reqs < 2 ^ 32" using Cons.prems(2,7) by (auto simp: c)
  obtain n1 where n1: "n1 \<le> n + length reqs" "fuse_ok E n1 b1" using run_ok [OF Cons.prems(1) nr(3) r] by blast
  have sn: "map_of (bf_dir_handles b1) fh = Some snap" by (rule run_snapshot [OF Cons.prems(1) nr(3) r Cons.prems(3) nr(1)])
  obtain m where m: "k + m \<le> length snap" "fuse_readdir E full ino fh (of_nat k) b1 = (Ok (RRows (rows_of k m snap)), b1)"
      "k < length snap \<and> (\<forall>row. \<not> full [] row) \<longrightarrow> 0 < m"
    by (rule readdir_rows [OF sn Cons.prems(5,4)])
  show ?case
  proof (cases "m = 0")
    case True
    then have "k = length snap" using m(3) nr(2) Cons.prems(5) by simp
    then show ?thesis using Cons.prems(8) m(2) True by (simp add: c r rows_of_def)
  next
    case False
    have l: "fst (last (rows_of k m snap)) = of_nat (k + m)" "rows_of k m snap \<noteq> []" using False by (simp_all add: rows_of_def last_map)
    obtain rows' where rows': "scan E ino fh (of_nat (k + m)) calls b1 = Some rows'" "rows = rows_of k m snap @ rows'"
      using Cons.prems(8) m(2) l by (auto simp: c r)
    have "rows' = rows_of (k + m) (length snap - (k + m)) snap"
      by (rule Cons.IH [OF n1(2) _ sn Cons.prems(4) m(1) _ _ rows'(1)]) (use n1(1) Cons.prems(2,6,7) False in \<open>auto simp: c\<close>)
    moreover have "[k..<length snap] = [k..<k + m] @ [k + m..<length snap]" using upt_add_eq_append [of k "k + m" "length snap - (k + m)"] m(1) by simp
    ultimately show ?thesis using m(1) Cons.prems(5) by (simp add: rows'(2) rows_of_def)
  qed
qed

end
