(* ===== verification/VfsProps.thy ===== *)
theory VfsProps
  imports Vfs
begin

text \<open>
  Two properties of single operations: the check of \<open>access\<close> is the discretionary access control of
  POSIX, and the walk of \<open>dir_subtree_contains\<close> returns on every directory graph without a cycle, with
  the answer whether the target can be reached.
\<close>

section \<open>A small file system\<close>

text \<open>Two inodes, an empty root directory and an empty regular file of user 7 and group 8 with mode
  0640, for concrete inputs.\<close>

definition tiny_env :: "unit fs_env" where
  "tiny_env = \<lparr>fe_crypto = plain_crypto,
     fe_dev = \<lparr>read_block = (\<lambda>d n. Err OutOfRange), write_block = (\<lambda>d n b. (Err OutOfRange, d)), blocks = (\<lambda>d. 0), sync = (\<lambda>d. (Ok (), d))\<rparr>,
     fe_dir = \<lparr>xxh128 = \<lambda>b s. 5, xxh64 = \<lambda>b. 3, floats = zero_f64, index_iter = id\<rparr>,
     fe_ddt_iter = id, fe_dirty_iter = id, fe_cache_iter = id\<rparr>"

definition tiny_fs :: "unit fs" where
  "tiny_fs = \<lparr>fs_pool = \<lparr>po_dev = (), po_bm = bitmap_new 0, po_ddt = []\<rparr>,
     fs_ub = \<lparr>ub_magic = 0, ub_seq = 0, ub_block_size = 0, ub_active_meta = 0, ub_total_blocks = 0, ub_meta_a = 0, ub_meta_b = 0,
       ub_meta_blocks = 0, ub_inode_count = 2, ub_data_start = 0, ub_root_inode = 0, ub_next_inode = 2, ub_bitmap_len = 0,
       ub_ddt_len = 0, ub_inode_len = 0\<rparr>,
     fs_inodes = \<lparr>it_inodes = [inode_default\<lparr>kind := TYPE_DIR, nlink := 2\<rparr>,
                              inode_default\<lparr>kind := TYPE_REGULAR, nlink := 1, uid := 7, gid := 8, mode := 416\<rparr>], it_count = 2\<rparr>,
     fs_bs = \<lparr>bs_cipher = None\<rparr>, fs_open = [], fs_free = [], fs_clock = (\<lambda>n. of_nat n), fs_reads = 0, fs_meta_buf = [],
     fs_cache = None\<rparr>"

section \<open>Access control\<close>

text \<open>Whether the right in bit \<open>k\<close> of a mask (0 execute, 1 write, 2 read) is granted: the superuser gets
  everything, but execution of a non-directory only when somebody may execute it; others get the bits
  of the first class they belong to: owner, group, rest.\<close>

definition grants :: "inode \<Rightarrow> u32 \<Rightarrow> u32 \<Rightarrow> u32 list \<Rightarrow> nat \<Rightarrow> bool" where
  "grants i u g gids k =
     (if u = 0 then k = 0 \<and> kind i \<noteq> TYPE_DIR \<longrightarrow> bit (mode i) 0 \<or> bit (mode i) 3 \<or> bit (mode i) 6
      else k < 3 \<and> bit (mode i) (k + (if u = uid i then 6 else if g = gid i \<or> gid i \<in> set gids then 3 else 0)))"

lemma bit_single: "bit (push_bit a 1 :: 'a::len word) k \<longleftrightarrow> k = a \<and> a < LENGTH('a)"
  by (auto simp: bit_exp_iff)

lemma bit_low_mask: "bit (7 :: u32) k \<longleftrightarrow> k < 3" "bit (511 :: u32) k \<longleftrightarrow> k < 9" "bit (73 :: u32) k \<longleftrightarrow> k = 0 \<or> k = 3 \<or> k = 6"
  "bit (1 :: u32) k \<longleftrightarrow> k = 0"
proof -
  have e: "(7 :: u32) = mask 3" "(511 :: u32) = mask 9" "(73 :: u32) = push_bit 0 1 OR push_bit 3 1 OR push_bit 6 1"
    by (simp_all add: mask_eq_exp_minus_1)
  show "bit (7 :: u32) k \<longleftrightarrow> k < 3" "bit (511 :: u32) k \<longleftrightarrow> k < 9" unfolding e bit_mask_iff by auto
  show "bit (73 :: u32) k \<longleftrightarrow> k = 0 \<or> k = 3 \<or> k = 6" unfolding e bit_or_iff bit_single by auto
  show "bit (1 :: u32) k \<longleftrightarrow> k = 0" by (simp add: bit_1_iff)
qed

lemma perm_bits: "bit ((ucast (md :: u16) :: u32) AND 511) k \<longleftrightarrow> k < 9 \<and> bit md k"
  unfolding bit_and_iff bit_low_mask bit_unsigned_iff by auto

lemma masked_all: "(msk :: u32) AND a = msk \<longleftrightarrow> (\<forall>k. bit msk k \<longrightarrow> bit a k)"
  using bit_imp_le_length [of msk] by (auto simp: bit_eq_iff bit_and_iff)

text \<open>C13. \<open>access\<close> implements discretionary access control: on an existing inode it returns \<open>Ok\<close> exactly
  when every right in the mask is granted to the caller, by the owner, group or other bits of the
  mode, whichever class matches first, or by the rules for the superuser, and \<open>Permission\<close> otherwise.\<close>

theorem access_is_dac:
  assumes "itable_get (fs_inodes s) ino = Ok i"
  shows "fs_access s ino msk u g gids = (if \<forall>k. bit msk k \<longrightarrow> grants i u g gids k then Ok () else Err Permission)"
proof -
  let ?perm = "(ucast (mode i) :: u32) AND 511"
  let ?sh = "if u = uid i then 6 else if g = gid i \<or> gid i \<in> set gids then 3 else 0 :: nat"
  have z: "a = 0 \<longleftrightarrow> (\<forall>k. \<not> bit a k)" for a :: u32 using bit_imp_le_length [of a] by (auto simp: bit_eq_iff)
  have x: "msk AND ACCESS_X \<noteq> 0 \<longleftrightarrow> bit msk 0"
    unfolding ACCESS_X_def z [of "msk AND 1"] bit_and_iff bit_low_mask by auto
  have "?perm AND 73 = 0 \<longleftrightarrow> (\<forall>k. \<not> (bit ?perm k \<and> bit (73 :: u32) k))" unfolding z [of "?perm AND 73"] bit_and_iff [of ?perm 73] ..
  then have p: "?perm AND 73 = 0 \<longleftrightarrow> \<not> bit (mode i) 0 \<and> \<not> bit (mode i) 3 \<and> \<not> bit (mode i) 6"
    unfolding perm_bits bit_low_mask by auto
  have a: "bit (drop_bit ?sh ?perm AND 7) k \<longleftrightarrow> k < 3 \<and> bit (mode i) (k + ?sh)" for k
    unfolding bit_and_iff [of "drop_bit ?sh ?perm"] bit_drop_bit_eq comp_def perm_bits bit_low_mask(1) by (auto simp: add.commute)
  show ?thesis
  proof (cases "u = 0")
    case True
    then show ?thesis using z [of msk] by (auto simp: fs_access_def assms Let_def x p grants_def)
  next
    case False
    have "msk AND (drop_bit ?sh ?perm AND 7) = msk \<longleftrightarrow> (\<forall>k. bit msk k \<longrightarrow> grants i u g gids k)"
      unfolding masked_all a using False by (simp add: grants_def)
    then show ?thesis using z [of msk] False by (auto simp: fs_access_def assms Let_def)
  qed
qed

theorem access_is_dac_witness:
  "fs_access tiny_fs 1 4 9 8 [] = Ok () \<and> fs_access tiny_fs 1 2 9 8 [] = Err Permission \<and> fs_access tiny_fs 1 6 7 3 [] = Ok ()"
proof -
  define i where "i = inode_default\<lparr>kind := TYPE_REGULAR, nlink := 1, uid := 7, gid := 8, mode := 416\<rparr>"
  have g: "itable_get (fs_inodes tiny_fs) 1 = Ok i" by (simp add: tiny_fs_def itable_get_def i_def word_le_nat_alt)
  have e: "(416 :: u16) = push_bit 5 1 OR push_bit 7 1 OR push_bit 8 1" "(4 :: u32) = push_bit 2 1" "(2 :: u32) = push_bit 1 1"
    "(6 :: u32) = push_bit 1 1 OR push_bit 2 1" by simp_all
  have b: "bit (416 :: u16) k \<longleftrightarrow> k = 5 \<or> k = 7 \<or> k = 8" "bit (4 :: u32) k \<longleftrightarrow> k = 2" "bit (2 :: u32) k \<longleftrightarrow> k = 1"
    "bit (6 :: u32) k \<longleftrightarrow> k = 1 \<or> k = 2" for k
    unfolding e bit_or_iff bit_single by auto
  have "grants i 9 8 [] k \<longleftrightarrow> k < 3 \<and> bit (416 :: u16) (k + 3)" for k by (simp add: grants_def i_def)
  then have g9: "grants i 9 8 [] k \<longleftrightarrow> k = 2" for k unfolding b by arith
  have "grants i 7 3 [] k \<longleftrightarrow> k < 3 \<and> bit (416 :: u16) (k + 6)" for k by (simp add: grants_def i_def)
  then have g7: "grants i 7 3 [] k \<longleftrightarrow> k = 1 \<or> k = 2" for k unfolding b by arith
  show ?thesis unfolding access_is_dac [OF g] g9 g7 b by simp
qed

section \<open>The subtree walk\<close>

text \<open>The directories listed in a directory, as the walk reads them.\<close>

definition children :: "'d fs_env \<Rightarrow> 'd fs \<Rightarrow> u64 \<Rightarrow> u64 list" where
  "children E s d = (case res_bind (read_dir_pages E s d) (subdirs s) of Ok ds \<Rightarrow> ds | _ \<Rightarrow> [])"

definition below :: "'d fs_env \<Rightarrow> 'd fs \<Rightarrow> (u64 \<times> u64) set" where
  "below E s = {(c, d). c \<in> set (children E s d)}"

lemma wf_below: "acyclic (below E s) \<Longrightarrow> wf (below E s)"
  by (rule finite_acyclic_wf) simp_all

lemma walk_returns:
  assumes "wf (below E s)"
  shows "subtree_walk E s target rest = Some r \<Longrightarrow> \<exists>r'. subtree_walk E s target (d # rest) = Some r'"
  using assms
proof (induction d arbitrary: rest r rule: wf_induct_rule)
  case (less d)
  have push: "\<exists>r'. subtree_walk E s target (ds @ rest) = Some r'" if "set ds \<subseteq> set (children E s d)" for ds
    using that
  proof (induction ds)
    case (Cons c ds)
    then obtain r' where "subtree_walk E s target (ds @ rest) = Some r'" by auto
    moreover have "(c, d) \<in> below E s" using Cons.prems by (simp add: below_def)
    ultimately show ?case using less.IH [of c "ds @ rest"] by simp
  qed (use less.prems in auto)
  show ?case
  proof (cases "d = target")
    case False
    show ?thesis
    proof (cases "res_bind (read_dir_pages E s d) (subdirs s)")
      case (Ok ds)
      then have "children E s d = ds" by (simp add: children_def)
      then show ?thesis using push [of "rev ds"] False Ok by (subst subtree_walk.simps) simp
    qed (use False in \<open>(subst subtree_walk.simps, simp)+\<close>)
  qed (subst subtree_walk.simps, simp)
qed

lemma walk_answer:
  "subtree_walk E s target st = Some r \<Longrightarrow> r = Ok found \<Longrightarrow> found = (\<exists>d \<in> set st. (target, d) \<in> (below E s)\<^sup>*)"
proof (induction E s target st r rule: subtree_walk.raw_induct [rotated, consumes 1, case_names step])
  case (step walk E s target st r)
  show ?case
  proof (cases st)
    case (Cons d rest)
    show ?thesis
    proof (cases "d = target")
      case False
      obtain ds where ds: "res_bind (read_dir_pages E s d) (subdirs s) = Ok ds" "walk E s target (rev ds @ rest) = Some r"
        using step(2,3) Cons False by (auto split: res.splits)
      then have c: "children E s d = ds" by (simp add: children_def)
      have "(target, d) \<in> (below E s)\<^sup>* \<longleftrightarrow> (\<exists>x \<in> set ds. (target, x) \<in> (below E s)\<^sup>*)"
        using False c by (auto simp: below_def elim: rtranclE intro: rtrancl_into_rtrancl)
      then show ?thesis using step(1) [OF ds(2) step(3)] Cons by auto
    qed (use step(2,3) Cons in auto)
  qed (use step(2,3) in simp)
qed

text \<open>C12. \<open>dir_subtree_contains\<close> returns whenever the directories form no cycle, and a positive or
  negative answer is right: the target is the root of the subtree or lies below it.\<close>

theorem subtree_walk_ends:
  assumes "acyclic (below E s)"
  shows "\<exists>r. dir_subtree_contains E s rt target = Some r \<and> (\<forall>found. r = Ok found \<longrightarrow> found = ((target, rt) \<in> (below E s)\<^sup>*))"
proof -
  have "subtree_walk E s target [] = Some (Ok False)" by (subst subtree_walk.simps) simp
  from walk_returns [OF wf_below [OF assms] this] obtain r where r: "subtree_walk E s target [rt] = Some r" by blast
  then show ?thesis using walk_answer [OF r] by (auto simp: dir_subtree_contains_def)
qed

theorem subtree_walk_ends_witness:
  "dir_subtree_contains tiny_env tiny_fs 0 1 = Some (Ok False) \<and> (1, 0) \<notin> (below tiny_env tiny_fs)\<^sup>*"
proof -
  have c: "res_bind (read_dir_pages tiny_env tiny_fs d) (subdirs tiny_fs) \<in> {Ok [], Err NotDir, Err (FsInode InodeOutOfRange)}" for d
  proof -
    consider "d = 0" | "d = 1" | "2 \<le> d" by (simp add: word_unat_eq_iff word_le_nat_alt) linarith
    then show ?thesis
      by cases (simp_all add: tiny_fs_def read_dir_pages_def itable_get_def get_data_def inode_default_def read_pages.simps
        TYPE_DIR_def TYPE_REGULAR_def word_le_nat_alt)
  qed
  have "children tiny_env tiny_fs d = []" for d using c [of d] by (auto simp: children_def)
  then have a: "acyclic (below tiny_env tiny_fs)" by (simp add: below_def acyclic_def)
  have "res_bind (read_dir_pages tiny_env tiny_fs 0) (subdirs tiny_fs) = Ok []"
    by (simp add: tiny_fs_def read_dir_pages_def itable_get_def get_data_def inode_default_def read_pages.simps)
  then have w: "dir_subtree_contains tiny_env tiny_fs 0 1 = Some (Ok False)"
    by (simp add: dir_subtree_contains_def subtree_walk.simps)
  from subtree_walk_ends [OF a, of 0 1] w show ?thesis by auto
qed

end
