(* ===== verification/FuseProps.thy ===== *)
theory FuseProps
  imports Sessions VfsProps
begin

text \<open>
  The properties of the FUSE binding: every session keeps the state well-typed and the open counts
  exact, a directory stream shows its snapshot exactly once whatever happens in between, and how the
  write handler reports a full device.
\<close>

lemma tiny_ok: "fuse_ok tiny_env 1 (bfuse_new tiny_fs)"
  using plain_crypto_ok
  by (simp add: fuse_ok_def bfuse_new_def tiny_fs_def tiny_env_def fs_held_def crypto_ok_def itable_ok_def open_count_of_def live_def)

text \<open>C10. Every session keeps the state well-typed: whatever requests the kernel sends, as long as
  fewer than \<open>2 ^ 32\<close> handles are given out, the inode table stays well-typed, the file handles are
  distinct, open and below the next one, and the open count of every inode is exactly the number of
  its live handles, so the last release, and no earlier one, finds the count zero.\<close>

theorem session_typed:
  assumes "fuse_ok E n b" "n + length reqs < 2 ^ 32" "fuse_run E reqs b = Some b'"
  shows "\<exists>n'. n \<le> n' \<and> n' \<le> n + length reqs \<and> bf_next_fh b' = of_nat n' \<and> itable_ok (fs_inodes (bf_fs b')) \<and>
    distinct (map fst (bf_handles b')) \<and> (\<forall>(fh, h) \<in> set (bf_handles b'). unat fh < n' \<and> \<not> hd_closed h) \<and>
    (\<forall>ino. unat (open_count_of (bf_fs b') ino) = live (bf_handles b') ino)"
proof -
  obtain n' where n': "n' \<le> n + length reqs" "n \<le> n'" "fuse_ok E n' b'" using run_ok [OF assms] by blast
  have "unat (open_count_of (bf_fs b') ino) = live (bf_handles b') ino" for ino
    using fuse_okD(7) [OF n'(3), of ino] live_bound [OF n'(3), of ino] fuse_okD(2) [OF n'(3)] by simp
  moreover have "\<forall>(fh, h) \<in> set (bf_handles b'). unat fh < n' \<and> \<not> hd_closed h" using fuse_okD(5) [OF n'(3)] by blast
  ultimately show ?thesis using n' fuse_okD(1,3,4) [OF n'(3)] by (intro exI [of _ n']) (simp add: fs_held_def)
qed

theorem session_typed_witness:
  "\<exists>b'. fuse_run tiny_env [Open 2 0, Open 2 0, Opendir 1, Getattr 2, Release 1] (bfuse_new tiny_fs) = Some b' \<and>
     unat (open_count_of (bf_fs b') 1) = live (bf_handles b') 1"
proof -
  let ?rs = "[Open 2 0, Open 2 0, Opendir 1, Getattr 2, Release 1]"
  have "\<not> Option.is_none (fuse_run tiny_env ?rs (bfuse_new tiny_fs))" by code_simp
  then obtain b' where "fuse_run tiny_env ?rs (bfuse_new tiny_fs) = Some b'" by (auto simp: Option.is_none_def)
  with session_typed [OF tiny_ok _ this] show ?thesis by auto
qed

text \<open>C11. A directory stream is consistent: a client that opens a directory and reads it in as many
  replies as the buffer sizes force, while any other requests of the session (creations, removals,
  renames, other streams, everything but the release of this stream) are served in between, gets the
  entries that \<open>snapshot_dir\<close> returned when the stream was opened, in order, each exactly once, with the cookies
  \<open>1, 2, \<dots>\<close>.  Every buffer takes at least one entry.\<close>

theorem readdir_stream:
  assumes "fuse_ok E n b" "fuse_opendir E ino b = (Ok (ROpened fh), b0)" "fst (snapshot_dir E ino (bf_fs b)) = Ok snap"
    and "Suc n + length (concat (map fst calls)) < 2 ^ 32" "length snap < 2 ^ 64" "length snap \<le> length calls"
    and "\<forall>(reqs, full) \<in> set calls. Releasedir fh \<notin> set reqs \<and> (\<forall>row. \<not> full [] row)"
    and "scan E ino fh 0 calls b0 = Some rows"
  shows "map snd rows = snap \<and> map fst rows = map (\<lambda>i. of_nat i) [1..<Suc (length snap)]"
proof -
  from assms(2) have d: "fh = bf_next_fh b" "map_of (bf_dir_handles b0) fh = Some snap"
    by (cases rule: opendir_cases; use assms(3) in \<open>simp add: update_conv'\<close>)+
  have "after E n b0" by (rule opendir_ok [OF assms(1) _ assms(2)]) (use assms(4) in simp)
  then obtain n' where n': "fuse_ok E n' b0" "n' \<le> Suc n" by (auto simp: after_def)
  have "rows = rows_of 0 (length snap - 0) snap"
    by (rule scan_rest [OF n'(1) _ d(2) assms(5) _ _ assms(7)]) (use n'(2) assms(4,6,8) in simp_all)
  then show ?thesis
    by (simp add: rows_of_def map_nth comp_def map_Suc_upt [symmetric] del: upt_Suc)
qed

theorem readdir_stream_witness:
  "\<exists>b0 rows. fuse_opendir tiny_env 1 (bfuse_new tiny_fs) = (Ok (ROpened 1), b0) \<and>
     scan tiny_env 1 1 0 (replicate 3 ([Open 2 0, Opendir 1], \<lambda>rows row. rows \<noteq> [])) b0 = Some rows \<and>
     map sn_name (map snd rows) = [[46], [46, 46]]"
proof -
  let ?b = "bfuse_new tiny_fs" and ?calls = "replicate 3 ([Open 2 0, Opendir 1], \<lambda>rows row. rows \<noteq> [])"
  let ?snap = "[\<lparr>sn_ino = 1, sn_kind = Directory, sn_name = [46]\<rparr>, \<lparr>sn_ino = 1, sn_kind = Directory, sn_name = [46, 46]\<rparr>]"
  obtain r b0 where o: "fuse_opendir tiny_env 1 ?b = (r, b0)" by fastforce
  have "fst (fuse_opendir tiny_env 1 ?b) = Ok (ROpened 1)" by code_simp
  then have r: "r = Ok (ROpened 1)" by (simp add: o)
  have sn: "fst (snapshot_dir tiny_env 1 (bf_fs ?b)) = Ok ?snap" by code_simp
  have "\<not> Option.is_none (scan tiny_env 1 1 0 ?calls (snd (fuse_opendir tiny_env 1 ?b)))" by code_simp
  then obtain rows where s: "scan tiny_env 1 1 0 ?calls b0 = Some rows" by (auto simp: o Option.is_none_def)
  have "map snd rows = ?snap"
    using readdir_stream [OF tiny_ok o [unfolded r] sn _ _ _ _ s] by (simp add: numeral_3_eq_3)
  then show ?thesis using o r s by auto
qed

text \<open>C16. A write never reports a full device as such: whatever goes wrong in it, the write handler does
  not answer \<open>ENOSPC\<close>.  The allocator's \<open>NoSpace\<close> reaches it inside \<open>Error::Store\<close>, which the table of
  \<open>errno\<close> maps to \<open>EIO\<close>.\<close>

theorem write_never_ENOSPC:
  assumes "fuse_ok E n b"
  shows "fst (fuse_write E ino off data b) \<noteq> Err ENOSPC"
proof -
  have "keeping E (fs_open (bf_fs b)) any (write_at E (id_of ino) off data (bf_fs b))"
    by (rule write_at_held [OF fuse_okD(1) [OF assms]])
  then have h: "hard e" if "write_at E (id_of ino) off data (bf_fs b) = (Err e, s)" for e s using okayD(3) that by fastforce
  have "ENOSPC \<noteq> errno_of e" if "hard e" for e using that by (cases e) simp_all
  with h show ?thesis by (auto simp: fuse_write_def on_fs_def st_bind_def st_return_def split: prod.splits res.splits elim!: map_err.elims)
qed

theorem write_never_ENOSPC_witness:
  "fst (fuse_write tiny_env 2 0 [1, 2, 3] (bfuse_new tiny_fs)) = Err EIO \<and> fst (fuse_write tiny_env 2 0 [1, 2, 3] (bfuse_new tiny_fs)) \<noteq> Err ENOSPC"
proof
  show "fst (fuse_write tiny_env 2 0 [1, 2, 3] (bfuse_new tiny_fs)) = Err EIO" by code_simp
  show "fst (fuse_write tiny_env 2 0 [1, 2, 3] (bfuse_new tiny_fs)) \<noteq> Err ENOSPC" by (rule write_never_ENOSPC [OF tiny_ok])
qed

end
