(* ===== verification/CliProps.thy ===== *)
theory CliProps
  imports Cli FileProps
begin

text \<open>
  The command-line tool: a key printed in hexadecimal is read back, and what \<open>bloomfs format\<close> leaves
  mounts as an empty file system that belongs to the user who formatted it.
\<close>

section \<open>Keys\<close>

definition hex_char :: "u8 \<Rightarrow> u8" where
  "hex_char v = (if v < 10 then 48 + v else 87 + v)"

definition hex_pair :: "u8 \<Rightarrow> bytes" where
  "hex_pair b = [hex_char (b div 16), hex_char (b mod 16)]"

definition hex_string :: "bytes \<Rightarrow> bytes" where
  "hex_string bs = concat (map hex_pair bs)"

lemma hex_chars:
  assumes "v < 16"
  shows "hex_digit (hex_char v) = Some v" "hex_char v \<noteq> 43" "\<not> is_cont (hex_char v)"
proof -
  have "unat v \<in> {0..<16}" using assms by (simp add: word_less_nat_alt)
  then have "v \<in> of_nat ` {0..<16}" by (intro image_eqI [of _ _ "unat v"]) simp_all
  then have "list_all (\<lambda>v. hex_digit (hex_char v) = Some v \<and> hex_char v \<noteq> 43 \<and> \<not> is_cont (hex_char v)) (map of_nat [0..<16]) \<Longrightarrow>
      hex_digit (hex_char v) = Some v \<and> hex_char v \<noteq> 43 \<and> \<not> is_cont (hex_char v)"
    by (auto simp: list_all_iff)
  moreover have "list_all (\<lambda>v. hex_digit (hex_char v) = Some v \<and> hex_char v \<noteq> 43 \<and> \<not> is_cont (hex_char v)) (map of_nat [0..<16])"
    by code_simp
  ultimately show "hex_digit (hex_char v) = Some v" "hex_char v \<noteq> 43" "\<not> is_cont (hex_char v)" by blast+
qed

lemma nibbles: "(b :: u8) div 16 < 16" "b mod 16 < 16" "b div 16 * 16 + b mod 16 = b" "unat (b div 16) * 16 + unat (b mod 16) \<le> 255"
proof -
  have "unat b < 256" using unsigned_less [of b, where ?'a = nat] by simp
  then show "b div 16 < 16" "b mod 16 < 16" "unat (b div 16) * 16 + unat (b mod 16) \<le> 255"
    by (simp_all add: word_less_nat_alt unat_div unat_mod)
  show "b div 16 * 16 + b mod 16 = b" by (rule div_mult_mod_eq)
qed

lemma hex_pair_value: "from_str_radix_16 (hex_pair b) = Some b"
proof -
  note h = hex_chars [OF nibbles(1), of b] hex_chars [OF nibbles(2), of b]
  have "unat (b div 16) \<le> 255" "\<not> 255 < unat (b div 16) * 16 + unat (b mod 16)" using nibbles(4) [of b] by linarith+
  then show ?thesis using h nibbles(3) [of b] by (simp add: from_str_radix_16_def hex_pair_def)
qed

lemma hex_string_slice: "j < length bs \<Longrightarrow> slice (2 * j) (2 * j + 2) (hex_string bs) = hex_pair (bs ! j)"
  using slice_concat_chunk [of bs hex_pair 2 j "[]"] by (simp add: hex_string_def hex_pair_def mult.commute)

lemma length_hex_string [simp]: "length (hex_string bs) = 2 * length bs"
  by (induction bs) (simp_all add: hex_string_def hex_pair_def)

lemma hex_string_ascii: "c \<in> set (hex_string bs) \<Longrightarrow> \<not> is_cont c"
  using hex_chars(3) nibbles(1,2) by (auto simp: hex_string_def hex_pair_def)

lemma hex_string_boundary: "i \<le> 2 * length bs \<Longrightarrow> is_char_boundary (hex_string bs) i"
  using hex_string_ascii [OF nth_mem, of i bs] by (auto simp: is_char_boundary_def)

lemma hex_pairs_string: "j \<le> length bs \<Longrightarrow> hex_pairs (hex_string bs) (map (\<lambda>k. 2 * k) [j..<length bs]) = Ok (drop j bs)"
proof (induction "length bs - j" arbitrary: j)
  case (Suc d)
  then have j: "j < length bs" by simp
  then have "[j..<length bs] = j # [Suc j..<length bs]" by (rule upt_conv_Cons)
  moreover have "hex_pairs (hex_string bs) (map (\<lambda>k. 2 * k) [Suc j..<length bs]) = Ok (drop (Suc j) bs)" using Suc by simp
  moreover have "is_char_boundary (hex_string bs) (2 * j)" "is_char_boundary (hex_string bs) (2 * j + 2)"
    using j by (auto intro: hex_string_boundary)
  ultimately show ?case using hex_string_slice [OF j] j by (simp add: hex_pair_value Cons_nth_drop_Suc)
qed simp

text \<open>C15. Keys are read back: parsing the lower-case hexadecimal form of a byte string selects the
  plaintext pool when it is empty, returns exactly these bytes when there are 32 or 64 of them, and
  rejects any other length with the number of bytes.\<close>

theorem key_round_trip:
  "parse_key (hex_string k) =
     (if k = [] then Ok None else if length k = 32 \<or> length k = 64 then Ok (Some k) else Err (BadKeyLength (length k)))"
proof -
  have "decode_hex (hex_string k) = Ok k" using hex_pairs_string [of 0 k] by (simp add: decode_hex_def)
  moreover have "hex_string k = [] \<longleftrightarrow> k = []" by (simp add: length_0_conv [symmetric] del: length_0_conv)
  ultimately show ?thesis by (simp add: parse_key_def)
qed

text \<open>What the decoder does beside hexadecimal digits: a plus sign counts as one, and a character of more
  than one byte can end the program.\<close>

lemma decode_hex_sign: "decode_hex [43, 102] = Ok [15]"
  by code_simp

lemma decode_hex_panics: "is_utf8 [97, 0xC3, 0xA9, 98] \<and> decode_hex [97, 0xC3, 0xA9, 98] = Panic"
  by code_simp

section \<open>Formatting\<close>

text \<open>Without stored blocks the snapshot fits its slot.\<close>

lemma fresh_snapshot_fits:
  assumes ev: "env_ok file_dev U E" and v: "vol_ok (\<lambda>d. file_healthy (fd_f d) (fd_blocks d)) file_view E U N ct M s"
    and f: "fmt_fits tot DEFAULT_INODE_COUNT DEFAULT_DDT_RESERVE" and n: "length (it_inodes (fs_inodes s)) = 4096"
    and d: "po_ddt (fs_pool s) = []" "blocks file_dev (po_dev (fs_pool s)) = tot"
      "unat (ub_data_start (fs_ub s)) = 2 + 2 * unat (fmt_blocks tot DEFAULT_INODE_COUNT DEFAULT_DDT_RESERVE)"
  shows "snap_len (po_bm (fs_pool s)) (po_ddt (fs_pool s)) (fs_inodes s) \<le> mblocks (fs_ub s) * SIZE"
proof -
  note vd = vol_okD [OF v]
  let ?bm = "po_bm (fs_pool s)" and ?fb = "unat (fmt_blocks tot DEFAULT_INODE_COUNT DEFAULT_DDT_RESERVE)"
  have e: "fe_dev E = file_dev" using ev by (simp add: env_ok_def)
  have "length (bm_bits ?bm) = unat (div_ceil (bm_total ?bm) 64)" using pool_inv_facts(1) [OF vd(2)] by (simp add: bitmap_ok_def)
  also have "\<dots> \<le> unat (bm_total ?bm) div 64 + 1" by (subst unat_div_ceil) simp_all
  also have "unat (bm_total ?bm) = unat tot" using pool_inv_facts(2) [OF vd(2)] d(2) e by simp
  finally have "bitmap_marshal_len ?bm \<le> 16 + unat tot div 8" by (simp add: bitmap_marshal_len_def)
  moreover have "mblocks (fs_ub s) = ?fb" using vd(3) d(3) by (simp add: geom_def)
  moreover have "64 + 8 + unat tot div 8 + unat DEFAULT_DDT_RESERVE + 4096 * INODE_SIZE \<le> ?fb * SIZE"
    using fmt_blocks_bounds(1) [OF f refl] by (simp add: DEFAULT_INODE_COUNT_def)
  moreover have "unat (it_count (fs_inodes s)) \<le> 4096" using vd(7) n by (simp add: itable_ok_def)
  ultimately show ?thesis
    using d(1) by (simp add: snap_len_def dedup_marshal_len_def itable_marshal_len_def INODE_SIZE_def DEFAULT_DDT_RESERVE_def)
qed

lemma root_access: "itable_get (fs_inodes s) ino = Ok i \<Longrightarrow> mode i = 493 \<Longrightarrow> kind i = TYPE_DIR \<Longrightarrow> uid i = u \<Longrightarrow> fs_access s ino 7 u g gids = Ok ()"
  by (simp add: fs_access_def Let_def)

text \<open>Formatting a device that is large enough and whose first uberblock slot holds nothing valid.\<close>

lemma format_on_then_mount:
  assumes "env_ok file_dev U E" "file_healthy (fd_f d) (fd_blocks d)" "fmt_fits (fd_blocks d) DEFAULT_INODE_COUNT DEFAULT_DDT_RESERVE"
    and "2 + 2 * unat (fmt_blocks (fd_blocks d) DEFAULT_INODE_COUNT DEFAULT_DDT_RESERVE) < unat (fd_blocks d)"
    and "\<forall>w. parse_uber (fe_crypto E) (file_view d 0) = Ok w \<longrightarrow> ub_seq w < 1" "store_new (fe_crypto E) key = Ok bs"
  shows "\<exists>d' s t. do_format_on E clock u g key d = (Ok (), d') \<and> fs_mount E clock' key d' = Ok s \<and> fs_inv E U N s \<and>
    itable_get (fs_inodes s) (fs_root s) = Ok ((root_inode (clock 0))\<lparr>uid := u, gid := g, ctime := t\<rparr>) \<and>
    fst (fs_readdir E (fs_root s) s) = Ok [] \<and> fs_access s (fs_root s) 7 u g [] = Ok ()"
proof -
  let ?tot = "fd_blocks d" and ?ic = DEFAULT_INODE_COUNT and ?dr = DEFAULT_DDT_RESERVE
  have b: "?tot = blocks file_dev d" by (simp add: blocks_file_dev)
  obtain s where s: "fs_format E clock key d = (Ok s, po_dev (fs_pool s))" "file_fs_ok E U N Map.empty s" "fs_root s = 0"
      "it_inodes (fs_inodes s) = (replicate 4096 inode_default)[0 := root_inode (clock 0)]" "po_ddt (fs_pool s) = []" "fs_bs s = bs"
      "unat (ub_data_start (fs_ub s)) = 2 + 2 * unat (fmt_blocks ?tot ?ic ?dr)" "blocks file_dev (po_dev (fs_pool s)) = ?tot" "ub_seq (fs_ub s) = 2"
    using fil.format_ok [OF assms(1,2) b assms(3-6), of clock N] by blast
  define t where "t = fs_clock s (fs_reads s)"
  define rt where "rt = (root_inode (clock 0))\<lparr>uid := u, gid := g, ctime := t\<rparr>"
  define s1 where "s1 = s\<lparr>fs_reads := Suc (fs_reads s)\<rparr>"
  have k1: "file_fs_ok E U N Map.empty s1"
    using s(2) vol_ok_cong [OF fs_okD(1) [OF s(2)], of s1] fs_okD(2) [OF s(2)] by (simp add: fs_ok_def s1_def)
  obtain r2 s2 where w2: "put_inode 0 rt s1 = (r2, s2)" by fastforce
  have rt: "inode_typed rt" "in_size rt = 0" by (simp_all add: rt_def root_inode_def inode_default_def inode_typed_def)
  have g0: "itable_get (fs_inodes s) 0 = Ok (root_inode (clock 0))" using itable_get_Ok [OF fs_okD(2) [OF s(2)], of 0] s(4) by simp
  have k2: "file_fs_ok E U N Map.empty s2" "r2 = Ok ()" "it_inodes (fs_inodes s2) = (replicate 4096 inode_default)[0 := rt]"
      "fs_pool s2 = fs_pool s" "fs_ub s2 = fs_ub s" "same_vfs s1 s2"
    using put_empty_vol [OF k1 _ _ rt w2] s(4) by (simp_all add: s1_def root_inode_def inode_default_def)
  have ch: "fs_chown (fs_root s) u g s = (Ok (), s2)"
    using w2 k2(2) g0 s(3) by (simp add: fs_chown_def fs_now_def mutate_inode_def get_inode_def st_bind_def t_def [symmetric] rt_def s1_def)
  have fit: "snap_len (po_bm (fs_pool s2)) (po_ddt (fs_pool s2)) (fs_inodes s2) \<le> mblocks (fs_ub s2) * SIZE"
    by (rule fresh_snapshot_fits [OF assms(1) fs_okD(1) [OF k2(1)] assms(3)]) (use k2(3-5) s(5,7,8) in simp_all)
  obtain r3 s3 where w3: "fs_commit E s2 = (r3, s3)" by fastforce
  have c: "r3 = Ok ()" using fil.fs_commit_vol [OF assms(1) fs_okD(1) [OF k2(1)] w3] fit by simp
  have f: "do_format_on E clock u g key d = (Ok (), po_dev (fs_pool s3))"
    using s(1) ch w3 c by (simp add: do_format_on_def st_bind_def fs_fsync_def)
  have "unat (ub_seq (fs_ub s2)) + 1 < 2 ^ 64" "store_new (fe_crypto E) key = Ok (fs_bs s2)"
    using s(6,9) k2(5,6) assms(6) by (simp_all add: same_vfs_def s1_def)
  from fil.remount_ok [OF assms(1) k2(1) w3 [unfolded c] this, of clock']
  obtain s4 where s4: "fs_mount E clock' key (po_dev (fs_pool s3)) = Ok s4" "file_fs_ok E U N Map.empty s4" "inode_same E s2 s4 0" "fs_root s4 = fs_root s2"
    by blast
  have r0: "fs_root s4 = 0" using s4(4) s(3) k2(5) by (simp add: fs_root_def)
  have g4: "itable_get (fs_inodes s4) (fs_root s4) = Ok rt"
    using s4(3) itable_get_Ok [OF fs_okD(2) [OF k2(1)], of 0] k2(3) r0 by (simp add: inode_same_def)
  have "fs_cache s4 = Some cache_new" using s4(1) by (auto simp: fs_mount_def res_bind_eq_Ok)
  moreover have "kind rt = TYPE_DIR" "mode rt = 493" "uid rt = u" by (simp_all add: rt_def root_inode_def)
  ultimately have "fst (fs_readdir E (fs_root s4) s4) = Ok []" "fs_access s4 (fs_root s4) 7 u g [] = Ok ()"
    using readdir_empty [OF g4 _ rt(2)] root_access [OF g4] by simp_all
  moreover have "fs_inv E U N s4" using s4(2) by (auto simp: fs_inv_def)
  ultimately show ?thesis using f s4(1) g4 [unfolded rt_def] by blast
qed

text \<open>A created image is all zeros, so its first slot holds nothing, and its length never wraps around.\<close>

lemma created_image:
  assumes "\<forall>x \<in> set (fl_faults f). x = None" "file_create (Ok f) (Ok ()) (m div of_nat SIZE) = Ok d" "0 < unat (m div of_nat SIZE)"
  shows "file_healthy (fd_f d) (fd_blocks d)" "fd_blocks d = m div of_nat SIZE" "parse_uber C (file_view d 0) = Err BadUber"
proof -
  let ?n = "m div of_nat SIZE :: u64"
  have "unat ?n * SIZE \<le> unat m" by (simp add: unat_div SIZE_def)
  then have b: "unat ?n * SIZE < 2 ^ 64" using unsigned_less [of m, where ?'a = nat] by simp
  then have o: "unat (?n * of_nat SIZE) = unat ?n * SIZE" by (simp add: unat_word_ariths SIZE_def)
  have d: "d = \<lparr>fd_f = f\<lparr>fl_bytes := replicate (unat ?n * SIZE) 0\<rparr>, fd_blocks = ?n\<rparr>" using assms(2) o by (simp add: file_create_def)
  show "file_healthy (fd_f d) (fd_blocks d)" "fd_blocks d = ?n" using assms(1) b by (simp_all add: d file_healthy_def file_fits_def)
  have "SIZE \<le> unat ?n * SIZE" using assms(3) by simp
  then have "file_view d 0 = replicate SIZE 0" using assms(3) by (simp add: block_view_def d slice_def min_def)
  then show "parse_uber C (file_view d 0) = Err BadUber" by (simp add: zero_block_no_uber)
qed

text \<open>C14. What \<open>bloomfs format\<close> leaves in an image file: when the key parses, the file is opened and sized
  and its writes do not fail, and \<open>--size\<close> leaves room for data behind the metadata, the command
  succeeds, and mounting the image with the same key gives a file system that satisfies the
  invariant, whose root is an empty directory of mode 0755 that belongs to the user and group who
  formatted it, who may therefore read, write and search it.  Whatever the file held before does not
  matter.\<close>

theorem format_then_mount:
  assumes "env_ok file_dev U EF" "parse_key key_hex = Ok key" "store_new (fe_crypto EF) key = Ok bs"
    and "\<forall>x \<in> set (fl_faults f). x = None" "n = size_mib * 1024 * 1024 div of_nat SIZE"
    and "fmt_fits n DEFAULT_INODE_COUNT DEFAULT_DDT_RESERVE" "2 + 2 * unat (fmt_blocks n DEFAULT_INODE_COUNT DEFAULT_DDT_RESERVE) < unat n"
  shows "\<exists>d s t. do_format ER EF clock u g False (Ok f) (Ok ()) blk_size size_mib key_hex = (Ok (), Some (FileImage d)) \<and>
    fs_mount EF clock' key d = Ok s \<and> fs_inv EF U N s \<and>
    itable_get (fs_inodes s) (fs_root s) = Ok ((root_inode (clock 0))\<lparr>uid := u, gid := g, ctime := t\<rparr>) \<and>
    fst (fs_readdir EF (fs_root s) s) = Ok [] \<and> fs_access s (fs_root s) 7 u g [] = Ok ()"
proof -
  obtain d where d: "file_create (Ok f) (Ok ()) n = Ok d" by (simp add: file_create_def)
  note c = created_image [OF assms(4) d [unfolded assms(5)]]
  have n: "0 < unat (size_mib * 1024 * 1024 div of_nat SIZE)" using assms(5,7) by simp
  have b: "fd_blocks d = n" using c(2) [OF n] assms(5) by simp
  have o: "\<forall>w. parse_uber (fe_crypto EF) (file_view d 0) = Ok w \<longrightarrow> ub_seq w < 1" using c(3) [OF n] by simp
  from format_on_then_mount [OF assms(1) c(1) [OF n] assms(6,7) [folded b] o assms(3), of clock u g clock' N]
  show ?thesis using assms(2) d assms(5) by (auto simp: do_format_def)
qed

theorem format_then_mount_witness:
  "\<forall>ER blk_size. \<exists>d s. do_format ER sample_env (\<lambda>_. 9) 1000 100 False (Ok \<lparr>fl_bytes = [1, 2], fl_faults = []\<rparr>) (Ok ()) blk_size 3 [] = (Ok (), Some (FileImage d)) \<and>
     fs_mount sample_env (\<lambda>_. 9) None d = Ok s \<and> fs_access s (fs_root s) 7 1000 100 [] = Ok ()"
proof -
  have U: "inj_on (blake3 plain_crypto) {}" "\<forall>pt \<in> {}. length pt < 2 ^ 32" by simp_all
  have k: "parse_key [] = Ok None" "store_new (fe_crypto sample_env) None = Ok \<lparr>bs_cipher = None\<rparr>"
    "\<forall>x \<in> set (fl_faults \<lparr>fl_bytes = [1, 2], fl_faults = []\<rparr>). x = None" "(768 :: u64) = 3 * 1024 * 1024 div of_nat SIZE"
    "fmt_fits 768 DEFAULT_INODE_COUNT DEFAULT_DDT_RESERVE"
    by (simp_all add: parse_key_def store_new_def SIZE_def fmt_fits_def INODE_SIZE_def DEFAULT_INODE_COUNT_def DEFAULT_DDT_RESERVE_def)
  have "2 + 2 * unat (fmt_blocks 768 DEFAULT_INODE_COUNT DEFAULT_DDT_RESERVE) < unat (768 :: u64)" by code_simp
  from format_then_mount [OF sample_env_ok [OF U] k this, of _ "\<lambda>_. 9" 1000 100 _ "\<lambda>_. 9" 5] show ?thesis by blast
qed

end
