(* ===== verification/Spec2Isabelle.thy ===== *)
theory Spec2Isabelle
  imports Alloc Dedup Block Inode Bloom Dir Store Cow Crash Txn Records Cache Fs Vfs Volume Files Splice FileOps Mounts FileProps Fuse Cli Frames Sessions VfsProps FuseProps CliProps
begin

text \<open>
  A verification of BloomFS, a copy-on-write, deduplicating, compressing and encrypting file system
  in user space, in its Rust implementation under \<^verbatim>\<open>src/rust\<close>.

  \<^bold>\<open>The program.\<close>  It is a stack of crates.  A block device (\<^verbatim>\<open>bloomfs-block\<close>) stores clusters of 4096
  bytes.  The allocator (\<^verbatim>\<open>bloomfs-alloc\<close>) is a bitmap of the clusters in use, the deduplication table
  (\<^verbatim>\<open>bloomfs-dedup\<close>) maps content hashes to stored copies with reference counts, and the inode table
  (\<^verbatim>\<open>bloomfs-inode\<close>) holds the 128-byte inodes; all three live in memory.  The data path
  (\<^verbatim>\<open>bloomfs-store\<close>) writes one logical block through hashing, deduplication, compression, encryption and
  the device.  The commit protocol (\<^verbatim>\<open>bloomfs-cow\<close>) writes the three structures as a snapshot into one of
  two metadata slots and then an uberblock into one of two slots; a mount takes the valid uberblock with
  the higher sequence number.  A directory is, in memory, a list of segments, each a hash index behind a
  Bloom filter (\<^verbatim>\<open>bloomfs-dir\<close>, \<^verbatim>\<open>bloomfs-bloom\<close>).  The file system (\<^verbatim>\<open>bloomfs-fs\<close>) puts files and directories
  on top of all of these, the FUSE binding (\<^verbatim>\<open>bloomfs-fuse\<close>) answers the requests of the kernel with it,
  and the command-line tool (\<^verbatim>\<open>bloomfs-cli\<close>) formats and mounts images.

  \<^bold>\<open>How the code is read.\<close>  Theory \<open>Prelude\<close> fixes it.  Integers are words of their width and wrap around
  as in a release build; \<open>usize\<close> lengths and indices are \<open>nat\<close>; byte vectors are lists.  A \<open>Result\<close> is
  \<open>res\<close>, with \<open>Ok\<close>, \<open>Err\<close> and, for an index out of range, a failed \<open>unwrap\<close> or a buffer of \<open>2 ^ 63\<close> bytes
  or more for file contents or for the device in memory, \<open>Panic\<close>.  A method with a mutable receiver returns its result together with the state it leaves,
  on its error paths too.  The trait \<open>Device\<close> is a record of operations over an arbitrary state.

  \<^bold>\<open>Which theory models what\<close> (file names are those of \<^verbatim>\<open>src/rust/<crate>/src/lib.rs\<close>).
  \<^item> \<open>Alloc\<close>: \<^verbatim>\<open>bloomfs-alloc\<close>.  The record \<open>bitmap\<close>; \<open>bitmap_alloc\<close>, \<open>bitmap_free\<close>, \<open>bitmap_defer\<close>,
    \<open>apply_deferred\<close> and the serialisation.  Allocation is first fit, the cached count is exact, clusters
    whose free is deferred are not given out before the commit, and the bitmap reads back.
  \<^item> \<open>Dedup\<close>: \<^verbatim>\<open>bloomfs-dedup\<close>.  Reference counting behind the contract \<open>ref_table\<close>, and the serialisation.
  \<^item> \<open>Block\<close>: \<^verbatim>\<open>bloomfs-block\<close>.  The devices in memory, on a file and raw, against the contract
    \<open>block_device\<close>; the file devices also over a file whose writes and syncs may fail
    (\<open>isolated_writes\<close>).
  \<^item> \<open>Inode\<close>: \<^verbatim>\<open>bloomfs-inode\<close>.  Round trips of inodes, inline extents and the table snapshot.
  \<^item> \<open>Bloom\<close>: \<^verbatim>\<open>bloomfs-bloom\<close>.  No false negatives (the contract \<open>approx_set\<close>); no access outside the
    array, and only one cache line for each key; and what the tuning loops guarantee of the number of
    blocks, over any floating-point arithmetic.
  \<^item> \<open>Dir\<close>: \<^verbatim>\<open>bloomfs-dir\<close>.  A directory refines a finite map from names to inode numbers (the contract
    \<open>name_map\<close>), whatever the hash functions do.
  \<^item> \<open>Store\<close>: \<^verbatim>\<open>bloomfs-store\<close>.  \<open>pool_inv\<close> is the invariant of the device, the bitmap and the
    deduplication table together; a block that was written reads back, and neither a write nor a release
    touches a cluster that was in use, also when the device fails half-way.
  \<^item> \<open>Cow\<close>, \<open>Crash\<close>, \<open>Txn\<close>: \<^verbatim>\<open>bloomfs-cow\<close>.  \<open>Cow\<close> has \<open>cow_format\<close>, \<open>cow_mount\<close> and \<open>cow_commit\<close>.
    \<open>Crash\<close> records the writes and syncs of a device and says what a disk may hold after a power failure
    (the contract \<open>torn_writes\<close>, for whole sectors and for mixed bytes).  \<open>Txn\<close> runs store operations and
    commits, cut off at any point, as histories from a formatted device on.
  \<^item> \<open>Records\<close>, \<open>Cache\<close>, \<open>Fs\<close>, \<open>Vfs\<close>: \<^verbatim>\<open>bloomfs-fs\<close>.  \<open>Records\<close> has the record policy, the lists of block
    references and the directory pages, \<open>Cache\<close> the struct \<open>CachedDir\<close> and the cache \<open>DirCache\<close>, \<open>Fs\<close> the
    struct \<open>FS\<close> (the record \<open>fs\<close>), format, mount, commit, blocks and writing at an offset, and \<open>Vfs\<close> every
    other method, from \<open>lookup\<close> to \<open>close\<close>, in the order of the source.
  \<^item> \<open>Volume\<close>, \<open>Files\<close>, \<open>Splice\<close>, \<open>FileOps\<close>, \<open>Mounts\<close>, \<open>FileProps\<close>: what the file system does to file
    contents.  \<open>vol_ok\<close> is the invariant of a volume on which references are held, \<open>fs_ok\<close> that of the file
    system, and \<open>inode_holds\<close> the abstraction from an inode to its bytes.  Writing, truncating and reading
    are the operations on byte lists, every other inode is left alone, failed operations change no inode
    and no contents, and what was committed is there after a remount.
  \<^item> \<open>Frames\<close>: for every method of the file system, what it keeps and which errors it can report, by rules
    over outcomes.
  \<^item> \<open>VfsProps\<close>: the access check is that of POSIX, and the walk below \<open>rename\<close> returns on acyclic trees.
  \<^item> \<open>Fuse\<close>, \<open>Sessions\<close>, \<open>FuseProps\<close>: \<^verbatim>\<open>bloomfs-fuse\<close>.  The struct \<open>BloomFuse\<close> is the record \<open>bfuse\<close>, with
    one definition per handler; \<open>fuse_handle\<close> serves a request and \<open>fuse_run\<close> a sequence of them.  Every
    session keeps the table well-typed and the open counts equal to the live handles, and a directory
    stream shows its snapshot once.
  \<^item> \<open>Cli\<close>, \<open>CliProps\<close>: \<^verbatim>\<open>bloomfs-cli/src/main.rs\<close>.  Key decoding and the two commands; an image file that
    \<open>do_format\<close> created is mounted empty, and belongs to the user who formatted it.

  \<^bold>\<open>How the proofs are layered.\<close>  Each crate is used through a contract.  \<open>block_device\<close> is interpreted on
  the three devices and on the recording device of \<open>Crash\<close>, \<open>ref_table\<close> on the deduplication table,
  \<open>approx_set\<close> on the filter, \<open>name_map\<close> on directories and \<open>torn_writes\<close> on the two kinds of disk.  Data
  flows upwards through abstractions: \<open>used_set\<close> of a bitmap, the reference counts of the table,
  \<open>dir_map\<close> of a directory, the block view of a device and the contents of an inode.

  \<^bold>\<open>Parameters and their hypotheses.\<close>  BLAKE3, zstd and AES-XTS are the record \<open>crypto\<close>; \<open>crypto_ok\<close> says
  that a hash has 32 bytes, that decompression undoes compression and decryption encryption, and that a
  cipher text is as long as its clear text.  Nothing says
  that the hash is injective: where deduplication would confuse two contents of the same hash, the
  theorem has the hypothesis that the contents that meet in the run at hand do not collide.  The hash
  functions of the directory index and of the filter are arbitrary, and so is the order in which a hash
  map is iterated, up to being an order of its entries.  The floating-point arithmetic of the filter's
  tuning is the record \<open>f64_ops\<close>, of which nothing is assumed.  The clock is the sequence of its readings.
  What the operating system answers to opening, sizing and inspecting an image is an argument.

  \<^bold>\<open>Loops, fuel and bounds.\<close>  There is no fuel.  The loops over buffers and pages are recursive functions
  with a termination proof.  The one loop that may not end is the walk of \<open>dir_subtree_contains\<close>, on a
  directory graph with a cycle; it is a partial function, and it is proved to return on every graph
  without one.  The theorems about whole files bound the sizes by what \<open>u64\<close> and \<open>isize\<close> can hold, as their
  statements say.  The witnesses run on small images, of a few dozen clusters.

  \<^bold>\<open>Modelled but not refined.\<close>  The operations that change the name space (\<open>create\<close>, \<open>mkdir\<close>, \<open>symlink\<close>, \<open>link\<close>,
  \<open>unlink\<close>, \<open>rmdir\<close>, \<open>rename\<close>) are definitions of \<open>Vfs\<close>, and \<open>Frames\<close> shows what they keep and which errors they
  report.  Their parts are verified: the index and the pages of a resident directory agree (\<open>Cache\<close>), and the
  index is a map (\<open>Dir\<close>).  That a whole operation changes the stored directories as that map changes is not stated.

  \<^bold>\<open>Not modelled.\<close>
  \<^item> Concurrency: the methods of \<open>FS\<close> that change anything take it exclusively, the only lock is the one around
    the directory cache, and the FUSE session serves one request at a time; operations are sequences of steps.
  \<^item> Third-party code: the hash, compression and cipher libraries beyond the hypotheses above, \<^verbatim>\<open>fuser\<close>, \<^verbatim>\<open>clap\<close>,
    the signal handler, and the calls that attach and detach a mount (\<open>mount\<close>, \<open>spawn\<close> and the mount
    options of \<^verbatim>\<open>bloomfs-fuse\<close>).
  \<^item> How close the false-positive estimate is to the rate of a filter.  The estimate is translated operation by
    operation, and what is proved of filters and directories holds whatever its values are.
  \<^item> Texts: the \<open>Display\<close> implementations of the errors, and what the tool prints.
  \<^item> Memory exhaustion, and the capacity panics of vectors other than those for file contents and for the device in
    memory.  From which capacity on the vector of the inode table panics depends on the layout the compiler
    chooses for an inode; a table is taken to be allocatable.
  \<^item> The tests and benchmarks, and the earlier implementation in Go, which the crates replace.
\<close>

end
